(* ===== verification/Prelude.thy ===== *)
theory Prelude
  imports Complex_Main "HOL-Library.Word"
begin

text \<open>
  Shared vocabulary of the development.

  \<^item> The names of the machine integers and the rendering of Rust's \<open>Result\<close>: a value of type
    \<open>'e + 'a\<close>, the error on the left, with \<open>rbind\<close> for the \<open>?\<close> operator and \<open>try_each\<close> for a
    loop whose body may return early with an error.
  \<^item> Big-endian reading and writing of integers (\<open>from_be_bytes\<close>, \<open>to_be_bytes\<close>) and the
    saturating operations of the integer types.
  \<^item> Interfaces used by several components: \<open>invariant_machine\<close>, a component whose every
    operation keeps an invariant, \<open>refinement_machine\<close>, one that moreover implements an abstract
    specification, and \<open>first_match\<close>, a rule list of which the first matching rule
    decides.
\<close>

named_theorems codec_simps \<open>sizes and contents of encoded messages\<close>
named_theorems inv_intros \<open>operations keep the component invariants\<close>

section \<open>Machine integers and results\<close>

type_synonym u8 = "8 word"
type_synonym u16 = "16 word"
type_synonym u32 = "32 word"
type_synonym u64 = "64 word"
type_synonym u128 = "128 word"

definition rbind :: "'e + 'a \<Rightarrow> ('a \<Rightarrow> 'e + 'b) \<Rightarrow> 'e + 'b" where
  "rbind r f = (case r of Inl e \<Rightarrow> Inl e | Inr a \<Rightarrow> f a)"

fun try_each :: "('a \<Rightarrow> 'e + unit) \<Rightarrow> 'a list \<Rightarrow> 'e + unit" where
  "try_each f [] = Inr ()"
| "try_each f (x # xs) = rbind (f x) (\<lambda>_. try_each f xs)"

definition ok_or :: "'e \<Rightarrow> 'a option \<Rightarrow> 'e + 'a" where
  "ok_or e x = (case x of None \<Rightarrow> Inl e | Some a \<Rightarrow> Inr a)"

definition is_ok :: "'e + 'a \<Rightarrow> bool" where
  "is_ok r = (case r of Inl _ \<Rightarrow> False | Inr _ \<Rightarrow> True)"

lemma rbind_simps [simp]: "rbind (Inl e) f = Inl e" "rbind (Inr a) f = f a"
  by (simp_all add: rbind_def)

lemma rbind_cong [fundef_cong]:
  "r = r' \<Longrightarrow> (\<And>a. r' = Inr a \<Longrightarrow> f a = f' a) \<Longrightarrow> rbind r f = rbind r' f'"
  by (cases r') auto

lemma rbind_eq_Inr: "rbind r f = Inr b \<longleftrightarrow> (\<exists>a. r = Inr a \<and> f a = Inr b)"
  by (cases r) auto

lemma rbind_eq_Inl: "rbind r f = Inl e \<longleftrightarrow> r = Inl e \<or> (\<exists>a. r = Inr a \<and> f a = Inl e)"
  by (cases r) auto

lemma try_each_eq_Inr: "try_each f xs = Inr () \<longleftrightarrow> (\<forall>x \<in> set xs. f x = Inr ())"
  by (induction xs) (auto simp: rbind_eq_Inr)

lemma try_each_eq_Inl: "try_each f xs = Inl e \<Longrightarrow> \<exists>x \<in> set xs. f x = Inl e"
  by (induction xs) (auto simp: rbind_eq_Inl)

lemma ok_or_eq_Inr [simp]: "ok_or e x = Inr a \<longleftrightarrow> x = Some a"
  by (simp add: ok_or_def split: option.splits)

lemma ok_or_eq_Inl [simp]: "ok_or e x = Inl e' \<longleftrightarrow> x = None \<and> e = e'"
  by (auto simp: ok_or_def split: option.splits)

lemma ok_or_simps [simp]: "ok_or e None = Inl e" "ok_or e (Some a) = Inr a"
  by (simp_all add: ok_or_def)

lemma is_ok_simps [simp]: "is_ok (Inl e) = False" "is_ok (Inr a) = True"
  by (simp_all add: is_ok_def)

section \<open>Big-endian bytes\<close>

definition u16_from_be :: "u8 \<Rightarrow> u8 \<Rightarrow> u16" where
  "u16_from_be a b = word_cat a b"

definition u32_from_be :: "u8 \<Rightarrow> u8 \<Rightarrow> u8 \<Rightarrow> u8 \<Rightarrow> u32" where
  "u32_from_be a b c d = word_cat (u16_from_be a b) (u16_from_be c d)"

definition u16_to_be :: "u16 \<Rightarrow> u8 list" where
  "u16_to_be w = [ucast (drop_bit 8 w), ucast w]"

definition u32_to_be :: "u32 \<Rightarrow> u8 list" where
  "u32_to_be w =
     [ucast (drop_bit 24 w), ucast (drop_bit 16 w), ucast (drop_bit 8 w), ucast w]"

lemma length_to_be [simp, codec_simps]: "length (u16_to_be w) = 2" "length (u32_to_be v) = 4"
  by (simp_all add: u16_to_be_def u32_to_be_def)

lemma u16_from_to_be [simp]: "u16_from_be (ucast (drop_bit 8 w)) (ucast w) = w"
  unfolding u16_from_be_def by (rule bit_word_eqI) (auto simp: bit_simps)

lemma u32_from_to_be [simp]:
  "u32_from_be (ucast (drop_bit 24 w)) (ucast (drop_bit 16 w)) (ucast (drop_bit 8 w)) (ucast w) = w"
  unfolding u32_from_be_def u16_from_be_def by (rule bit_word_eqI) (auto simp: bit_simps)

lemma u16_to_from_be [simp]: "u16_to_be (u16_from_be a b) = [a, b]"
  unfolding u16_from_be_def u16_to_be_def by (auto intro!: bit_word_eqI simp: bit_simps)

lemma u32_to_from_be [simp]: "u32_to_be (u32_from_be a b c d) = [a, b, c, d]"
  unfolding u32_from_be_def u16_from_be_def u32_to_be_def
  by (auto intro!: bit_word_eqI simp: bit_simps)

text \<open>Big-endian byte strings of any length; \<open>u128\<close> for IPv6 octets.\<close>

definition be_int :: "u8 list \<Rightarrow> int" where
  "be_int bs = foldl (\<lambda>a b. a * 256 + uint b) 0 bs"

fun int_be :: "nat \<Rightarrow> int \<Rightarrow> u8 list" where
  "int_be 0 n = []"
| "int_be (Suc k) n = int_be k (n div 256) @ [word_of_int n]"

definition u128_from_be :: "u8 list \<Rightarrow> u128" where
  "u128_from_be bs = word_of_int (be_int bs)"

definition u128_to_be :: "u128 \<Rightarrow> u8 list" where
  "u128_to_be w = int_be 16 (uint w)"

lemma length_int_be [simp, codec_simps]: "length (int_be k n) = k"
  by (induction k arbitrary: n) simp_all

lemma be_int_int_be: "be_int (int_be k n) = n mod 256 ^ k"
proof (induction k arbitrary: n)
  case 0
  then show ?case by (simp add: be_int_def)
next
  case (Suc k)
  have "be_int (int_be (Suc k) n) = be_int (int_be k (n div 256)) * 256 + n mod 256"
    by (simp add: be_int_def uint_word_of_int)
  also have "\<dots> = (n div 256) mod 256 ^ k * 256 + n mod 256" by (simp add: Suc.IH)
  also have "\<dots> = n mod 256 ^ Suc k"
    by (simp add: zmod_zmult2_eq mult.commute)
  finally show ?case .
qed

lemma length_u128_to_be [simp, codec_simps]: "length (u128_to_be w) = 16"
  by (simp add: u128_to_be_def)

lemma u128_from_to_be [simp]: "u128_from_be (u128_to_be w) = w"
proof -
  have "uint w < 2 ^ 128" using uint_lt2p [of w] by simp
  then have "uint w mod 256 ^ 16 = uint w" by simp
  then show ?thesis by (simp add: u128_from_be_def u128_to_be_def be_int_int_be)
qed

lemma unat_of_nat_small: "n < 2 ^ LENGTH('a) \<Longrightarrow> unat (of_nat n :: 'a::len word) = n"
  by (simp add: unsigned_of_nat take_bit_nat_eq_self)

lemma unat_ucast_up:
  "LENGTH('a) \<le> LENGTH('b) \<Longrightarrow> unat (ucast w :: 'b::len word) = unat w" for w :: "'a::len word"
proof -
  assume "LENGTH('a) \<le> LENGTH('b)"
  moreover have "unat w < 2 ^ LENGTH('a)" by (rule unsigned_less)
  ultimately have "unat w < 2 ^ LENGTH('b)"
    by (metis less_le_trans one_le_numeral power_increasing)
  then show ?thesis by (simp add: unsigned_ucast_eq take_bit_nat_eq_self)
qed

lemma ucast_up_eq_iff:
  "LENGTH('a) \<le> LENGTH('b) \<Longrightarrow> (ucast v :: 'b::len word) = ucast w \<longleftrightarrow> v = w" for v w :: "'a::len word"
  by (metis unat_ucast_up word_unat_eq_iff)

lemma unat_inc_less: "unat (a + 1) = unat a + 1" if "a < b" for a b :: "'a::len word"
proof -
  have "unat a < unat b" using that by (simp add: word_less_nat_alt)
  moreover have "unat b < 2 ^ LENGTH('a)" by (rule unsigned_less)
  ultimately have "unat a + unat (1 :: 'a word) < 2 ^ LENGTH('a)" unfolding unsigned_1 by linarith
  then have "unat (a + 1) = unat a + unat (1 :: 'a word)" by (simp only: unat_add_lem)
  then show ?thesis by simp
qed

section \<open>Saturating and checked arithmetic\<close>

definition sat_add :: "'a::len word \<Rightarrow> 'a word \<Rightarrow> 'a word" where
  "sat_add a b = (if unat a + unat b < 2 ^ LENGTH('a) then a + b else - 1)"

definition sat_sub :: "'a::len word \<Rightarrow> 'a word \<Rightarrow> 'a word" where
  "sat_sub a b = (if b \<le> a then a - b else 0)"

lemma unat_sat_add: "unat (sat_add a b) = min (unat a + unat b) (2 ^ LENGTH('a) - 1)"
  for a b :: "'a::len word"
proof (cases "unat a + unat b < 2 ^ LENGTH('a)")
  case True
  then have "unat (a + b) = unat a + unat b" by (simp add: unat_add_lem)
  with True show ?thesis by (simp add: sat_add_def)
next
  case False
  then show ?thesis by (simp add: sat_add_def unsigned_minus_1_eq_mask mask_eq_exp_minus_1)
qed

lemma unat_sat_sub: "unat (sat_sub a b) = unat a - unat b"
  for a b :: "'a::len word"
  by (auto simp: sat_sub_def unat_sub word_le_nat_alt)

lemma length_filter_imp:
  "(\<And>x. x \<in> set xs \<Longrightarrow> P x \<Longrightarrow> Q x) \<Longrightarrow> length (filter P xs) \<le> length (filter Q xs)"
  by (induction xs) (auto simp: le_SucI)

lemma find_SomeD: "find P xs = Some x \<Longrightarrow> P x \<and> x \<in> set xs"
  by (auto simp: find_Some_iff)

section \<open>Components that keep an invariant\<close>

text \<open>
  A component is a step function (one value of type \<open>'op\<close> per call of one of its operations) and
  an invariant. Whatever the sequence of calls, the invariant holds after it.
\<close>

locale invariant_machine =
  fixes step :: "'s \<Rightarrow> 'op \<Rightarrow> 's"
    and inv :: "'s \<Rightarrow> bool"
  assumes step_inv: "inv s \<Longrightarrow> inv (step s op)"
begin

lemma run_inv: "inv s \<Longrightarrow> inv (foldl step s ops)"
  by (induction ops arbitrary: s) (auto intro: step_inv)

end

text \<open>
  An abstract specification is a relation between abstract states per operation. A component refines
  it when, from a state that satisfies the invariant, every step is a step of the specification seen
  through the abstraction function; then every run is a run of the specification.
\<close>

inductive spec_run :: "('a \<Rightarrow> 'op \<Rightarrow> 'a \<Rightarrow> bool) \<Rightarrow> 'a \<Rightarrow> 'op list \<Rightarrow> 'a \<Rightarrow> bool"
  for spec where
  spec_run_Nil: "spec_run spec a [] a"
| spec_run_Cons: "spec a op b \<Longrightarrow> spec_run spec b ops c \<Longrightarrow> spec_run spec a (op # ops) c"

inductive_simps spec_run_simps [simp]: "spec_run spec a [] b" "spec_run spec a (op # ops) b"

locale refinement_machine = invariant_machine step inv
  for step :: "'s \<Rightarrow> 'op \<Rightarrow> 's" and inv :: "'s \<Rightarrow> bool" +
  fixes abs :: "'s \<Rightarrow> 'a"
    and spec :: "'a \<Rightarrow> 'op \<Rightarrow> 'a \<Rightarrow> bool"
  assumes step_refines: "inv s \<Longrightarrow> spec (abs s) op (abs (step s op))"
begin

lemma run_refines: "inv s \<Longrightarrow> spec_run spec (abs s) ops (abs (foldl step s ops))"
  by (induction ops arbitrary: s) (auto intro: step_inv step_refines)

end

text \<open>
  A simulation: as long as the operations satisfy \<open>ok\<close>, a relation between the states of a component and
  of its specification is kept by every step.
\<close>

locale simulation =
  fixes step :: "'s \<Rightarrow> 'op \<Rightarrow> 's"
    and sstep :: "'a \<Rightarrow> 'op \<Rightarrow> 'a"
    and rel :: "'s \<Rightarrow> 'a \<Rightarrow> bool"
    and ok :: "'op \<Rightarrow> bool"
  assumes step_rel: "rel s a \<Longrightarrow> ok op \<Longrightarrow> rel (step s op) (sstep a op)"
begin

lemma run_rel: "rel s a \<Longrightarrow> \<forall>op \<in> set ops. ok op \<Longrightarrow> rel (foldl step s ops) (foldl sstep a ops)"
  by (induction ops arbitrary: s a) (auto intro: step_rel)

end

section \<open>Rule lists: the first match decides\<close>

text \<open>
  An evaluator walks a rule list. Each rule either matches (with a verdict), does not match, or
  fails with an error that aborts the walk; without a match the answer is the default.
\<close>

locale first_match =
  fixes check :: "'rule \<Rightarrow> 'e + bool"
    and walk :: "nat \<Rightarrow> 'rule list \<Rightarrow> 'e + (nat \<times> 'rule) option"
  assumes walk_Nil: "walk i [] = Inr None"
    and walk_Cons: "walk i (r # rs) =
      rbind (check r) (\<lambda>m. if m then Inr (Some (i, r)) else walk (Suc i) rs)"
begin

lemma walk_Some_iff:
  "walk i rs = Inr (Some (j, r)) \<longleftrightarrow>
     (\<exists>k < length rs. j = i + k \<and> r = rs ! k \<and> check r = Inr True \<and>
       (\<forall>k' < k. check (rs ! k') = Inr False))"
proof (induction rs arbitrary: i)
  case Nil
  then show ?case by (simp add: walk_Nil)
next
  case (Cons x xs)
  have "walk i (x # xs) = Inr (Some (j, r)) \<longleftrightarrow>
      check x = Inr True \<and> j = i \<and> r = x \<or> check x = Inr False \<and> walk (Suc i) xs = Inr (Some (j, r))"
    by (auto simp: walk_Cons rbind_eq_Inr)
  then show ?case by (auto simp: Cons.IH Ex_less_Suc2 All_less_Suc2)
qed

lemma walk_None_iff: "walk i rs = Inr None \<longleftrightarrow> (\<forall>r \<in> set rs. check r = Inr False)"
  by (induction rs arbitrary: i) (auto simp: walk_Nil walk_Cons rbind_eq_Inr)

lemma walk_append_hit:
  assumes "walk i rs = Inr (Some m)"
  shows "walk i (rs @ rs') = Inr (Some m)"
proof -
  obtain k where k: "k < length rs" "m = (i + k, rs ! k)" "check (rs ! k) = Inr True"
      "\<forall>k' < k. check (rs ! k') = Inr False"
    using assms by (cases m) (auto simp: walk_Some_iff)
  then have "walk i (rs @ rs') = Inr (Some (i + k, rs ! k))"
    by (auto simp: walk_Some_iff nth_append intro!: exI [of _ k])
  with k(2) show ?thesis by simp
qed

lemma walk_append_miss: "walk i rs = Inr None \<Longrightarrow> walk i (rs @ rs') = walk (i + length rs) rs'"
  by (induction rs arbitrary: i) (auto simp: walk_Nil walk_Cons rbind_eq_Inr)

lemma walk_Inl_iff:
  "walk i rs = Inl e \<longleftrightarrow>
     (\<exists>k < length rs. check (rs ! k) = Inl e \<and> (\<forall>k' < k. check (rs ! k') = Inr False))"
proof (induction rs arbitrary: i)
  case Nil
  then show ?case by (simp add: walk_Nil)
next
  case (Cons x xs)
  have "walk i (x # xs) = Inl e \<longleftrightarrow> check x = Inl e \<or> check x = Inr False \<and> walk (Suc i) xs = Inl e"
    by (auto simp: walk_Cons rbind_eq_Inl split: if_splits)
  then show ?case by (auto simp: Cons.IH Ex_less_Suc2 All_less_Suc2)
qed

end

end
