(* ===== verification/Rust_Std.thy ===== *)
theory Rust_Std
  imports Prelude "HOL-Library.Sublist" "HOL-Library.AList"
begin

text \<open>
  The parts of Rust's standard library the modelled crates call.

  A \<open>str\<close> is a list of its \<open>char\<close>s, restricted to the code points U+0000 to U+00FF (the range of
  Isabelle's \<open>char\<close>); on this range \<open>is_whitespace\<close> and \<open>is_control\<close> are the Unicode predicates.
  \<open>parse::<u8>\<close> and its siblings accept an optional plus sign and at least one digit and fail on
  overflow. The textual IP addresses follow \<open>core::net::parser\<close>: four decimal octets without
  leading zeros, or up to eight hexadecimal groups with one \<open>::\<close> and an optional trailing IPv4 part.

  A \<open>HashMap\<close> is an association list without duplicate keys, whose order stands for the
  (unspecified) iteration order; \<open>map_store\<close> is the interface its clients rely on.
\<close>

section \<open>Strings\<close>

definition is_whitespace :: "char \<Rightarrow> bool" where
  "is_whitespace c = (let n = of_char c :: nat in (9 \<le> n \<and> n \<le> 13) \<or> n = 32 \<or> n = 133 \<or> n = 160)"

definition is_control :: "char \<Rightarrow> bool" where
  "is_control c = (let n = of_char c :: nat in n < 32 \<or> (127 \<le> n \<and> n < 160))"

definition is_ascii_digit :: "char \<Rightarrow> bool" where
  "is_ascii_digit c = (let n = of_char c :: nat in 48 \<le> n \<and> n \<le> 57)"

definition is_ascii_alphanumeric :: "char \<Rightarrow> bool" where
  "is_ascii_alphanumeric c = (let n = of_char c :: nat in
     (48 \<le> n \<and> n \<le> 57) \<or> (65 \<le> n \<and> n \<le> 90) \<or> (97 \<le> n \<and> n \<le> 122))"

definition ascii_lower :: "char \<Rightarrow> char" where
  "ascii_lower c = (let n = of_char c :: nat in if 65 \<le> n \<and> n \<le> 90 then char_of (n + 32) else c)"

definition to_ascii_lowercase :: "string \<Rightarrow> string" where
  "to_ascii_lowercase s = map ascii_lower s"

definition eq_ignore_ascii_case :: "string \<Rightarrow> string \<Rightarrow> bool" where
  "eq_ignore_ascii_case a b = (to_ascii_lowercase a = to_ascii_lowercase b)"

definition trim_start_matches :: "(char \<Rightarrow> bool) \<Rightarrow> string \<Rightarrow> string" where
  "trim_start_matches p s = dropWhile p s"

definition trim_end_matches :: "(char \<Rightarrow> bool) \<Rightarrow> string \<Rightarrow> string" where
  "trim_end_matches p s = rev (dropWhile p (rev s))"

definition trim :: "string \<Rightarrow> string" where
  "trim s = trim_end_matches is_whitespace (trim_start_matches is_whitespace s)"

definition starts_with :: "string \<Rightarrow> string \<Rightarrow> bool" where
  "starts_with p s = prefix p s"

definition ends_with :: "string \<Rightarrow> string \<Rightarrow> bool" where
  "ends_with p s = suffix p s"

definition strip_prefix :: "string \<Rightarrow> string \<Rightarrow> string option" where
  "strip_prefix p s = (if prefix p s then Some (drop (length p) s) else None)"

definition strip_suffix :: "string \<Rightarrow> string \<Rightarrow> string option" where
  "strip_suffix p s = (if suffix p s then Some (take (length s - length p) s) else None)"

fun find_char :: "char \<Rightarrow> string \<Rightarrow> nat option" where
  "find_char c [] = None"
| "find_char c (x # xs) = (if x = c then Some 0 else map_option Suc (find_char c xs))"

fun rfind_char :: "char \<Rightarrow> string \<Rightarrow> nat option" where
  "rfind_char c [] = None"
| "rfind_char c (x # xs) =
     (case rfind_char c xs of
        Some i \<Rightarrow> Some (Suc i)
      | None \<Rightarrow> if x = c then Some 0 else None)"

definition split_once :: "char \<Rightarrow> string \<Rightarrow> (string \<times> string) option" where
  "split_once c s = map_option (\<lambda>i. (take i s, drop (Suc i) s)) (find_char c s)"

definition rsplit_once :: "char \<Rightarrow> string \<Rightarrow> (string \<times> string) option" where
  "rsplit_once c s = map_option (\<lambda>i. (take i s, drop (Suc i) s)) (rfind_char c s)"

fun split_on :: "char \<Rightarrow> string \<Rightarrow> string list" where
  "split_on c [] = [[]]"
| "split_on c (x # xs) =
     (if x = c then [] # split_on c xs
      else (case split_on c xs of [] \<Rightarrow> [[x]] | p # ps \<Rightarrow> (x # p) # ps))"

lemma find_char_None: "find_char c s = None \<longleftrightarrow> c \<notin> set s"
  by (induction s) auto

lemma rfind_char_None: "rfind_char c s = None \<longleftrightarrow> c \<notin> set s"
  by (induction s) (auto split: option.splits)

lemma rfind_char_append: "c \<notin> set ys \<Longrightarrow> rfind_char c (xs @ c # ys) = Some (length xs)"
  by (induction xs) (auto simp: rfind_char_None [THEN iffD2])

lemma find_char_append: "c \<notin> set xs \<Longrightarrow> find_char c (xs @ c # ys) = Some (length xs)"
  by (induction xs) auto

lemma split_once_append: "c \<notin> set xs \<Longrightarrow> split_once c (xs @ c # ys) = Some (xs, ys)"
  by (simp add: split_once_def find_char_append)

lemma split_once_None: "split_once c s = None \<longleftrightarrow> c \<notin> set s"
  by (simp add: split_once_def find_char_None)

lemma rsplit_once_append: "c \<notin> set ys \<Longrightarrow> rsplit_once c (xs @ c # ys) = Some (xs, ys)"
  by (simp add: rsplit_once_def rfind_char_append)

lemma rsplit_once_None: "rsplit_once c s = None \<longleftrightarrow> c \<notin> set s"
  by (simp add: rsplit_once_def rfind_char_None)

lemma split_on_ne [simp]: "split_on c s \<noteq> []"
  by (induction s) (auto split: list.splits)

lemma split_on_none: "c \<notin> set s \<Longrightarrow> split_on c s = [s]"
  by (induction s) auto

lemma split_on_append: "c \<notin> set p \<Longrightarrow> split_on c (p @ c # s) = p # split_on c s"
  by (induction p) auto

lemma trim_id:
  assumes "s \<noteq> [] \<Longrightarrow> \<not> is_whitespace (hd s)" "s \<noteq> [] \<Longrightarrow> \<not> is_whitespace (last s)"
  shows "trim s = s"
proof (cases s)
  case Nil
  then show ?thesis by (simp add: trim_def trim_start_matches_def trim_end_matches_def)
next
  case (Cons c cs)
  with assms(1) have a: "trim_start_matches is_whitespace s = s"
    by (simp add: trim_start_matches_def)
  have "rev s \<noteq> []" and "hd (rev s) = last s" using Cons by (auto simp: hd_rev)
  with assms(2) Cons have "dropWhile is_whitespace (rev s) = rev s" by (cases "rev s") auto
  with a show ?thesis by (simp add: trim_def trim_end_matches_def)
qed

lemma strip_prefix_append [simp]: "strip_prefix p (p @ s) = Some s"
  by (simp add: strip_prefix_def)

lemma strip_suffix_append [simp]: "strip_suffix p (s @ p) = Some s"
  by (simp add: strip_suffix_def suffix_def)

section \<open>Decimal integers\<close>

definition digit_of :: "char \<Rightarrow> int" where
  "digit_of c = int (of_char c) - 48"

definition decimal_value :: "string \<Rightarrow> int" where
  "decimal_value s = foldl (\<lambda>n c. n * 10 + digit_of c) 0 s"

definition parse_uint :: "int \<Rightarrow> string \<Rightarrow> int option" where
  "parse_uint limit s =
     (let t = (case s of c # r \<Rightarrow> if c = CHR ''+'' then r else s | [] \<Rightarrow> s) in
      if t \<noteq> [] \<and> list_all is_ascii_digit t \<and> decimal_value t \<le> limit
      then Some (decimal_value t) else None)"

definition parse_u8 :: "string \<Rightarrow> u8 option" where
  "parse_u8 s = map_option of_int (parse_uint 255 s)"

definition parse_u16 :: "string \<Rightarrow> u16 option" where
  "parse_u16 s = map_option of_int (parse_uint 65535 s)"

fun show_nat :: "nat \<Rightarrow> string" where
  "show_nat n = (if n < 10 then [char_of (n + 48)]
     else show_nat (n div 10) @ [char_of (n mod 10 + 48)])"

declare show_nat.simps [simp del]

lemma decimal_value_snoc [simp]: "decimal_value (s @ [c]) = decimal_value s * 10 + digit_of c"
  by (simp add: decimal_value_def)

lemma digit_char [simp]: "n < 10 \<Longrightarrow> is_ascii_digit (char_of (n + 48))"
  "n < 10 \<Longrightarrow> digit_of (char_of (n + 48)) = int n" for n :: nat
  by (auto simp: is_ascii_digit_def digit_of_def Let_def)

lemma show_nat_ne [simp]: "show_nat n \<noteq> []"
  by (subst show_nat.simps) simp

lemma show_nat_digits: "list_all is_ascii_digit (show_nat n)"
proof (induction n rule: show_nat.induct)
  case (1 n)
  then show ?case by (subst show_nat.simps) auto
qed

lemma decimal_value_show_nat: "decimal_value (show_nat n) = int n"
proof (induction n rule: show_nat.induct)
  case (1 n)
  show ?case
  proof (cases "n < 10")
    case True
    then have "show_nat n = [] @ [char_of (n + 48)]" by (subst show_nat.simps) simp
    then have "decimal_value (show_nat n) = decimal_value [] * 10 + digit_of (char_of (n + 48))"
      by (simp only: decimal_value_snoc)
    with True show ?thesis by (simp add: decimal_value_def)
  next
    case False
    then have "show_nat n = show_nat (n div 10) @ [char_of (n mod 10 + 48)]"
      by (subst show_nat.simps) simp
    then have "decimal_value (show_nat n) = decimal_value (show_nat (n div 10)) * 10 + int (n mod 10)"
      by simp
    with 1 [OF False] show ?thesis by (simp add: zmod_int zdiv_int)
  qed
qed

lemma digit_not_plus: "is_ascii_digit c \<Longrightarrow> c \<noteq> CHR ''+''"
  by (auto simp: is_ascii_digit_def)

lemma parse_uint_digits:
  assumes "s \<noteq> []" "list_all is_ascii_digit s"
  shows "parse_uint limit s = (if decimal_value s \<le> limit then Some (decimal_value s) else None)"
proof (cases s)
  case Nil
  with assms show ?thesis by simp
next
  case (Cons c r)
  with assms digit_not_plus [of c] have "c \<noteq> CHR ''+''" by simp
  with Cons assms show ?thesis by (auto simp: parse_uint_def Let_def)
qed

lemma parse_uint_show_nat: "int n \<le> limit \<Longrightarrow> parse_uint limit (show_nat n) = Some (int n)"
  by (simp add: parse_uint_digits show_nat_digits decimal_value_show_nat)

lemma parse_u16_show_nat: "parse_u16 (show_nat (unat w)) = Some w"
proof -
  have "uint w < 65536" using uint_lt2p [of w] by simp
  then have "parse_uint 65535 (show_nat (unat w)) = Some (int (unat w))"
    by (intro parse_uint_show_nat) simp
  then show ?thesis by (simp add: parse_u16_def)
qed

section \<open>IP addresses\<close>

datatype ip_addr = V4 u32 | V6 u128

definition is_ipv4 :: "ip_addr \<Rightarrow> bool" where
  "is_ipv4 ip = (case ip of V4 _ \<Rightarrow> True | V6 _ \<Rightarrow> False)"

definition to_digit :: "nat \<Rightarrow> char \<Rightarrow> nat option" where
  "to_digit radix c = (let n = of_char c :: nat;
       d = (if 48 \<le> n \<and> n \<le> 57 then n - 48
            else if 97 \<le> n \<and> n \<le> 122 then n - 87
            else if 65 \<le> n \<and> n \<le> 90 then n - 55 else radix)
     in if d < radix then Some d else None)"

fun read_digits :: "nat \<Rightarrow> nat \<Rightarrow> nat \<Rightarrow> nat \<Rightarrow> nat \<Rightarrow> string \<Rightarrow> (nat \<times> nat \<times> string) option" where
  "read_digits radix max_digits limit cnt v [] = Some (cnt, v, [])"
| "read_digits radix max_digits limit cnt v (c # cs) =
     (case to_digit radix c of
        None \<Rightarrow> Some (cnt, v, c # cs)
      | Some d \<Rightarrow>
          if v * radix + d > limit then None
          else if Suc cnt > max_digits then None
          else read_digits radix max_digits limit (Suc cnt) (v * radix + d) cs)"

definition read_number :: "nat \<Rightarrow> nat \<Rightarrow> bool \<Rightarrow> nat \<Rightarrow> string \<Rightarrow> (nat \<times> string) option" where
  "read_number radix max_digits allow_zero_prefix limit s =
     (case read_digits radix max_digits limit 0 0 s of
        None \<Rightarrow> None
      | Some (cnt, v, rest) \<Rightarrow>
          if cnt = 0 then None
          else if \<not> allow_zero_prefix \<and> starts_with ''0'' s \<and> cnt > 1 then None
          else Some (v, rest))"

definition read_separator ::
    "char \<Rightarrow> nat \<Rightarrow> (string \<Rightarrow> ('a \<times> string) option) \<Rightarrow> string \<Rightarrow> ('a \<times> string) option" where
  "read_separator sep index inner s =
     (if index = 0 then inner s
      else (case s of [] \<Rightarrow> None | c # cs \<Rightarrow> if c = sep then inner cs else None))"

fun read_octets :: "nat \<Rightarrow> nat \<Rightarrow> u32 \<Rightarrow> string \<Rightarrow> (u32 \<times> string) option" where
  "read_octets 0 i acc s = Some (acc, s)"
| "read_octets (Suc k) i acc s =
     (case read_separator (CHR ''.'') i (read_number 10 3 False 255) s of
        None \<Rightarrow> None
      | Some (v, rest) \<Rightarrow> read_octets k (Suc i) (acc * 256 + of_nat v) rest)"

definition read_ipv4_addr :: "string \<Rightarrow> (u32 \<times> string) option" where
  "read_ipv4_addr s = read_octets 4 0 0 s"

fun read_groups :: "nat \<Rightarrow> nat \<Rightarrow> u16 list \<Rightarrow> string \<Rightarrow> u16 list \<times> bool \<times> string" where
  "read_groups 0 i acc s = (acc, False, s)"
| "read_groups (Suc left) i acc s =
     (case (if left > 0 then read_separator (CHR '':'') i read_ipv4_addr s else None) of
        Some (a, rest) \<Rightarrow> (acc @ [ucast (drop_bit 16 a), ucast a], True, rest)
      | None \<Rightarrow>
          (case read_separator (CHR '':'') i (read_number 16 4 True 65535) s of
             None \<Rightarrow> (acc, False, s)
           | Some (v, rest) \<Rightarrow> read_groups left (Suc i) (acc @ [of_nat v]) rest))"

definition ipv6_of_groups :: "u16 list \<Rightarrow> u128" where
  "ipv6_of_groups gs = foldl (\<lambda>a g. a * 65536 + ucast g) 0 gs"

definition read_ipv6_addr :: "string \<Rightarrow> (u128 \<times> string) option" where
  "read_ipv6_addr s =
     (case read_groups 8 0 [] s of (front, front_ipv4, rest) \<Rightarrow>
        if length front = 8 then Some (ipv6_of_groups front, rest)
        else if front_ipv4 then None
        else (case strip_prefix ''::'' rest of
                None \<Rightarrow> None
              | Some rest' \<Rightarrow>
                  (case read_groups (8 - (length front + 1)) 0 [] rest' of (tail, _, rest'') \<Rightarrow>
                     Some (ipv6_of_groups (front @ replicate (8 - length front - length tail) 0 @ tail),
                           rest''))))"

definition parse_ip_addr :: "string \<Rightarrow> ip_addr option" where
  "parse_ip_addr s =
     (case read_ipv4_addr s of
        Some (a, rest) \<Rightarrow> if rest = [] then Some (V4 a) else None
      | None \<Rightarrow>
          (case read_ipv6_addr s of
             Some (a, rest) \<Rightarrow> if rest = [] then Some (V6 a) else None
           | None \<Rightarrow> None))"

definition ipv4_to_string :: "u32 \<Rightarrow> string" where
  "ipv4_to_string a =
     show_nat (unat (drop_bit 24 a)) @ ''.'' @
     show_nat (unat (drop_bit 16 a) mod 256) @ ''.'' @
     show_nat (unat (drop_bit 8 a) mod 256) @ ''.'' @
     show_nat (unat a mod 256)"

lemma read_number_bracket: "radix \<le> 16 \<Longrightarrow> read_number radix n z limit (CHR ''['' # s) = None"
  by (simp add: read_number_def to_digit_def)

lemma read_octets_bracket: "read_octets (Suc k) 0 acc (CHR ''['' # s) = None"
  by (simp add: read_separator_def read_number_bracket)

lemma read_ipv4_addr_bracket: "read_ipv4_addr (CHR ''['' # s) = None"
  using read_octets_bracket [of 3 0 s] by (simp add: read_ipv4_addr_def)

lemma read_groups_bracket: "read_groups k 0 acc (CHR ''['' # s) = (acc, False, CHR ''['' # s)"
  by (cases k) (simp_all add: read_separator_def read_ipv4_addr_bracket read_number_bracket)

lemma parse_ip_addr_bracket: "parse_ip_addr (CHR ''['' # s) = None"
  by (simp add: parse_ip_addr_def read_ipv4_addr_bracket read_ipv6_addr_def read_groups_bracket
      strip_prefix_def)

section \<open>Hash maps\<close>

type_synonym ('k, 'v) hash_map = "('k \<times> 'v) list"

definition hm_get :: "('k, 'v) hash_map \<Rightarrow> 'k \<Rightarrow> 'v option" where
  "hm_get m k = map_of m k"

definition hm_insert :: "'k \<Rightarrow> 'v \<Rightarrow> ('k, 'v) hash_map \<Rightarrow> ('k, 'v) hash_map" where
  "hm_insert k v m = AList.update k v m"

definition hm_remove :: "'k \<Rightarrow> ('k, 'v) hash_map \<Rightarrow> ('k, 'v) hash_map" where
  "hm_remove k m = filter (\<lambda>e. fst e \<noteq> k) m"

definition hm_keys :: "('k, 'v) hash_map \<Rightarrow> 'k list" where
  "hm_keys m = map fst m"

definition hm_values :: "('k, 'v) hash_map \<Rightarrow> 'v list" where
  "hm_values m = map snd m"

definition hm_contains :: "('k, 'v) hash_map \<Rightarrow> 'k \<Rightarrow> bool" where
  "hm_contains m k = (hm_get m k \<noteq> None)"

definition hm_wf :: "('k, 'v) hash_map \<Rightarrow> bool" where
  "hm_wf m = distinct (map fst m)"

locale map_store =
  fixes get :: "'m \<Rightarrow> 'k \<Rightarrow> 'v option"
    and insert :: "'k \<Rightarrow> 'v \<Rightarrow> 'm \<Rightarrow> 'm"
    and remove :: "'k \<Rightarrow> 'm \<Rightarrow> 'm"
    and wf :: "'m \<Rightarrow> bool"
  assumes get_insert: "get (insert k v m) k' = (if k' = k then Some v else get m k')"
    and get_remove: "get (remove k m) k' = (if k' = k then None else get m k')"
    and wf_insert: "wf m \<Longrightarrow> wf (insert k v m)"
    and wf_remove: "wf m \<Longrightarrow> wf (remove k m)"
begin

lemma get_insert_fun: "get (insert k v m) = (get m)(k \<mapsto> v)"
  by (auto simp: fun_eq_iff get_insert)

lemma get_remove_fun: "get (remove k m) = (get m)(k := None)"
  by (auto simp: fun_eq_iff get_remove)

lemma insert_then_remove: "get (remove k (insert k v m)) = get (remove k m)"
  by (auto simp: fun_eq_iff get_insert get_remove)

lemma insert_commute: "k \<noteq> k' \<Longrightarrow> get (insert k v (insert k' v' m)) = get (insert k' v' (insert k v m))"
  by (auto simp: fun_eq_iff get_insert)

end

lemma map_of_filter_key: "map_of (filter (\<lambda>e. fst e \<noteq> k) m) k' = (if k' = k then None else map_of m k')"
  by (induction m) auto

interpretation hm: map_store hm_get hm_insert hm_remove hm_wf
proof unfold_locales
  fix m :: "('k, 'v) hash_map" and k k' :: 'k and v :: 'v
  show "hm_get (hm_insert k v m) k' = (if k' = k then Some v else hm_get m k')"
    by (simp add: hm_get_def hm_insert_def update_conv)
  show "hm_get (hm_remove k m) k' = (if k' = k then None else hm_get m k')"
    by (simp add: hm_get_def hm_remove_def map_of_filter_key)
  show "hm_wf m \<Longrightarrow> hm_wf (hm_insert k v m)"
    by (simp add: hm_wf_def hm_insert_def distinct_update)
  show "hm_wf m \<Longrightarrow> hm_wf (hm_remove k m)"
    by (simp add: hm_wf_def hm_remove_def distinct_map_filter)
qed

lemmas hm_simps = hm.get_insert hm.get_remove

lemma hm_get_Some_mem: "hm_get m k = Some v \<Longrightarrow> (k, v) \<in> set m"
  by (simp add: hm_get_def map_of_SomeD)

lemma hm_get_mem: "hm_wf m \<Longrightarrow> hm_get m k = Some v \<longleftrightarrow> (k, v) \<in> set m"
  by (simp add: hm_wf_def hm_get_def)

lemma hm_keys_get: "k \<in> set (hm_keys m) \<longleftrightarrow> hm_get m k \<noteq> None"
  by (simp add: hm_keys_def hm_get_def map_of_eq_None_iff)

lemma hm_get_Nil [simp]: "hm_get [] k = None"
  by (simp add: hm_get_def)

lemma hm_wf_Nil [simp]: "hm_wf []"
  by (simp add: hm_wf_def)

lemma length_hm_insert:
  "length (hm_insert k v m) = (if hm_get m k = None then Suc (length m) else length m)"
  by (induction m) (auto simp: hm_insert_def hm_get_def)

lemma length_hm_remove:
  assumes "hm_wf m" "hm_get m k \<noteq> None"
  shows "Suc (length (hm_remove k m)) = length m"
  using assms
proof (induction m)
  case Nil
  then show ?case by simp
next
  case (Cons e m)
  then have "fst e = k \<Longrightarrow> hm_remove k m = m"
    by (auto simp: hm_remove_def hm_wf_def filter_id_conv rev_image_eqI)
  moreover have "fst e \<noteq> k \<Longrightarrow> hm_get m k \<noteq> None" "hm_wf m"
    using Cons.prems by (auto simp: hm_get_def hm_wf_def)
  ultimately show ?case
    using Cons.IH by (auto simp: hm_remove_def)
qed

lemma set_hm_insert: "set (hm_insert k v m) \<subseteq> insert (k, v) (set m)"
  by (induction m) (auto simp: hm_insert_def)

definition hm_retain :: "('k \<Rightarrow> 'v \<Rightarrow> bool) \<Rightarrow> ('k, 'v) hash_map \<Rightarrow> ('k, 'v) hash_map" where
  "hm_retain P m = filter (\<lambda>(k, v). P k v) m"

lemma hm_retain_Nil [simp]: "hm_retain P [] = []"
  by (simp add: hm_retain_def)

lemma hm_wf_retain: "hm_wf m \<Longrightarrow> hm_wf (hm_retain P m)"
  by (simp add: hm_wf_def hm_retain_def distinct_map_filter)

lemma hm_get_retain:
  assumes "hm_wf m"
  shows "hm_get (hm_retain P m) k = Some v \<longleftrightarrow> hm_get m k = Some v \<and> P k v"
  using hm_wf_retain [OF assms, of P] assms by (auto simp: hm_get_mem hm_retain_def)

section \<open>Paths\<close>

text \<open>\<open>Path::components\<close> on a Unix host; two paths are equal when their components are.\<close>

datatype component = RootDir | CurDir | ParentDir | Normal string

definition components :: "string \<Rightarrow> component list" where
  "components s =
     (let parts = split_on (CHR ''/'') s in
      (if starts_with ''/'' s then [RootDir] else if hd parts = ''.'' then [CurDir] else []) @
      map (\<lambda>p. if p = ''..'' then ParentDir else Normal p) (filter (\<lambda>p. p \<noteq> [] \<and> p \<noteq> ''.'') parts))"

fun contains_str :: "string \<Rightarrow> string \<Rightarrow> bool" where
  "contains_str p [] = (p = [])"
| "contains_str p (c # cs) = (prefix p (c # cs) \<or> contains_str p cs)"

definition as_bytes :: "string \<Rightarrow> u8 list" where
  "as_bytes s = map (\<lambda>c. word_of_nat (of_char c)) s"

lemma word_of_nat_inj_small:
  "a < 2 ^ LENGTH('a) \<Longrightarrow> b < 2 ^ LENGTH('a) \<Longrightarrow> (of_nat a :: 'a::len word) = of_nat b \<longleftrightarrow> a = b"
  using unat_of_nat_small [where 'a = 'a] by metis

lemma as_bytes_inj [simp]: "as_bytes a = as_bytes b \<longleftrightarrow> a = b"
proof -
  have "(word_of_nat (of_char x) :: u8) = word_of_nat (of_char y) \<longleftrightarrow> x = y" for x y
  proof -
    have "(of_char z :: nat) < 256" for z :: char by simp
    then show ?thesis using word_of_nat_inj_small [where 'a = 8, of "of_char x" "of_char y"] by simp
  qed
  then show ?thesis
    unfolding as_bytes_def by (intro iffI) (auto simp: inj_map_eq_map inj_def)
qed

lemma length_as_bytes [simp]: "length (as_bytes s) = length s"
  by (simp add: as_bytes_def)

text \<open>
  \<open>str::lines\<close>: a line ends with a line feed, before which a carriage return is dropped; the text after the last
  line feed is a line if it is not empty. \<open>str::split_whitespace\<close> gives the words. \<open>str::replace\<close> goes from left to right.
\<close>

definition lines :: "string \<Rightarrow> string list" where
  "lines s =
     (let ls = split_on (CHR 0x0A) s;
          strip = (\<lambda>l. case strip_suffix [CHR 0x0D] l of Some l \<Rightarrow> l | None \<Rightarrow> l)
      in map strip (butlast ls) @ (if last ls = [] then [] else [last ls]))"

fun split_whitespace_acc :: "string \<Rightarrow> string \<Rightarrow> string list" where
  "split_whitespace_acc w [] = (if w = [] then [] else [w])"
| "split_whitespace_acc w (c # s) =
     (if is_whitespace c then (if w = [] then [] else [w]) @ split_whitespace_acc [] s
      else split_whitespace_acc (w @ [c]) s)"

definition split_whitespace :: "string \<Rightarrow> string list" where
  "split_whitespace s = split_whitespace_acc [] s"

fun str_replace :: "string \<Rightarrow> string \<Rightarrow> string \<Rightarrow> string" where
  "str_replace pat to [] = []"
| "str_replace pat to (c # s) =
     (if pat \<noteq> [] \<and> starts_with pat (c # s) then to @ str_replace pat to (drop (length pat) (c # s))
      else c # str_replace pat to s)"

definition show_int :: "int \<Rightarrow> string" where
  "show_int k = (if k < 0 then CHR ''-'' # show_nat (nat (- k)) else show_nat (nat k))"

definition show_bool :: "bool \<Rightarrow> string" where
  "show_bool b = (if b then ''true'' else ''false'')"

fun join_with :: "string \<Rightarrow> string list \<Rightarrow> string" where
  "join_with sep [] = []"
| "join_with sep [x] = x"
| "join_with sep (x # xs) = x @ sep @ join_with sep xs"

text \<open>The lower-case hexadecimal digits of a byte, as the format \<open>{:02x}\<close> prints it.\<close>

definition hex_digit :: "nat \<Rightarrow> char" where
  "hex_digit n = (if n < 10 then char_of (48 + n) else char_of (87 + n))"

definition hex_u8 :: "u8 \<Rightarrow> string" where
  "hex_u8 b = [hex_digit (unat b div 16), hex_digit (unat b mod 16)]"

lemma length_hex_u8 [simp]: "length (hex_u8 b) = 2"
  by (simp add: hex_u8_def)

lemma of_char_hex_digit: "n < 16 \<Longrightarrow> of_char (hex_digit n) = (if n < 10 then 48 + n else 87 + n)"
  by (simp add: hex_digit_def)

lemma hex_digit_inj: "m < 16 \<Longrightarrow> n < 16 \<Longrightarrow> hex_digit m = hex_digit n \<longleftrightarrow> m = n"
  by (auto simp: of_char_hex_digit dest!: arg_cong [where f = "of_char :: char \<Rightarrow> nat"] split: if_splits)

lemma hex_u8_inj: "hex_u8 a = hex_u8 b \<longleftrightarrow> a = b"
proof
  assume h: "hex_u8 a = hex_u8 b"
  have lt: "unat w div 16 < 16" for w :: u8
  proof -
    have "unat w < 256" using unsigned_less [of w, where 'a = nat] by simp
    then show ?thesis by linarith
  qed
  have "unat a div 16 = unat b div 16" "unat a mod 16 = unat b mod 16"
    using h lt by (simp_all add: hex_u8_def hex_digit_inj)
  then have "unat a = unat b" by (metis div_mult_mod_eq)
  then show "a = b" by (simp add: word_unat_eq_iff)
qed simp

text \<open>The extension of a file name: what follows the last dot, unless that is the first character.\<close>

definition name_extension :: "string \<Rightarrow> string option" where
  "name_extension s =
     (case rfind_char (CHR ''.'') s of Some (Suc i) \<Rightarrow> Some (drop (Suc i + 1) s) | _ \<Rightarrow> None)"

lemma split_on_no_sep: "l \<in> set (split_on c s) \<Longrightarrow> c \<notin> set l"
  by (induction s arbitrary: l) (auto split: list.splits if_splits)

end
