(* ===== verification/Acl_Hujson.thy ===== *)
theory Acl_Hujson
  imports Rust_Std
begin

text \<open>
  The HuJSON preprocessor (\<open>crates/runesh-acl/src/hujson.rs\<close>): comments and trailing commas are
  removed in one pass over the characters, with a comma held back until the next significant
  character is known.

  \<open>hj_step\<close> is one iteration of the character loop: it sees the current character and the peeked
  one and says whether the peeked character was consumed as well. \<open>to_json\<close> runs the loop, flushes
  the held comma and turns the final tokenizer state into the result.

  Shown here: input without comments and trailing commas passes unchanged, line and block comments
  between two complete pieces disappear, and the output contains no comment outside a string.
\<close>

section \<open>Errors of the ACL crate\<close>

datatype acl_error =
    InvalidHuJson string
  | InvalidPolicy string
  | UnknownGroup string
  | UnknownHost string
  | InvalidPortRange string
  | InvalidCidr string
  | CircularGroup string
  | Json string
  | UnsupportedTargetInPosition string

section \<open>The tokenizer\<close>

datatype hj_mode =
    Normal
  | InString
  | InStringEscape
  | InLineComment
  | InBlockComment
  | InBlockCommentStar

record hj_state =
  mode :: hj_mode
  pending_comma :: "string option"
  out :: string

definition hj_init :: hj_state where
  "hj_init = \<lparr>mode = Normal, pending_comma = None, out = []\<rparr>"

text \<open>The tail of the \<open>Normal\<close> arm, reached once no comma is pending any more.\<close>

definition hj_plain :: "hj_state \<Rightarrow> char \<Rightarrow> char option \<Rightarrow> hj_state \<times> bool" where
  "hj_plain s c peek =
     (if c = CHR 0x22 then (s\<lparr>out := out s @ [c], mode := InString\<rparr>, False)
      else if c = CHR ''/'' then
        (if peek = Some (CHR ''/'') then (s\<lparr>mode := InLineComment\<rparr>, True)
         else if peek = Some (CHR ''*'') then (s\<lparr>mode := InBlockComment\<rparr>, True)
         else (s\<lparr>out := out s @ [c]\<rparr>, False))
      else if c = CHR '','' then (s\<lparr>pending_comma := Some '',''\<rparr>, False)
      else (s\<lparr>out := out s @ [c]\<rparr>, False))"

definition hj_normal :: "hj_state \<Rightarrow> char \<Rightarrow> char option \<Rightarrow> hj_state \<times> bool" where
  "hj_normal s c peek =
     (case pending_comma s of
        None \<Rightarrow> hj_plain s c peek
      | Some buf \<Rightarrow>
          if is_whitespace c then (s\<lparr>pending_comma := Some (buf @ [c])\<rparr>, False)
          else if c = CHR ''/'' \<and> peek = Some (CHR ''/'') then (s\<lparr>mode := InLineComment\<rparr>, True)
          else if c = CHR ''/'' \<and> peek = Some (CHR ''*'') then (s\<lparr>mode := InBlockComment\<rparr>, True)
          else if c = CHR '']'' \<or> c = CHR ''}'' then
            (s\<lparr>out := out s @ drop 1 buf @ [c], pending_comma := None\<rparr>, False)
          else hj_plain (s\<lparr>out := out s @ buf, pending_comma := None\<rparr>) c peek)"

definition hj_step :: "hj_state \<Rightarrow> char \<Rightarrow> char option \<Rightarrow> hj_state \<times> bool" where
  "hj_step s c peek =
     (case mode s of
        Normal \<Rightarrow> hj_normal s c peek
      | InString \<Rightarrow>
          (s\<lparr>out := out s @ [c],
             mode := (if c = CHR 0x5C then InStringEscape
                      else if c = CHR 0x22 then Normal else InString)\<rparr>, False)
      | InStringEscape \<Rightarrow> (s\<lparr>out := out s @ [c], mode := InString\<rparr>, False)
      | InLineComment \<Rightarrow>
          (if c = CHR 0x0A then s\<lparr>out := out s @ [c], mode := Normal\<rparr> else s, False)
      | InBlockComment \<Rightarrow>
          (if c = CHR ''*'' then s\<lparr>mode := InBlockCommentStar\<rparr>
           else if c = CHR 0x0A then s\<lparr>out := out s @ [c]\<rparr> else s, False)
      | InBlockCommentStar \<Rightarrow>
          (if c = CHR ''/'' then s\<lparr>mode := Normal\<rparr>
           else if c = CHR ''*'' then s
           else if c = CHR 0x0A then s\<lparr>out := out s @ [c], mode := InBlockComment\<rparr>
           else s\<lparr>mode := InBlockComment\<rparr>, False))"

definition peek_char :: "string \<Rightarrow> char option" where
  "peek_char cs = (case cs of [] \<Rightarrow> None | c # _ \<Rightarrow> Some c)"

fun hj_loop :: "hj_state \<Rightarrow> string \<Rightarrow> hj_state" where
  "hj_loop s [] = s"
| "hj_loop s (c # cs) =
     (case hj_step s c (peek_char cs) of (s', skip) \<Rightarrow> hj_loop s' (if skip then tl cs else cs))"

definition hj_finish :: "hj_state \<Rightarrow> acl_error + string" where
  "hj_finish s =
     (let result = out s @ (case pending_comma s of None \<Rightarrow> [] | Some buf \<Rightarrow> buf) in
      case mode s of
        Normal \<Rightarrow> Inr result
      | InString \<Rightarrow> Inl (InvalidHuJson ''unterminated string'')
      | InStringEscape \<Rightarrow> Inl (InvalidHuJson ''unterminated string'')
      | InBlockComment \<Rightarrow> Inl (InvalidHuJson ''unterminated block comment'')
      | InBlockCommentStar \<Rightarrow> Inl (InvalidHuJson ''unterminated block comment'')
      | InLineComment \<Rightarrow> Inr result)"

definition to_json :: "string \<Rightarrow> acl_error + string" where
  "to_json input = hj_finish (hj_loop hj_init input)"

definition hujson_parse :: "(string \<Rightarrow> string + 'v) \<Rightarrow> string \<Rightarrow> acl_error + 'v" where
  "hujson_parse serde_from_str input =
     rbind (to_json input) (\<lambda>json.
       case serde_from_str json of Inl e \<Rightarrow> Inl (InvalidHuJson e) | Inr v \<Rightarrow> Inr v)"

section \<open>Strict JSON text\<close>

text \<open>
  The first significant character after a comma, and the texts with no slash outside strings, no
  comma in front of a closing bracket and every string closed.
\<close>

definition next_significant :: "string \<Rightarrow> char option" where
  "next_significant cs = peek_char (dropWhile is_whitespace cs)"

fun strict_json :: "bool \<Rightarrow> string \<Rightarrow> bool" where
  "strict_json in_str [] = (\<not> in_str)"
| "strict_json True (c # cs) =
     (if c = CHR 0x5C then (case cs of [] \<Rightarrow> False | _ # cs' \<Rightarrow> strict_json True cs')
      else strict_json (c \<noteq> CHR 0x22) cs)"
| "strict_json False (c # cs) =
     (if c = CHR 0x22 then strict_json True cs
      else c \<noteq> CHR ''/'' \<and>
        (c = CHR '','' \<longrightarrow> next_significant cs \<noteq> Some (CHR '']'') \<and>
           next_significant cs \<noteq> Some (CHR ''}'')) \<and>
        strict_json False cs)"

text \<open>
  A scanner for the output: a comment opener outside a string leads to the sink \<open>Bad\<close>.
\<close>

datatype scan = Plain | Slash | Str | Esc | Bad

fun scan_step :: "scan \<Rightarrow> char \<Rightarrow> scan" where
  "scan_step Plain c = (if c = CHR 0x22 then Str else if c = CHR ''/'' then Slash else Plain)"
| "scan_step Slash c = (if c = CHR ''/'' \<or> c = CHR ''*'' then Bad
     else if c = CHR 0x22 then Str else Plain)"
| "scan_step Str c = (if c = CHR 0x5C then Esc else if c = CHR 0x22 then Plain else Str)"
| "scan_step Esc c = Str"
| "scan_step Bad c = Bad"

definition comment_free :: "string \<Rightarrow> bool" where
  "comment_free t = (foldl scan_step Plain t \<in> {Plain, Slash})"

section \<open>Strict text passes unchanged\<close>

lemmas hj_defs = hj_step_def hj_normal_def hj_plain_def

lemma peek_char_simps [simp]: "peek_char [] = None" "peek_char (c # cs) = Some c"
  by (simp_all add: peek_char_def)

lemma next_significant_Cons [simp]:
  "next_significant (c # cs) = (if is_whitespace c then next_significant cs else Some c)"
  by (simp add: next_significant_def)

lemma whitespace_not_special:
  "is_whitespace c \<Longrightarrow> c \<noteq> CHR 0x22 \<and> c \<noteq> CHR ''/'' \<and> c \<noteq> CHR '',''"
  by (auto simp: is_whitespace_def)

definition pending_text :: "hj_state \<Rightarrow> string" where
  "pending_text s = (case pending_comma s of None \<Rightarrow> [] | Some buf \<Rightarrow> buf)"

text \<open>
  The states the tokenizer passes through on strict text, with the text still to come.
\<close>

definition strict_state :: "hj_state \<Rightarrow> string \<Rightarrow> bool" where
  "strict_state s cs =
     (case mode s of
        Normal \<Rightarrow> strict_json False cs \<and>
          (pending_comma s \<noteq> None \<longrightarrow> next_significant cs \<noteq> Some (CHR '']'') \<and>
             next_significant cs \<noteq> Some (CHR ''}''))
      | InString \<Rightarrow> strict_json True cs \<and> pending_comma s = None
      | InStringEscape \<Rightarrow> pending_comma s = None \<and>
          (case cs of [] \<Rightarrow> False | _ # r \<Rightarrow> strict_json True r)
      | _ \<Rightarrow> False)"

lemma strict_step:
  assumes "strict_state s (c # cs)"
  shows "\<exists>s'. (\<forall>peek. hj_step s c peek = (s', False)) \<and> strict_state s' cs \<and>
    out s' @ pending_text s' = out s @ pending_text s @ [c]"
proof (cases "mode s")
  case Normal
  show ?thesis
  proof (cases "c = CHR 0x22")
    case True
    with Normal assms show ?thesis
      by (auto simp: strict_state_def hj_defs pending_text_def is_whitespace_def split: option.splits)
  next
    case False
    with Normal assms whitespace_not_special [of c] show ?thesis
      by (auto simp: strict_state_def hj_defs pending_text_def split: option.splits if_splits)
  qed
next
  case InString
  with assms show ?thesis
    by (auto simp: strict_state_def hj_defs pending_text_def split: if_splits list.splits)
next
  case InStringEscape
  with assms show ?thesis by (auto simp: strict_state_def hj_defs pending_text_def)
qed (use assms in \<open>auto simp: strict_state_def\<close>)

lemma strict_loop:
  assumes "strict_state s cs"
  shows "\<exists>s'. (\<forall>rest. hj_loop s (cs @ rest) = hj_loop s' rest) \<and> mode s' = Normal \<and>
    out s' @ pending_text s' = out s @ pending_text s @ cs"
  using assms
proof (induction cs arbitrary: s)
  case Nil
  then have "mode s = Normal" by (auto simp: strict_state_def split: hj_mode.splits)
  then show ?case by (intro exI [of _ s]) simp
next
  case (Cons c cs)
  obtain s' where s': "\<And>peek. hj_step s c peek = (s', False)" "strict_state s' cs"
      "out s' @ pending_text s' = out s @ pending_text s @ [c]"
    using strict_step [OF Cons.prems] by blast
  from Cons.IH [OF s'(2)] obtain t where "\<And>rest. hj_loop s' (cs @ rest) = hj_loop t rest"
      "mode t = Normal" "out t @ pending_text t = out s' @ pending_text s' @ cs" by blast
  with s' show ?case by (intro exI [of _ t]) simp
qed

lemma strict_prefix:
  assumes "strict_json False a"
  obtains s where "\<And>rest. hj_loop hj_init (a @ rest) = hj_loop s rest" "mode s = Normal"
    "out s @ pending_text s = a"
proof -
  have "strict_state hj_init a" using assms by (simp add: strict_state_def hj_init_def)
  from strict_loop [OF this] show ?thesis
    by (auto simp: hj_init_def pending_text_def intro: that)
qed

lemma hj_finish_Normal: "mode s = Normal \<Longrightarrow> hj_finish s = Inr (out s @ pending_text s)"
  by (simp add: hj_finish_def pending_text_def)

text \<open>
  Text that is already strict JSON in its use of slashes, commas and strings (no slash outside
  a string, no comma in front of a closing bracket, every string closed) is returned unchanged,
  character for character; in particular comment markers and commas inside strings survive.
\<close>

theorem to_json_strict_unchanged: "strict_json False s \<Longrightarrow> to_json s = Inr s"
proof -
  assume "strict_json False s"
  then obtain s' where "\<And>rest. hj_loop hj_init (s @ rest) = hj_loop s' rest" "mode s' = Normal"
      "out s' @ pending_text s' = s" using strict_prefix by blast
  from this(1) [of "[]"] this(2,3) show ?thesis by (simp add: to_json_def hj_finish_Normal)
qed

theorem to_json_strict_unchanged_witness:
  "to_json ''{k: [1, 2], v: 3}'' = Inr ''{k: [1, 2], v: 3}''"
  by (rule to_json_strict_unchanged) code_simp

section \<open>Comments disappear\<close>

lemma hj_loop_block:
  assumes "CHR 0x0A \<notin> set c" "\<not> sublist ''*/'' c"
    and "m = InBlockComment \<or> m = InBlockCommentStar \<and> peek_char c \<noteq> Some (CHR ''/'')"
  shows "hj_loop (s\<lparr>mode := m\<rparr>) (c @ ''*/'' @ b) = hj_loop (s\<lparr>mode := Normal\<rparr>) b"
  using assms
proof (induction c arbitrary: m)
  case Nil
  then show ?case by (auto simp: hj_step_def)
next
  case (Cons x c)
  have sub: "\<not> sublist ''*/'' c" and ne: "x = CHR ''*'' \<Longrightarrow> peek_char c \<noteq> Some (CHR ''/'')"
    using Cons.prems(2) by (auto simp: sublist_Cons_right prefix_Cons peek_char_def split: list.splits)
  have nl: "CHR 0x0A \<notin> set c" and x: "x \<noteq> CHR 0x0A" using Cons.prems(1) by auto
  let ?m = "if x = CHR ''*'' then InBlockCommentStar else InBlockComment"
  have "hj_loop (s\<lparr>mode := m\<rparr>) ((x # c) @ ''*/'' @ b) = hj_loop (s\<lparr>mode := ?m\<rparr>) (c @ ''*/'' @ b)"
    using Cons.prems(3) x by (elim disjE) (simp_all add: hj_step_def)
  also have "\<dots> = hj_loop (s\<lparr>mode := Normal\<rparr>) b"
    by (rule Cons.IH [OF nl sub]) (use ne in simp)
  finally show ?case .
qed

text \<open>
  A block comment without line breaks between a strict text \<open>a\<close> and any rest \<open>b\<close> has no effect
  at all: preprocessing gives the same result as if the comment were not there, also when it stands
  between a comma and what follows the comma, so a trailing comma is still recognised.
\<close>

theorem to_json_block_comment:
  assumes "strict_json False a" "CHR 0x0A \<notin> set c" "\<not> sublist ''*/'' c"
  shows "to_json (a @ ''/*'' @ c @ ''*/'' @ b) = to_json (a @ b)"
proof -
  obtain s where s: "\<And>rest. hj_loop hj_init (a @ rest) = hj_loop s rest" "mode s = Normal"
    using strict_prefix [OF assms(1)] by blast
  have "hj_loop s (''/*'' @ c @ ''*/'' @ b) = hj_loop (s\<lparr>mode := InBlockComment\<rparr>) (c @ ''*/'' @ b)"
    using s(2) by (cases "pending_comma s") (simp_all add: hj_defs is_whitespace_def)
  also have "\<dots> = hj_loop (s\<lparr>mode := Normal\<rparr>) b"
    using assms(2,3) by (intro hj_loop_block) auto
  also have "s\<lparr>mode := Normal\<rparr> = s" using s(2) by simp
  finally show ?thesis using s(1) [of "''/*'' @ c @ ''*/'' @ b"] s(1) [of b]
    by (simp add: to_json_def)
qed

theorem to_json_block_comment_witness:
  "to_json (''[1, '' @ ''/*'' @ '' a, b '' @ ''*/'' @ ''  ]'') = to_json ''[1,   ]'' \<and>
   to_json ''[1,   ]'' = Inr ''[1   ]''"
proof
  have "to_json (''[1, '' @ ''/*'' @ '' a, b '' @ ''*/'' @ ''  ]'') = to_json (''[1, '' @ ''  ]'')"
    by (rule to_json_block_comment) code_simp+
  then show "to_json (''[1, '' @ ''/*'' @ '' a, b '' @ ''*/'' @ ''  ]'') = to_json ''[1,   ]''" by simp
qed code_simp

lemma hj_loop_line:
  "CHR 0x0A \<notin> set c \<Longrightarrow> mode s = InLineComment \<Longrightarrow>
     hj_loop s (c @ CHR 0x0A # b) = hj_loop (s\<lparr>out := out s @ [CHR 0x0A], mode := Normal\<rparr>) b"
  by (induction c) (auto simp: hj_step_def)

section \<open>The output has no comments\<close>

definition scan_inv :: "hj_state \<Rightarrow> string \<Rightarrow> bool" where
  "scan_inv s cs =
     (let m = foldl scan_step Plain (out s);
          p = peek_char cs in
      (\<forall>buf. pending_comma s = Some buf \<longrightarrow>
         (\<exists>w. buf = CHR '','' # w \<and> list_all is_whitespace w) \<and>
         mode s \<notin> {InString, InStringEscape}) \<and>
      (case mode s of
         InString \<Rightarrow> m = Str
       | InStringEscape \<Rightarrow> m = Esc
       | Normal \<Rightarrow> m = Plain \<or>
           m = Slash \<and> (pending_comma s \<noteq> None \<or> p \<noteq> Some (CHR ''/'') \<and> p \<noteq> Some (CHR ''*''))
       | _ \<Rightarrow> m = Plain \<or> m = Slash \<and> pending_comma s \<noteq> None))"

lemma scan_whitespace:
  "list_all is_whitespace w \<Longrightarrow> m \<in> {Plain, Slash} \<Longrightarrow>
     foldl scan_step m w = (if w = [] then m else Plain)"
proof (induction w arbitrary: m)
  case (Cons x w)
  then have "scan_step m x = Plain" by (auto simp: is_whitespace_def)
  with Cons show ?case by auto
qed simp

lemma scan_pending:
  "list_all is_whitespace w \<Longrightarrow> m \<in> {Plain, Slash} \<Longrightarrow> foldl scan_step m (CHR '','' # w) = Plain"
  by (auto simp: scan_whitespace)

lemma hj_plain_inv:
  assumes "mode s = Normal" "pending_comma s = None" "foldl scan_step Plain (out s) = Plain \<or>
    foldl scan_step Plain (out s) = Slash \<and> c \<noteq> CHR ''/'' \<and> c \<noteq> CHR ''*''"
    and "hj_plain s c (peek_char cs) = (s', skip)"
  shows "scan_inv s' (if skip then tl cs else cs)"
  using assms(3)
proof
  assume "foldl scan_step Plain (out s) = Plain"
  with assms(1,2,4) show ?thesis by (auto simp: hj_plain_def scan_inv_def Let_def split: if_splits)
next
  assume "foldl scan_step Plain (out s) = Slash \<and> c \<noteq> CHR ''/'' \<and> c \<noteq> CHR ''*''"
  with assms(1,2,4) show ?thesis by (auto simp: hj_plain_def scan_inv_def Let_def split: if_splits)
qed

lemma hj_normal_inv:
  assumes "scan_inv s (c # cs)" "mode s = Normal" "hj_normal s c (peek_char cs) = (s', skip)"
  shows "scan_inv s' (if skip then tl cs else cs)"
proof (cases "pending_comma s")
  case None
  then show ?thesis
    using assms by (intro hj_plain_inv [of s c cs s' skip]) (auto simp: hj_normal_def scan_inv_def Let_def)
next
  case (Some buf)
  let ?m = "foldl scan_step Plain (out s)"
  from Some assms obtain w where w: "buf = CHR '','' # w" "list_all is_whitespace w"
    and m: "?m \<in> {Plain, Slash}"
    by (auto simp: scan_inv_def Let_def)
  consider "is_whitespace c" | "\<not> is_whitespace c" "c = CHR ''/''" "skip"
    | "\<not> is_whitespace c" "c = CHR '']'' \<or> c = CHR ''}''"
    | "hj_plain (s\<lparr>out := out s @ buf, pending_comma := None\<rparr>) c (peek_char cs) = (s', skip)"
    using assms(3) Some by (auto simp: hj_normal_def split: if_splits)
  then show ?thesis
  proof cases
    case 1
    with Some w m assms show ?thesis by (auto simp: hj_normal_def scan_inv_def Let_def)
  next
    case 2
    with Some w m assms show ?thesis
      by (auto simp: hj_normal_def hj_plain_def scan_inv_def Let_def split: if_splits)
  next
    case 3
    with Some w m assms show ?thesis
      by (auto simp: hj_normal_def scan_inv_def Let_def scan_whitespace)
  next
    case 4
    have "foldl scan_step Plain (out s @ buf) = Plain" using scan_pending [OF w(2) m] w(1) by simp
    with 4 assms(2) show ?thesis
      by (intro hj_plain_inv [of "s\<lparr>out := out s @ buf, pending_comma := None\<rparr>" c cs s' skip]) auto
  qed
qed

lemma hj_step_inv:
  assumes "scan_inv s (c # cs)" "hj_step s c (peek_char cs) = (s', skip)"
  shows "scan_inv s' (if skip then tl cs else cs)"
proof (cases "mode s")
  case Normal
  with assms show ?thesis by (intro hj_normal_inv [of s c cs s' skip]) (auto simp: hj_step_def)
next
  case InString
  with assms show ?thesis by (auto simp: hj_step_def scan_inv_def Let_def)
next
  case InStringEscape
  with assms show ?thesis by (auto simp: hj_step_def scan_inv_def Let_def)
qed (use assms in \<open>auto simp: hj_step_def scan_inv_def Let_def split: if_splits\<close>)

lemma hj_loop_inv: "scan_inv s cs \<Longrightarrow> scan_inv (hj_loop s cs) []"
proof (induction s cs rule: hj_loop.induct)
  case (2 s c cs)
  obtain s' skip where step: "hj_step s c (peek_char cs) = (s', skip)" by (meson surj_pair)
  from hj_step_inv [OF 2(2) step] have "scan_inv s' (if skip then tl cs else cs)" .
  with 2(1) step show ?case by simp
qed simp

lemma scan_inv_finish:
  assumes "scan_inv s []" "hj_finish s = Inr t"
  shows "comment_free t"
proof (cases "pending_comma s")
  case None
  with assms show ?thesis
    by (cases "mode s") (auto simp: hj_finish_def comment_free_def scan_inv_def Let_def)
next
  case (Some buf)
  with assms(1) obtain w where w: "buf = CHR '','' # w" "list_all is_whitespace w"
    and "foldl scan_step Plain (out s) \<in> {Plain, Slash}"
    by (cases "mode s") (auto simp: scan_inv_def Let_def)
  then have "foldl scan_step Plain (out s @ buf) = Plain"
    using scan_pending [OF w(2)] w(1) by simp
  with Some assms(2) show ?thesis
    by (cases "mode s") (auto simp: hj_finish_def comment_free_def)
qed

text \<open>
  What the preprocessor returns contains no comment: outside strings no slash is followed by a
  slash or a star, and every string of the output is closed.
\<close>

theorem to_json_comment_free: "to_json s = Inr t \<Longrightarrow> comment_free t"
proof -
  assume *: "to_json s = Inr t"
  have "scan_inv hj_init s" by (simp add: scan_inv_def hj_init_def)
  then have "scan_inv (hj_loop hj_init s) []" by (rule hj_loop_inv)
  then show "comment_free t" using * by (auto simp: to_json_def intro: scan_inv_finish)
qed

theorem to_json_comment_free_witness: "comment_free ''{a: [1,2  ]} ''"
proof -
  have "to_json ''{a: [1,/* x, */2, /*z*/ ],} // end'' = Inr ''{a: [1,2  ]} ''" by code_simp
  then show ?thesis by (rule to_json_comment_free)
qed

end
