(* ===== verification/Ipnet.thy ===== *)
theory Ipnet
  imports Rust_Std
begin

text \<open>
  The crate \<open>ipnet\<close> as the program uses it: \<open>IpNet\<close> and \<open>Ipv4Net\<close> are arbitrary types, their operations
  the fields of a record that is an argument of the definitions using them. \<open>ex_api\<close> and \<open>ex_v4_api\<close>
  are instances over IPv4 blocks for closed examples.
\<close>

record 'net ipnet_api =
  net_from_str :: "string \<Rightarrow> 'net option"
  net_contains :: "'net \<Rightarrow> ip_addr \<Rightarrow> bool"
  net_new :: "ip_addr \<Rightarrow> nat \<Rightarrow> string + 'net"
  net_prefix_len :: "'net \<Rightarrow> u8"

record 'net ipv4net_api =
  v4_contains :: "'net \<Rightarrow> u32 \<Rightarrow> bool"
  v4_hosts :: "'net \<Rightarrow> u32 list"
  v4_to_string :: "'net \<Rightarrow> string"

text \<open>
  A network type for closed examples: an IPv4 block given by base and prefix length. Its textual form
  is the one of \<open>ipnet\<close>, an address, a slash and a prefix length.
\<close>

definition ex_mask :: "u8 \<Rightarrow> u32" where
  "ex_mask len = push_bit (32 - unat len) (- 1)"

definition ex_api :: "(u32 \<times> u8) ipnet_api" where
  "ex_api = \<lparr>
     net_from_str = (\<lambda>s. case split_once (CHR ''/'') s of
       None \<Rightarrow> None
     | Some (a, l) \<Rightarrow>
         (case (read_ipv4_addr a, parse_uint 32 l) of
            (Some (ip, []), Some n) \<Rightarrow> Some (ip, of_int n)
          | _ \<Rightarrow> None)),
     net_contains = (\<lambda>(base, len) ip. case ip of
       V4 a \<Rightarrow> and a (ex_mask len) = and base (ex_mask len)
     | V6 _ \<Rightarrow> False),
     net_new = (\<lambda>ip n. case ip of V4 a \<Rightarrow> Inr (a, of_nat n) | V6 _ \<Rightarrow> Inl ''prefix''),
     net_prefix_len = snd\<rparr>"

definition ex_v4_api :: "(u32 \<times> u8) ipv4net_api" where
  "ex_v4_api = \<lparr>
     v4_contains = (\<lambda>(base, len) ip. and ip (ex_mask len) = and base (ex_mask len)),
     v4_hosts = (\<lambda>(base, len). map (\<lambda>i. and base (ex_mask len) + of_nat i) [1..<2 ^ (32 - unat len) - 1]),
     v4_to_string = (\<lambda>(base, len). ipv4_to_string base @ ''/'' @ show_nat (unat len))\<rparr>"

end
