(* ===== verification/Acl_Model.thy ===== *)
theory Acl_Model
  imports Acl_Hujson Ipnet
begin

text \<open>
  The ACL policy document (\<open>crates/runesh-acl/src/model.rs\<close>): the policy record, validation, group
  resolution, and the parsers of source targets, destinations and port lists.

  The crate \<open>ipnet\<close> is a parameter: \<open>ipnet_api\<close> bundles its operations over an arbitrary type of
  networks. The group walks (\<open>check_group_cycle\<close>, \<open>resolve_group_inner\<close>) thread the mutable
  \<open>visited\<close> set and the result vector through the recursion; their termination rests on the fact that a
  successful walk leaves \<open>visited\<close> as it found it.

  Shown here: validation accepts exactly the policies whose group references are acyclic, resolution
  of a validated policy never reports a cycle and returns exactly the transitive members, and port
  lists written in the documented syntax are parsed back.
\<close>

section \<open>Data\<close>

typedecl json_value

datatype acl_action = Accept | Deny

record acl_rule =
  action :: acl_action
  src :: "string list"
  dst :: "string list"
  proto :: "string option"

datatype ssh_action = SshAccept | SshCheck

record ssh_rule =
  ssh_action_of :: ssh_action
  ssh_src :: "string list"
  ssh_dst :: "string list"
  users :: "string list"
  check_period :: "string option"
  accept_env :: "string list option"

record auto_approvers =
  routes :: "(string, string list) hash_map"
  exit_node :: "string list"

record node_attr_rule =
  target :: "string list"
  attr :: "string list"

record acl_test =
  at_src :: string
  at_proto :: "string option"
  at_accept :: "string list"
  at_deny :: "string list"
  at_src_posture_attrs :: "(string, string) hash_map option"

record ssh_test =
  st_src :: string
  st_dst :: "string list"
  st_accept :: "string list"
  st_check :: "string list"
  st_deny :: "string list"
  st_src_posture_attrs :: "(string, string) hash_map option"

record acl_policy =
  groups :: "(string, string list) hash_map"
  hosts :: "(string, string) hash_map"
  tag_owners :: "(string, string list) hash_map"
  acls :: "acl_rule list"
  ssh :: "ssh_rule list"
  policy_auto_approvers :: "auto_approvers option"
  node_attrs :: "node_attr_rule list"
  ipsets :: "(string, string list) hash_map"
  postures :: "(string, string list) hash_map"
  tests :: "acl_test list"
  ssh_tests :: "ssh_test list"
  derp_map :: "json_value option"

definition default_policy :: acl_policy where
  "default_policy = \<lparr>groups = [], hosts = [], tag_owners = [], acls = [], ssh = [],
     policy_auto_approvers = None, node_attrs = [], ipsets = [], postures = [], tests = [],
     ssh_tests = [], derp_map = None\<rparr>"

datatype 'net acl_target =
    AnyTarget
  | Group string
  | User string
  | Tag string
  | Ip ip_addr
  | Cidr 'net
  | HostAlias string
  | Autogroup string

record port_range =
  start :: u16
  end_port :: u16

datatype port_set = AnyPort | Ports "port_range list"

record 'net dst_target =
  host :: "'net acl_target"
  ports :: port_set

section \<open>Ports\<close>

definition range_single :: "u16 \<Rightarrow> port_range" where
  "range_single port = \<lparr>start = port, end_port = port\<rparr>"

definition range_range :: "u16 \<Rightarrow> u16 \<Rightarrow> port_range" where
  "range_range s e = \<lparr>start = s, end_port = e\<rparr>"

definition range_contains :: "port_range \<Rightarrow> u16 \<Rightarrow> bool" where
  "range_contains r port = (port \<ge> start r \<and> port \<le> end_port r)"

definition ports_contain :: "port_set \<Rightarrow> u16 \<Rightarrow> bool" where
  "ports_contain ps port =
     (case ps of AnyPort \<Rightarrow> True | Ports ranges \<Rightarrow> list_ex (\<lambda>r. range_contains r port) ranges)"

definition parse_port_part :: "string \<Rightarrow> acl_error + port_range" where
  "parse_port_part raw =
     (let part = trim raw in
      case split_once (CHR ''-'') part of
        Some (s, e) \<Rightarrow>
          rbind (ok_or (InvalidPortRange part) (parse_u16 (trim s))) (\<lambda>lo.
          rbind (ok_or (InvalidPortRange part) (parse_u16 (trim e))) (\<lambda>hi.
            Inr (range_range lo hi)))
      | None \<Rightarrow>
          rbind (ok_or (InvalidPortRange part) (parse_u16 part)) (\<lambda>port. Inr (range_single port)))"

fun parse_port_parts :: "port_range list \<Rightarrow> string list \<Rightarrow> acl_error + port_range list" where
  "parse_port_parts ranges [] = Inr ranges"
| "parse_port_parts ranges (p # ps) =
     rbind (parse_port_part p) (\<lambda>r. parse_port_parts (ranges @ [r]) ps)"

definition parse_ports :: "string \<Rightarrow> acl_error + port_set" where
  "parse_ports s =
     (if s = ''*'' then Inr AnyPort
      else rbind (parse_port_parts [] (split_on (CHR '','') s)) (\<lambda>ranges. Inr (Ports ranges)))"

section \<open>Targets\<close>

definition parse_target :: "'net ipnet_api \<Rightarrow> string \<Rightarrow> 'net acl_target" where
  "parse_target api s =
     (if s = ''*'' then AnyTarget
      else case strip_prefix ''group:'' s of Some name \<Rightarrow> Group (''group:'' @ name)
      | None \<Rightarrow>
     (case strip_prefix ''tag:'' s of Some name \<Rightarrow> Tag (''tag:'' @ name)
      | None \<Rightarrow>
     (case strip_prefix ''autogroup:'' s of Some name \<Rightarrow> Autogroup name
      | None \<Rightarrow>
     (case net_from_str api s of Some net \<Rightarrow> Cidr net
      | None \<Rightarrow>
     (case parse_ip_addr s of Some ip \<Rightarrow> Ip ip
      | None \<Rightarrow> if CHR ''@'' \<in> set s then User s else HostAlias s)))))"

definition parse_dst :: "'net ipnet_api \<Rightarrow> string \<Rightarrow> acl_error + 'net dst_target" where
  "parse_dst api s =
     (if s = ''*:*'' then Inr \<lparr>host = AnyTarget, ports = AnyPort\<rparr>
      else
        rbind
          (if starts_with ''['' s then
             rbind (ok_or (InvalidPolicy (''unterminated IPv6 bracket: '' @ s)) (find_char (CHR '']'') s))
               (\<lambda>bracket_end.
                  let h = take (Suc bracket_end) s; rest = drop (Suc bracket_end) s in
                  case strip_prefix '':'' rest of
                    Some port \<Rightarrow> Inr (h, port)
                  | None \<Rightarrow> Inr (h, ''*''))
           else
             (case rfind_char (CHR '':'') s of
                Some colon_pos \<Rightarrow> Inr (take colon_pos s, drop (Suc colon_pos) s)
              | None \<Rightarrow> Inr (s, ''*'')))
          (\<lambda>(host_part, port_part).
             rbind (parse_ports port_part) (\<lambda>ps.
               Inr \<lparr>host = parse_target api host_part, ports = ps\<rparr>)))"

definition parse_ip_or_cidr :: "'net ipnet_api \<Rightarrow> string \<Rightarrow> acl_error + 'net" where
  "parse_ip_or_cidr api s =
     (case net_from_str api s of
        Some net \<Rightarrow> Inr net
      | None \<Rightarrow>
          (case parse_ip_addr s of
             Some ip \<Rightarrow>
               (let prefix = (if is_ipv4 ip then 32 else 128) in
                case net_new api ip prefix of Inl e \<Rightarrow> Inl (InvalidCidr e) | Inr net \<Rightarrow> Inr net)
           | None \<Rightarrow> Inl (InvalidCidr s)))"

definition resolve_host :: "'net ipnet_api \<Rightarrow> acl_policy \<Rightarrow> string \<Rightarrow> acl_error + 'net" where
  "resolve_host api policy name =
     rbind (ok_or (UnknownHost name) (hm_get (hosts policy) name)) (parse_ip_or_cidr api)"

section \<open>Groups\<close>

text \<open>
  \<open>check_group_cycle\<close> and its member loop. The result carries the \<open>visited\<close> set as the call leaves it.
\<close>

function check_group_cycle ::
    "(string, string list) hash_map \<Rightarrow> string \<Rightarrow> string set \<Rightarrow> acl_error + string set"
  and check_group_members ::
    "(string, string list) hash_map \<Rightarrow> string list \<Rightarrow> string set \<Rightarrow> acl_error + string set"
where
  "check_group_cycle gs name visited =
     (if name \<in> visited then Inl (CircularGroup name)
      else
        rbind
          (case hm_get gs name of
             None \<Rightarrow> Inr (insert name visited)
           | Some members \<Rightarrow> check_group_members gs members (insert name visited))
          (\<lambda>v. Inr (v - {name})))"
| "check_group_members gs [] visited = Inr visited"
| "check_group_members gs (m # ms) visited =
     (if starts_with ''group:'' m then
        rbind (check_group_cycle gs m visited) (\<lambda>v. check_group_members gs ms v)
      else check_group_members gs ms visited)"
  by pat_completeness auto

lemma check_group_visited_partial:
  "check_group_cycle_check_group_members_dom (Inl (gs, name, visited)) \<Longrightarrow>
     \<forall>v. check_group_cycle gs name visited = Inr v \<longrightarrow> v = visited"
  "check_group_cycle_check_group_members_dom (Inr (gs, ms, visited)) \<Longrightarrow>
     \<forall>v. check_group_members gs ms visited = Inr v \<longrightarrow> v = visited"
proof (induction rule: check_group_cycle_check_group_members.pinduct)
  case (1 gs name visited)
  then show ?case
    by (auto simp: check_group_cycle.psimps rbind_eq_Inr split: option.splits if_splits)
next
  case (2 gs visited)
  then show ?case by (simp add: check_group_members.psimps)
next
  case (3 gs m ms visited)
  then show ?case
    by (auto simp: check_group_members.psimps rbind_eq_Inr split: if_splits)
qed

definition unvisited :: "(string, 'v) hash_map \<Rightarrow> string set \<Rightarrow> nat" where
  "unvisited gs visited = card (set (hm_keys gs) - visited)"

lemma unvisited_insert:
  assumes "hm_get gs name = Some ms" "name \<notin> visited"
  shows "unvisited gs (insert name visited) < unvisited gs visited"
proof -
  have "name \<in> set (hm_keys gs) - visited" using assms by (simp add: hm_keys_get)
  moreover have "set (hm_keys gs) - insert name visited = (set (hm_keys gs) - visited) - {name}" by blast
  ultimately show ?thesis unfolding unvisited_def by (simp only: card_Diff1_less finite_Diff finite_set)
qed

termination check_group_cycle
proof (relation "inv_image (less_than <*lex*> less_than)
    (\<lambda>x. case x of Inl (gs, name, visited) \<Rightarrow> (unvisited gs visited, 0 :: nat)
       | Inr (gs, ms, visited) \<Rightarrow> (unvisited gs visited, Suc (length ms)))", goal_cases)
  case (4 gs m ms visited v)
  then show ?case using check_group_visited_partial(1) by fastforce
qed (auto simp: unvisited_insert)

function resolve_group_inner ::
    "(string, string list) hash_map \<Rightarrow> string \<Rightarrow> string list \<Rightarrow> string set \<Rightarrow>
       acl_error + string list \<times> string set"
  and resolve_group_members ::
    "(string, string list) hash_map \<Rightarrow> string list \<Rightarrow> string list \<Rightarrow> string set \<Rightarrow>
       acl_error + string list \<times> string set"
where
  "resolve_group_inner gs name result visited =
     (if name \<in> visited then Inl (CircularGroup name)
      else
        rbind (ok_or (UnknownGroup name) (hm_get gs name)) (\<lambda>members.
        rbind (resolve_group_members gs members result (insert name visited)) (\<lambda>(r, v).
          Inr (r, v - {name}))))"
| "resolve_group_members gs [] result visited = Inr (result, visited)"
| "resolve_group_members gs (m # ms) result visited =
     (if starts_with ''group:'' m then
        rbind (resolve_group_inner gs m result visited) (\<lambda>(r, v). resolve_group_members gs ms r v)
      else resolve_group_members gs ms (result @ [m]) visited)"
  by pat_completeness auto

lemma resolve_group_visited_partial:
  "resolve_group_inner_resolve_group_members_dom (Inl (gs, name, result, visited)) \<Longrightarrow>
     \<forall>r v. resolve_group_inner gs name result visited = Inr (r, v) \<longrightarrow> v = visited"
  "resolve_group_inner_resolve_group_members_dom (Inr (gs, ms, result, visited)) \<Longrightarrow>
     \<forall>r v. resolve_group_members gs ms result visited = Inr (r, v) \<longrightarrow> v = visited"
proof (induction rule: resolve_group_inner_resolve_group_members.pinduct)
  case (1 gs name result visited)
  show ?case
  proof (intro allI impI)
    fix r v
    assume "resolve_group_inner gs name result visited = Inr (r, v)"
    then obtain ms v' where *: "name \<notin> visited" "hm_get gs name = Some ms"
        "resolve_group_members gs ms result (insert name visited) = Inr (r, v')" "v = v' - {name}"
      by (auto simp: resolve_group_inner.psimps [OF 1(1)] rbind_eq_Inr split: if_splits)
    with 1(2) [of ms] have "v' = insert name visited" by simp
    with * show "v = visited" by simp
  qed
next
  case (2 gs result visited)
  then show ?case by (simp add: resolve_group_members.psimps)
next
  case (3 gs m ms result visited)
  show ?case
  proof (cases "starts_with ''group:'' m")
    case True
    show ?thesis
    proof (intro allI impI)
      fix r v
      assume "resolve_group_members gs (m # ms) result visited = Inr (r, v)"
      then obtain r' v' where *: "resolve_group_inner gs m result visited = Inr (r', v')"
          "resolve_group_members gs ms r' v' = Inr (r, v)"
        using True by (auto simp: resolve_group_members.psimps(2) [OF 3(1)] rbind_eq_Inr)
      with 3(2) [OF True] have "v' = visited" by blast
      with 3(3) [OF True *(1) refl] *(2) show "v = visited" by blast
    qed
  next
    case False
    with 3(4) show ?thesis by (simp add: resolve_group_members.psimps(2) [OF 3(1)])
  qed
qed

termination resolve_group_inner
proof (relation "inv_image (less_than <*lex*> less_than)
    (\<lambda>x. case x of Inl (gs, name, result, visited) \<Rightarrow> (unvisited gs visited, 0 :: nat)
       | Inr (gs, ms, result, visited) \<Rightarrow> (unvisited gs visited, Suc (length ms)))", goal_cases)
  case (4 gs m ms result visited a r v)
  with resolve_group_visited_partial(1) [OF 4(4)] have "v = visited" by (metis (no_types))
  then show ?case by simp
qed (simp_all add: unvisited_insert wf_lex_prod)

definition resolve_group :: "acl_policy \<Rightarrow> string \<Rightarrow> acl_error + string list" where
  "resolve_group policy name =
     rbind (resolve_group_inner (groups policy) name [] {}) (\<lambda>(r, v). Inr r)"

section \<open>Validation\<close>

definition validate :: "acl_policy \<Rightarrow> acl_error + unit" where
  "validate policy =
     rbind (try_each (\<lambda>key. if starts_with ''group:'' key then Inr ()
              else Inl (InvalidPolicy (''group key must start with 'group:': '' @ key)))
            (hm_keys (groups policy))) (\<lambda>_.
     rbind (try_each (\<lambda>key. if starts_with ''tag:'' key then Inr ()
              else Inl (InvalidPolicy (''tagOwners key must start with 'tag:': '' @ key)))
            (hm_keys (tag_owners policy))) (\<lambda>_.
     try_each (\<lambda>group_name. rbind (check_group_cycle (groups policy) group_name {}) (\<lambda>_. Inr ()))
            (hm_keys (groups policy))))"

definition from_json :: "(string \<Rightarrow> string + acl_policy) \<Rightarrow> string \<Rightarrow> acl_error + acl_policy" where
  "from_json serde_from_str input =
     rbind (case serde_from_str input of Inl e \<Rightarrow> Inl (InvalidPolicy e) | Inr p \<Rightarrow> Inr p) (\<lambda>policy.
     rbind (validate policy) (\<lambda>_. Inr policy))"

definition from_hujson :: "(string \<Rightarrow> string + acl_policy) \<Rightarrow> string \<Rightarrow> acl_error + acl_policy" where
  "from_hujson serde_from_str input =
     rbind (to_json input) (\<lambda>json.
     rbind (case serde_from_str json of Inl e \<Rightarrow> Inl (InvalidPolicy e) | Inr p \<Rightarrow> Inr p) (\<lambda>policy.
     rbind (validate policy) (\<lambda>_. Inr policy)))"

section \<open>The reference relation between groups\<close>

definition group_ref :: "(string, string list) hash_map \<Rightarrow> string \<Rightarrow> string \<Rightarrow> bool" where
  "group_ref gs a b = (\<exists>ms. hm_get gs a = Some ms \<and> b \<in> set ms \<and> starts_with ''group:'' b)"

definition cyclic_from :: "(string, string list) hash_map \<Rightarrow> string \<Rightarrow> bool" where
  "cyclic_from gs a = (\<exists>g. (group_ref gs)\<^sup>*\<^sup>* a g \<and> (group_ref gs)\<^sup>+\<^sup>+ g g)"

definition group_users :: "(string, string list) hash_map \<Rightarrow> string \<Rightarrow> string set" where
  "group_users gs a =
     {u. \<exists>g ms. (group_ref gs)\<^sup>*\<^sup>* a g \<and> hm_get gs g = Some ms \<and> u \<in> set ms \<and> \<not> starts_with ''group:'' u}"

declare check_group_cycle.simps [simp del] resolve_group_inner.simps [simp del]

lemma group_refE:
  assumes "group_ref gs a b"
  obtains ms where "hm_get gs a = Some ms" "b \<in> set ms" "starts_with ''group:'' b"
  using assms by (auto simp: group_ref_def)

lemma group_refI: "hm_get gs a = Some ms \<Longrightarrow> b \<in> set ms \<Longrightarrow> starts_with ''group:'' b \<Longrightarrow> group_ref gs a b"
  by (auto simp: group_ref_def)

lemma check_group_visited:
  "check_group_cycle gs name visited = Inr v \<Longrightarrow> v = visited"
  "check_group_members gs ms visited = Inr v \<Longrightarrow> v = visited"
proof (induction gs name visited and gs ms visited arbitrary: v and v
    rule: check_group_cycle_check_group_members.induct)
  case (1 gs name visited)
  then have fresh: "name \<notin> visited" by (auto simp: check_group_cycle.simps split: if_splits)
  show ?case
  proof (cases "hm_get gs name")
    case None
    with 1(2) fresh show ?thesis by (simp add: check_group_cycle.simps)
  next
    case (Some ms)
    with 1(2) fresh obtain w where w: "check_group_members gs ms (insert name visited) = Inr w"
        "v = w - {name}"
      by (auto simp: check_group_cycle.simps rbind_eq_Inr)
    from 1(1) [OF fresh Some w(1)] w(2) fresh show ?thesis by simp
  qed
next
  case (2 gs visited)
  then show ?case by simp
next
  case (3 gs m ms visited)
  show ?case
  proof (cases "starts_with ''group:'' m")
    case True
    with 3(4) obtain a where a: "check_group_cycle gs m visited = Inr a"
        "check_group_members gs ms a = Inr v" by (auto simp: rbind_eq_Inr)
    with 3(1) [OF True a(1)] 3(2) [OF True a(1) a(2)] show ?thesis by simp
  next
    case False
    with 3(3) 3(4) show ?thesis by simp
  qed
qed

lemma check_group_sound:
  "check_group_cycle gs name visited = Inr v \<Longrightarrow>
     \<not> cyclic_from gs name \<and> (\<forall>g \<in> visited. \<not> (group_ref gs)\<^sup>*\<^sup>* name g)"
  "check_group_members gs ms visited = Inr v \<Longrightarrow>
     \<forall>m \<in> set ms. starts_with ''group:'' m \<longrightarrow>
       \<not> cyclic_from gs m \<and> (\<forall>g \<in> visited. \<not> (group_ref gs)\<^sup>*\<^sup>* m g)"
proof (induction gs name visited and gs ms visited arbitrary: v and v
    rule: check_group_cycle_check_group_members.induct)
  case (1 gs name visited)
  then have fresh: "name \<notin> visited" by (auto simp: check_group_cycle.simps split: if_splits)
  have step: "\<not> cyclic_from gs m \<and> (\<forall>g \<in> insert name visited. \<not> (group_ref gs)\<^sup>*\<^sup>* m g)"
    if ref: "group_ref gs name m" for m
  proof -
    obtain ms where ms: "hm_get gs name = Some ms" "m \<in> set ms" "starts_with ''group:'' m"
      using ref by (rule group_refE)
    with 1(2) fresh obtain v' where "check_group_members gs ms (insert name visited) = Inr v'"
      by (auto simp: check_group_cycle.simps rbind_eq_Inr)
    from 1(1) [OF fresh ms(1) this] ms(2,3) show ?thesis by blast
  qed
  have "\<not> (group_ref gs)\<^sup>*\<^sup>* name g" if "g \<in> visited" for g
    using that fresh step by (metis converse_rtranclpE insertI2)
  moreover have "\<not> cyclic_from gs name"
    using step unfolding cyclic_from_def by (metis converse_rtranclpE insertI1 tranclpD)
  ultimately show ?case by blast
next
  case (2 gs visited)
  then show ?case by simp
next
  case (3 gs m ms visited)
  show ?case
  proof (cases "starts_with ''group:'' m")
    case True
    with 3(4) obtain a where a: "check_group_cycle gs m visited = Inr a"
        "check_group_members gs ms a = Inr v" by (auto simp: rbind_eq_Inr)
    with check_group_visited(1) have "a = visited" by blast
    with 3(1) [OF True a(1)] 3(2) [OF True a(1) a(2)] show ?thesis by simp
  next
    case False
    with 3(3) 3(4) show ?thesis by simp
  qed
qed

lemma check_group_complete:
  "check_group_cycle gs name visited = Inl e \<Longrightarrow>
     \<exists>g. e = CircularGroup g \<and> (group_ref gs)\<^sup>*\<^sup>* name g \<and> (g \<in> visited \<or> (group_ref gs)\<^sup>+\<^sup>+ g g)"
  "check_group_members gs ms visited = Inl e \<Longrightarrow>
     \<exists>m \<in> set ms. starts_with ''group:'' m \<and>
       (\<exists>g. e = CircularGroup g \<and> (group_ref gs)\<^sup>*\<^sup>* m g \<and> (g \<in> visited \<or> (group_ref gs)\<^sup>+\<^sup>+ g g))"
proof (induction gs name visited and gs ms visited
    rule: check_group_cycle_check_group_members.induct)
  case (1 gs name visited)
  show ?case
  proof (cases "name \<in> visited")
    case True
    with 1 show ?thesis by (auto simp: check_group_cycle.simps)
  next
    case False
    with 1(2) obtain ms where ms: "hm_get gs name = Some ms"
        "check_group_members gs ms (insert name visited) = Inl e"
      by (auto simp: check_group_cycle.simps rbind_eq_Inl split: option.splits)
    from 1(1) [OF False this] obtain m g where m: "m \<in> set ms" "starts_with ''group:'' m"
      and g: "e = CircularGroup g" "(group_ref gs)\<^sup>*\<^sup>* m g" "g \<in> insert name visited \<or> (group_ref gs)\<^sup>+\<^sup>+ g g"
      by blast
    have ref: "group_ref gs name m" using ms(1) m by (rule group_refI)
    then have "(group_ref gs)\<^sup>+\<^sup>+ name g" using g(2) by (rule rtranclp_into_tranclp2)
    then show ?thesis using g by (intro exI [of _ g]) (auto dest: tranclp_into_rtranclp)
  qed
next
  case (2 gs visited)
  then show ?case by simp
next
  case (3 gs m ms visited)
  show ?case
  proof (cases "starts_with ''group:'' m")
    case True
    consider "check_group_cycle gs m visited = Inl e"
      | a where "check_group_cycle gs m visited = Inr a" "check_group_members gs ms a = Inl e"
      using 3(4) True by (auto simp: rbind_eq_Inl)
    then show ?thesis
    proof cases
      case 1
      with 3(1) [OF True] True show ?thesis by auto
    next
      case 2
      with check_group_visited(1) have "a = visited" by blast
      with 3(2) [OF True 2] show ?thesis by auto
    qed
  next
    case False
    with 3(3) 3(4) show ?thesis by auto
  qed
qed

lemma check_group_cycle_iff: "is_ok (check_group_cycle gs name {}) \<longleftrightarrow> \<not> cyclic_from gs name"
proof (cases "check_group_cycle gs name {}")
  case (Inl e)
  from check_group_complete(1) [OF this] show ?thesis using Inl by (auto simp: cyclic_from_def)
next
  case (Inr v)
  from check_group_sound(1) [OF this] show ?thesis using Inr by simp
qed

lemma rbind_unit_ok: "rbind r (\<lambda>_. Inr ()) = Inr () \<longleftrightarrow> is_ok r"
  by (cases r) auto

lemma validate_acyclic:
  "validate p = Inr () \<Longrightarrow> k \<in> set (hm_keys (groups p)) \<Longrightarrow> \<not> cyclic_from (groups p) k"
  unfolding validate_def rbind_eq_Inr by (auto simp: try_each_eq_Inr rbind_unit_ok check_group_cycle_iff)

text \<open>
  Validation accepts a policy exactly when every group key has the prefix \<open>group:\<close>, every key of
  the tag owners has the prefix \<open>tag:\<close>, and no chain of group references starting at a declared group
  runs into a cycle.
\<close>

theorem validate_iff:
  "validate p = Inr () \<longleftrightarrow>
     (\<forall>k \<in> set (hm_keys (groups p)). starts_with ''group:'' k) \<and>
     (\<forall>k \<in> set (hm_keys (tag_owners p)). starts_with ''tag:'' k) \<and>
     (\<forall>k \<in> set (hm_keys (groups p)). \<not> cyclic_from (groups p) k)"
  unfolding validate_def rbind_eq_Inr
  by (auto simp: try_each_eq_Inr rbind_unit_ok check_group_cycle_iff split: if_splits)

theorem validate_iff_witness:
  "validate (default_policy\<lparr>groups := [(''group:a'', [''group:b'']), (''group:b'', [''u@x''])]\<rparr>) = Inr () \<and>
   \<not> cyclic_from [(''group:a'', [''group:b'']), (''group:b'', [''u@x''])] ''group:a''"
proof -
  let ?p = "default_policy\<lparr>groups := [(''group:a'', [''group:b'']), (''group:b'', [''u@x''])]\<rparr>"
  have "validate ?p = Inr ()" by code_simp
  moreover from this have "\<forall>k \<in> set (hm_keys (groups ?p)). \<not> cyclic_from (groups ?p) k"
    unfolding validate_iff by blast
  ultimately show ?thesis by (simp add: hm_keys_def)
qed

section \<open>Resolution of groups\<close>

lemma group_users_unfold:
  assumes "hm_get gs name = Some ms"
  shows "group_users gs name =
    {u \<in> set ms. \<not> starts_with ''group:'' u} \<union> (\<Union>m \<in> {m \<in> set ms. starts_with ''group:'' m}. group_users gs m)"
    (is "_ = ?R")
proof
  show "?R \<subseteq> group_users gs name"
    using assms by (auto simp: group_users_def intro: converse_rtranclp_into_rtranclp group_refI)
  show "group_users gs name \<subseteq> ?R"
  proof
    fix u
    assume "u \<in> group_users gs name"
    then obtain g ns where g: "(group_ref gs)\<^sup>*\<^sup>* name g" "hm_get gs g = Some ns" "u \<in> set ns"
        "\<not> starts_with ''group:'' u" by (auto simp: group_users_def)
    from g(1) show "u \<in> ?R"
    proof (cases rule: converse_rtranclpE)
      case base
      with g assms show ?thesis by auto
    next
      case (step m)
      with g(2-4) have "u \<in> group_users gs m" by (auto simp: group_users_def)
      moreover have "m \<in> set ms" "starts_with ''group:'' m"
        using step(1) assms by (auto simp: group_ref_def)
      ultimately show ?thesis by blast
    qed
  qed
qed

definition member_users :: "(string, string list) hash_map \<Rightarrow> string \<Rightarrow> string set" where
  "member_users gs m = (if starts_with ''group:'' m then group_users gs m else {m})"

lemma group_users_members:
  "hm_get gs name = Some ms \<Longrightarrow> group_users gs name = (\<Union>m \<in> set ms. member_users gs m)"
  by (auto simp: group_users_unfold member_users_def split: if_splits)

lemma resolve_group_ok:
  "resolve_group_inner gs name result visited = Inr (r, v) \<Longrightarrow>
     v = visited \<and> (\<exists>new. r = result @ new \<and> set new = group_users gs name)"
  "resolve_group_members gs ms result visited = Inr (r, v) \<Longrightarrow>
     v = visited \<and> (\<exists>new. r = result @ new \<and> set new = (\<Union>m \<in> set ms. member_users gs m))"
proof (induction gs name result visited and gs ms result visited arbitrary: r v and r v
    rule: resolve_group_inner_resolve_group_members.induct)
  case (1 gs name result visited)
  then obtain ms w where ms: "name \<notin> visited" "hm_get gs name = Some ms" "v = w - {name}"
      "resolve_group_members gs ms result (insert name visited) = Inr (r, w)"
    by (auto simp: resolve_group_inner.simps rbind_eq_Inr split: if_splits)
  from 1(1) [OF ms(1) _ ms(4)] ms(2) have "w = insert name visited \<and>
      (\<exists>new. r = result @ new \<and> set new = (\<Union>m \<in> set ms. member_users gs m))" by simp
  with ms show ?case by (auto simp: group_users_members)
next
  case (2 gs result visited)
  then show ?case by simp
next
  case (3 gs m ms result visited)
  show ?case
  proof (cases "starts_with ''group:'' m")
    case True
    with 3(4) obtain r1 v1 where *: "resolve_group_inner gs m result visited = Inr (r1, v1)"
        "resolve_group_members gs ms r1 v1 = Inr (r, v)" by (auto simp: rbind_eq_Inr)
    from 3(1) [OF True *(1)] obtain a where a: "v1 = visited" "r1 = result @ a" "set a = group_users gs m"
      by blast
    from 3(2) [OF True *(1) refl *(2)] obtain b where
      "v = v1" "r = r1 @ b" "set b = (\<Union>m \<in> set ms. member_users gs m)" by blast
    with a True show ?thesis by (auto simp: member_users_def)
  next
    case False
    with 3(4) have "resolve_group_members gs ms (result @ [m]) visited = Inr (r, v)" by simp
    from 3(3) [OF False this] obtain b where
      "v = visited" "r = result @ [m] @ b" "set b = (\<Union>m \<in> set ms. member_users gs m)" by auto
    with False show ?thesis by (auto simp: member_users_def)
  qed
qed

definition resolve_failure :: "(string, string list) hash_map \<Rightarrow> string \<Rightarrow> string set \<Rightarrow> acl_error \<Rightarrow> bool" where
  "resolve_failure gs name visited e =
     (\<exists>g. (group_ref gs)\<^sup>*\<^sup>* name g \<and>
       (e = CircularGroup g \<and> (g \<in> visited \<or> (group_ref gs)\<^sup>+\<^sup>+ g g) \<or>
        e = UnknownGroup g \<and> hm_get gs g = None))"

lemma resolve_group_err:
  "resolve_group_inner gs name result visited = Inl e \<Longrightarrow> resolve_failure gs name visited e"
  "resolve_group_members gs ms result visited = Inl e \<Longrightarrow>
     \<exists>m \<in> set ms. starts_with ''group:'' m \<and> resolve_failure gs m visited e"
proof (induction gs name result visited and gs ms result visited
    rule: resolve_group_inner_resolve_group_members.induct)
  case (1 gs name result visited)
  consider "name \<in> visited" "e = CircularGroup name" | "hm_get gs name = None" "e = UnknownGroup name"
    | ms where "name \<notin> visited" "hm_get gs name = Some ms"
        "resolve_group_members gs ms result (insert name visited) = Inl e"
    using 1(2) by (auto simp: resolve_group_inner.simps rbind_eq_Inl split: if_splits)
  then show ?case
  proof cases
    case (3 ms)
    from 1(1) [OF 3(1) _ 3(3)] 3(2) obtain m g where m: "m \<in> set ms" "starts_with ''group:'' m"
      and g: "(group_ref gs)\<^sup>*\<^sup>* m g" "e = CircularGroup g \<and> (g \<in> insert name visited \<or> (group_ref gs)\<^sup>+\<^sup>+ g g) \<or>
        e = UnknownGroup g \<and> hm_get gs g = None"
      unfolding resolve_failure_def by auto
    have "group_ref gs name m" using 3(2) m by (rule group_refI)
    then have "(group_ref gs)\<^sup>+\<^sup>+ name g" using g(1) by (rule rtranclp_into_tranclp2)
    with g(2) show ?thesis
      unfolding resolve_failure_def by (intro exI [of _ g]) (auto dest: tranclp_into_rtranclp)
  qed (auto simp: resolve_failure_def)
next
  case (2 gs result visited)
  then show ?case by simp
next
  case (3 gs m ms result visited)
  show ?case
  proof (cases "starts_with ''group:'' m")
    case True
    then consider "resolve_group_inner gs m result visited = Inl e"
      | r1 v1 where "resolve_group_inner gs m result visited = Inr (r1, v1)"
          "resolve_group_members gs ms r1 v1 = Inl e"
      using 3(4) by (auto simp: rbind_eq_Inl)
    then show ?thesis
    proof cases
      case 1
      with 3(1) [OF True] True show ?thesis by auto
    next
      case 2
      with resolve_group_ok(1) have "v1 = visited" by blast
      with 3(2) [OF True 2(1) refl 2(2)] show ?thesis by auto
    qed
  next
    case False
    with 3(3,4) show ?thesis by auto
  qed
qed

text \<open>
  C7. In a validated policy, resolving a declared group never reports a cycle: it returns exactly the
  users reachable through nested groups, or names an undeclared group it ran into.
\<close>

theorem validated_resolve_group:
  assumes "validate p = Inr ()" "hm_get (groups p) name \<noteq> None"
  shows "(\<exists>r. resolve_group p name = Inr r \<and> set r = group_users (groups p) name) \<or>
    (\<exists>g. resolve_group p name = Inl (UnknownGroup g) \<and> (group_ref (groups p))\<^sup>*\<^sup>* name g \<and>
       hm_get (groups p) g = None)"
proof -
  let ?gs = "groups p"
  have acyclic: "\<not> cyclic_from ?gs name"
    using assms by (simp add: validate_acyclic hm_keys_get)
  show ?thesis
  proof (cases "resolve_group_inner ?gs name [] {}")
    case (Inl e)
    from resolve_group_err(1) [OF this] acyclic show ?thesis
      using Inl by (auto simp: resolve_group_def resolve_failure_def cyclic_from_def)
  next
    case (Inr rv)
    then obtain r v where rv: "resolve_group_inner ?gs name [] {} = Inr (r, v)" by (cases rv) auto
    from resolve_group_ok(1) [OF this] rv show ?thesis by (auto simp: resolve_group_def)
  qed
qed

theorem validated_resolve_group_witness:
  "group_users [(''group:a'', [''group:b'', ''v@x'']), (''group:b'', [''u@x''])] ''group:a'' = {''u@x'', ''v@x''}"
proof -
  let ?gs = "[(''group:a'', [''group:b'', ''v@x'']), (''group:b'', [''u@x''])]"
  let ?p = "default_policy\<lparr>groups := ?gs\<rparr>"
  have v: "validate ?p = Inr ()" by code_simp
  have k: "hm_get (groups ?p) ''group:a'' \<noteq> None" by (simp add: hm_get_def)
  have r: "resolve_group ?p ''group:a'' = Inr [''u@x'', ''v@x'']" by code_simp
  from validated_resolve_group [OF v k] r show ?thesis by auto
qed

section \<open>Port lists\<close>

definition show_range :: "port_range \<Rightarrow> string" where
  "show_range r = show_nat (unat (start r)) @
     (if start r = end_port r then [] else ''-'' @ show_nat (unat (end_port r)))"

fun show_ranges :: "port_range list \<Rightarrow> string" where
  "show_ranges [] = []"
| "show_ranges [r] = show_range r"
| "show_ranges (r # rs) = show_range r @ '','' @ show_ranges rs"

lemma digit_facts:
  assumes "is_ascii_digit c"
  shows "c \<noteq> CHR ''-''" "c \<noteq> CHR '',''" "c \<noteq> CHR ''*''" "\<not> is_whitespace c"
  using assms by (auto simp: is_ascii_digit_def is_whitespace_def Let_def)

lemma show_nat_chars: "c \<in> set (show_nat n) \<Longrightarrow> is_ascii_digit c"
  using show_nat_digits by (simp add: list_all_iff)

lemma show_range_chars: "c \<in> set (show_range r) \<Longrightarrow> is_ascii_digit c \<or> c = CHR ''-''"
  by (auto simp: show_range_def dest: show_nat_chars split: if_splits)

lemma show_range_ne [simp]: "show_range r \<noteq> []"
  by (simp add: show_range_def)

lemma trim_no_ws: "\<forall>c \<in> set s. \<not> is_whitespace c \<Longrightarrow> trim s = s"
  by (rule trim_id) auto

lemma trim_show_nat [simp]: "trim (show_nat n) = show_nat n"
  by (rule trim_no_ws) (auto dest: show_nat_chars digit_facts)

lemma trim_show_range [simp]: "trim (show_range r) = show_range r"
  by (rule trim_no_ws) (auto dest!: show_range_chars dest: digit_facts simp: is_whitespace_def)

lemma parse_show_range: "parse_port_part (show_range r) = Inr r"
proof (cases "start r = end_port r")
  case True
  have "CHR ''-'' \<notin> set (show_nat (unat (start r)))" by (auto dest: show_nat_chars digit_facts)
  with True show ?thesis
    by (simp add: parse_port_part_def show_range_def split_once_None [THEN iffD2] parse_u16_show_nat
        range_single_def)
next
  case False
  have "CHR ''-'' \<notin> set (show_nat (unat (start r)))" by (auto dest: show_nat_chars digit_facts)
  then have "split_once (CHR ''-'') (show_range r) =
      Some (show_nat (unat (start r)), show_nat (unat (end_port r)))"
    using False by (simp add: show_range_def split_once_append)
  then show ?thesis by (simp add: parse_port_part_def parse_u16_show_nat range_range_def)
qed

lemma split_show_ranges: "rs \<noteq> [] \<Longrightarrow> split_on (CHR '','') (show_ranges rs) = map show_range rs"
proof (induction rs rule: show_ranges.induct)
  case (2 r)
  have "CHR '','' \<notin> set (show_range r)" by (auto dest!: show_range_chars dest: digit_facts)
  then show ?case by (simp add: split_on_none)
next
  case (3 r r' rs)
  have "CHR '','' \<notin> set (show_range r)" by (auto dest!: show_range_chars dest: digit_facts)
  with 3 show ?case by (simp add: split_on_append)
qed simp

lemma parse_port_parts_show:
  "parse_port_parts acc (map show_range rs) = Inr (acc @ rs)"
  by (induction rs arbitrary: acc) (auto simp: parse_show_range)

lemma show_ranges_no_star: "CHR ''*'' \<notin> set (show_ranges rs)"
proof (induction rs rule: show_ranges.induct)
  case (2 r)
  then show ?case by (auto dest!: show_range_chars dest: digit_facts)
next
  case (3 r r' rs)
  have "CHR ''*'' \<notin> set (show_range r)" by (auto dest!: show_range_chars dest: digit_facts)
  with 3 show ?case by simp
qed simp

text \<open>
  A non-empty list of ports and port ranges written in the documented syntax (\<open>80\<close>, \<open>80-443\<close>,
  comma separated) is parsed back to exactly those ranges.
\<close>

theorem parse_ports_roundtrip: "rs \<noteq> [] \<Longrightarrow> parse_ports (show_ranges rs) = Inr (Ports rs)"
proof -
  assume rs: "rs \<noteq> []"
  have "show_ranges rs \<noteq> ''*''" using show_ranges_no_star [of rs] by (metis list.set_intros(1))
  with rs show ?thesis by (simp add: parse_ports_def split_show_ranges parse_port_parts_show)
qed

theorem parse_ports_roundtrip_witness:
  "parse_ports ''80,443,8080-8090'' =
     Inr (Ports [range_single 80, range_single 443, range_range 8080 8090])"
proof -
  let ?rs = "[range_single 80, range_single 443, range_range 8080 8090]"
  have "show_ranges ?rs = ''80,443,8080-8090''"
    by (simp add: show_range_def range_single_def range_range_def show_nat.simps char_of_def
        bit_0)
  with parse_ports_roundtrip [of ?rs] show ?thesis by simp
qed

section \<open>Destinations in brackets\<close>

text \<open>
  A destination whose host is an IPv6 literal in brackets keeps its brackets when it is handed
  to the target parser. With a network parser that rejects bracketed text, as the one of \<open>ipnet\<close> does,
  the target is a host alias named with the brackets, never an address.
\<close>

theorem parse_dst_bracketed_is_alias:
  assumes "CHR '']'' \<notin> set h" "CHR ''@'' \<notin> set h"
    and "net_from_str api (''['' @ h @ '']'') = None" "parse_ports ps = Inr pset"
  shows "parse_dst api (''['' @ h @ '']:'' @ ps) =
    Inr \<lparr>host = HostAlias (''['' @ h @ '']''), ports = pset\<rparr>"
proof -
  have f: "find_char (CHR '']'') (CHR ''['' # h @ CHR '']'' # CHR '':'' # ps) = Some (Suc (length h))"
    using assms(1) find_char_append [of "CHR '']''" "CHR ''['' # h"] by simp
  have t: "parse_target api (CHR ''['' # h @ '']'') = HostAlias (CHR ''['' # h @ '']'')"
    using assms(2,3) by (simp add: parse_target_def strip_prefix_def parse_ip_addr_bracket)
  show ?thesis
    using f t assms(4) by (simp add: parse_dst_def starts_with_def strip_prefix_def)
qed

theorem parse_dst_bracketed_is_alias_witness:
  "parse_dst ex_api ''[::1]:80'' = Inr \<lparr>host = HostAlias ''[::1]'', ports = Ports [range_single 80]\<rparr>"
proof -
  have "net_from_str ex_api (''['' @ ''::1'' @ '']'') = None" by code_simp
  moreover have "parse_ports ''80'' = Inr (Ports [range_single 80])" by code_simp
  ultimately have "parse_dst ex_api (''['' @ ''::1'' @ '']:'' @ ''80'') =
      Inr \<lparr>host = HostAlias (''['' @ ''::1'' @ '']''), ports = Ports [range_single 80]\<rparr>"
    by (intro parse_dst_bracketed_is_alias) simp_all
  then show ?thesis by simp
qed

end
