(* ===== verification/Acl_Eval.thy ===== *)
theory Acl_Eval
  imports Acl_Model
begin

text \<open>
  The ACL evaluator, the SSH evaluator (\<open>crates/runesh-acl/src/eval.rs\<close>) and the policy diff
  (\<open>crates/runesh-acl/src/diff.rs\<close>).

  A \<open>GroupResolver\<close> is an optional function from group names to members. The loop over the rules is
  \<open>rule_walk\<close>, one rule is decided by \<open>rule_check\<close> (protocol, then source, then the destinations in
  order, of which the first unsupported one aborts the walk with an error). Both evaluators are
  instances of the interface \<open>first_match\<close>.
\<close>

section \<open>Protocols\<close>

datatype proto_kind = Tcp | Udp | Icmp | Sctp | Number u8

definition parse_rule_field :: "string \<Rightarrow> proto_kind option" where
  "parse_rule_field raw =
     (let s = to_ascii_lowercase (trim raw) in
      if s = '''' \<or> s = ''*'' \<or> s = ''any'' then None
      else if s = ''tcp'' then Some Tcp
      else if s = ''udp'' then Some Udp
      else if s = ''icmp'' then Some Icmp
      else if s = ''sctp'' then Some Sctp
      else map_option Number (parse_u8 s))"

definition proto_rule_matches :: "proto_kind option \<Rightarrow> proto_kind option \<Rightarrow> bool" where
  "proto_rule_matches rule ctx =
     (case (rule, ctx) of
        (Some a, Some b) \<Rightarrow> a = b
      | _ \<Rightarrow> True)"

section \<open>Contexts, results and the evaluator\<close>

record eval_context =
  src_user :: "string option"
  src_groups :: "string list"
  src_tags :: "string list"
  src_ip :: ip_addr
  dst_ip :: ip_addr
  dst_tags :: "string list"
  dst_port :: u16
  dst_user :: "string option"
  ctx_proto :: "proto_kind option"

definition default_context :: eval_context where
  "default_context = \<lparr>src_user = None, src_groups = [], src_tags = [], src_ip = V4 0, dst_ip = V4 0,
     dst_tags = [], dst_port = 0, dst_user = None, ctx_proto = None\<rparr>"

record acl_eval_result =
  allowed :: bool
  matching_rule :: "nat option"
  result_action :: "acl_action option"

definition default_deny :: acl_eval_result where
  "default_deny = \<lparr>allowed = False, matching_rule = None, result_action = None\<rparr>"

record acl_evaluator =
  ev_policy :: acl_policy
  group_resolver :: "(string \<Rightarrow> string list) option"

definition evaluator_new :: "acl_policy \<Rightarrow> acl_evaluator" where
  "evaluator_new policy = \<lparr>ev_policy = policy, group_resolver = None\<rparr>"

definition with_group_resolver :: "(string \<Rightarrow> string list) \<Rightarrow> acl_evaluator \<Rightarrow> acl_evaluator" where
  "with_group_resolver resolver ev = ev\<lparr>group_resolver := Some resolver\<rparr>"

definition matches_source :: "'net ipnet_api \<Rightarrow> acl_policy \<Rightarrow> 'net acl_target \<Rightarrow> eval_context \<Rightarrow> bool" where
  "matches_source api policy tgt ctx =
     (case tgt of
        AnyTarget \<Rightarrow> True
      | User user \<Rightarrow> src_user ctx = Some user
      | Group grp \<Rightarrow>
          if grp \<in> set (src_groups ctx) then True
          else (case src_user ctx of
                  Some user \<Rightarrow>
                    (case resolve_group policy grp of
                       Inr members \<Rightarrow> user \<in> set members
                     | Inl _ \<Rightarrow> False)
                | None \<Rightarrow> False)
      | Tag tag \<Rightarrow> list_ex (\<lambda>t. t = tag) (src_tags ctx)
      | Ip ip \<Rightarrow> src_ip ctx = ip
      | Cidr net \<Rightarrow> net_contains api net (src_ip ctx)
      | HostAlias name \<Rightarrow>
          (case resolve_host api policy name of
             Inr net \<Rightarrow> net_contains api net (src_ip ctx)
           | Inl _ \<Rightarrow> False)
      | Autogroup name \<Rightarrow>
          if name = ''member'' then src_user ctx \<noteq> None
          else if name = ''tagged'' then src_tags ctx \<noteq> []
          else False)"

definition dst_group_message :: "string \<Rightarrow> string" where
  "dst_group_message grp =
     ''group '' @ CHR 0x27 # grp @ CHR 0x27 # '' in dst position requires a GroupResolver; '' @
     ''call AclEvaluator::with_group_resolver or evaluate via AclPolicy::evaluate_permissive''"

definition matches_destination ::
    "'net ipnet_api \<Rightarrow> acl_evaluator \<Rightarrow> 'net dst_target \<Rightarrow> eval_context \<Rightarrow> acl_error + bool" where
  "matches_destination api ev d ctx =
     rbind
       (case host d of
          AnyTarget \<Rightarrow> Inr True
        | Tag tag \<Rightarrow> Inr (list_ex (\<lambda>t. t = tag) (dst_tags ctx))
        | Ip ip \<Rightarrow> Inr (dst_ip ctx = ip)
        | Cidr net \<Rightarrow> Inr (net_contains api net (dst_ip ctx))
        | HostAlias name \<Rightarrow>
            Inr (case resolve_host api (ev_policy ev) name of
                   Inr net \<Rightarrow> net_contains api net (dst_ip ctx)
                 | Inl _ \<Rightarrow> False)
        | User user \<Rightarrow> Inr (dst_user ctx = Some user)
        | Group grp \<Rightarrow>
            rbind
              (case group_resolver ev of
                 Some resolver \<Rightarrow> Inr (resolver grp)
               | None \<Rightarrow>
                   if hm_contains (groups (ev_policy ev)) grp then
                     Inr (case resolve_group (ev_policy ev) grp of Inr ms \<Rightarrow> ms | Inl _ \<Rightarrow> [])
                   else Inl (UnsupportedTargetInPosition (dst_group_message grp)))
              (\<lambda>members.
                 Inr (case dst_user ctx of
                        Some u \<Rightarrow> list_ex (\<lambda>m. m = u) members
                      | None \<Rightarrow> False))
        | Autogroup name \<Rightarrow>
            Inr (if name = ''internet'' then True
                 else if name = ''self'' then src_ip ctx = dst_ip ctx
                 else False))
       (\<lambda>host_matches. Inr (host_matches \<and> ports_contain (ports d) (dst_port ctx)))"

fun dst_loop :: "'net ipnet_api \<Rightarrow> acl_evaluator \<Rightarrow> eval_context \<Rightarrow> string list \<Rightarrow> acl_error + bool" where
  "dst_loop api ev ctx [] = Inr False"
| "dst_loop api ev ctx (d # ds) =
     (case parse_dst api d of
        Inl _ \<Rightarrow> dst_loop api ev ctx ds
      | Inr t \<Rightarrow>
          rbind (matches_destination api ev t ctx) (\<lambda>m.
            if m then Inr True else dst_loop api ev ctx ds))"

definition rule_check ::
    "'net ipnet_api \<Rightarrow> acl_evaluator \<Rightarrow> eval_context \<Rightarrow> acl_rule \<Rightarrow> acl_error + bool" where
  "rule_check api ev ctx rule =
     (let rule_proto = Option.bind (proto rule) parse_rule_field in
      if \<not> proto_rule_matches rule_proto (ctx_proto ctx) then Inr False
      else if \<not> list_ex (\<lambda>s. matches_source api (ev_policy ev) (parse_target api s) ctx) (src rule)
      then Inr False
      else dst_loop api ev ctx (dst rule))"

fun rule_walk ::
    "'net ipnet_api \<Rightarrow> acl_evaluator \<Rightarrow> eval_context \<Rightarrow> nat \<Rightarrow> acl_rule list \<Rightarrow>
       acl_error + (nat \<times> acl_rule) option" where
  "rule_walk api ev ctx i [] = Inr None"
| "rule_walk api ev ctx i (r # rs) =
     rbind (rule_check api ev ctx r) (\<lambda>m.
       if m then Inr (Some (i, r)) else rule_walk api ev ctx (Suc i) rs)"

definition try_evaluate :: "'net ipnet_api \<Rightarrow> acl_evaluator \<Rightarrow> eval_context \<Rightarrow> acl_error + acl_eval_result" where
  "try_evaluate api ev ctx =
     rbind (rule_walk api ev ctx 0 (acls (ev_policy ev))) (\<lambda>hit.
       case hit of
         None \<Rightarrow> Inr default_deny
       | Some (i, rule) \<Rightarrow>
           Inr \<lparr>allowed = (action rule = Accept), matching_rule = Some i,
                result_action = Some (action rule)\<rparr>)"

definition evaluate_permissive :: "'net ipnet_api \<Rightarrow> acl_policy \<Rightarrow> eval_context \<Rightarrow> acl_eval_result" where
  "evaluate_permissive api policy ctx =
     (case try_evaluate api (evaluator_new policy) ctx of Inr r \<Rightarrow> r | Inl _ \<Rightarrow> default_deny)"

definition evaluate :: "'net ipnet_api \<Rightarrow> acl_policy \<Rightarrow> eval_context \<Rightarrow> acl_eval_result" where
  "evaluate api policy ctx = evaluate_permissive api policy ctx"

section \<open>SSH\<close>

datatype ssh_decision = DecideAccept | DecideCheck | DecideDeny

record ssh_eval_context =
  sc_src_user :: "string option"
  sc_src_groups :: "string list"
  sc_src_ip :: ip_addr
  sc_dst_ip :: ip_addr
  sc_dst_tags :: "string list"
  sc_ssh_user :: string

definition ssh_src_context :: "ssh_eval_context \<Rightarrow> eval_context" where
  "ssh_src_context ctx = default_context\<lparr>src_user := sc_src_user ctx,
     src_groups := sc_src_groups ctx, src_ip := sc_src_ip ctx\<rparr>"

definition ssh_src_matches :: "'net ipnet_api \<Rightarrow> acl_policy \<Rightarrow> ssh_eval_context \<Rightarrow> ssh_rule \<Rightarrow> bool" where
  "ssh_src_matches api policy ctx rule =
     list_ex (\<lambda>s. matches_source api policy (parse_target api s) (ssh_src_context ctx)) (ssh_src rule)"

definition ssh_dst_matches :: "'net ipnet_api \<Rightarrow> acl_policy \<Rightarrow> ssh_eval_context \<Rightarrow> ssh_rule \<Rightarrow> bool" where
  "ssh_dst_matches api policy ctx rule =
     list_ex (\<lambda>d. case parse_target api d of
         AnyTarget \<Rightarrow> True
       | Tag tag \<Rightarrow> list_ex (\<lambda>t. t = tag) (sc_dst_tags ctx)
       | Ip ip \<Rightarrow> sc_dst_ip ctx = ip
       | Cidr net \<Rightarrow> net_contains api net (sc_dst_ip ctx)
       | HostAlias name \<Rightarrow>
           (case resolve_host api policy name of
              Inr net \<Rightarrow> net_contains api net (sc_dst_ip ctx)
            | Inl _ \<Rightarrow> False)
       | _ \<Rightarrow> False) (ssh_dst rule)"

definition ssh_user_matches :: "ssh_eval_context \<Rightarrow> ssh_rule \<Rightarrow> bool" where
  "ssh_user_matches ctx rule =
     list_ex (\<lambda>u. u = ''*'' \<or> eq_ignore_ascii_case u (sc_ssh_user ctx) \<or>
       u = ''autogroup:nonroot'' \<and> sc_ssh_user ctx \<noteq> ''root'') (users rule)"

definition ssh_rule_check :: "'net ipnet_api \<Rightarrow> acl_policy \<Rightarrow> ssh_eval_context \<Rightarrow> ssh_rule \<Rightarrow> bool" where
  "ssh_rule_check api policy ctx rule =
     (if \<not> ssh_src_matches api policy ctx rule then False
      else if \<not> ssh_dst_matches api policy ctx rule then False
      else ssh_user_matches ctx rule)"

fun ssh_walk ::
    "'net ipnet_api \<Rightarrow> acl_policy \<Rightarrow> ssh_eval_context \<Rightarrow> nat \<Rightarrow> ssh_rule list \<Rightarrow>
       unit + (nat \<times> ssh_rule) option" where
  "ssh_walk api policy ctx i [] = Inr None"
| "ssh_walk api policy ctx i (r # rs) =
     (if ssh_rule_check api policy ctx r then Inr (Some (i, r)) else ssh_walk api policy ctx (Suc i) rs)"

definition ssh_evaluate :: "'net ipnet_api \<Rightarrow> acl_policy \<Rightarrow> ssh_eval_context \<Rightarrow> ssh_decision" where
  "ssh_evaluate api policy ctx =
     (case ssh_walk api policy ctx 0 (ssh policy) of
        Inr (Some (i, rule)) \<Rightarrow>
          (case ssh_action_of rule of SshAccept \<Rightarrow> DecideAccept | SshCheck \<Rightarrow> DecideCheck)
      | _ \<Rightarrow> DecideDeny)"

section \<open>Policy diff\<close>

record active_session =
  as_src_user :: "string option"
  as_src_groups :: "string list"
  as_src_tags :: "string list"
  as_src_ip :: ip_addr
  as_dst_ip :: ip_addr
  as_dst_tags :: "string list"
  as_dst_port :: u16
  as_label :: string

definition to_eval_context :: "active_session \<Rightarrow> eval_context" where
  "to_eval_context s = \<lparr>src_user = as_src_user s, src_groups = as_src_groups s, src_tags = as_src_tags s,
     src_ip = as_src_ip s, dst_ip = as_dst_ip s, dst_tags = as_dst_tags s, dst_port = as_dst_port s,
     dst_user = None, ctx_proto = None\<rparr>"

datatype session_effect = StillAllowed | StillDenied | WillDrop | WillAllow

record acl_diff_entry =
  de_session :: string
  effect :: session_effect
  old_rule :: "nat option"
  new_rule :: "nat option"

definition session_effect_of :: "bool \<Rightarrow> bool \<Rightarrow> session_effect" where
  "session_effect_of was now =
     (case (was, now) of
        (True, True) \<Rightarrow> StillAllowed
      | (False, False) \<Rightarrow> StillDenied
      | (True, False) \<Rightarrow> WillDrop
      | (False, True) \<Rightarrow> WillAllow)"

definition diff_entry ::
    "'net ipnet_api \<Rightarrow> acl_policy \<Rightarrow> acl_policy \<Rightarrow> active_session \<Rightarrow> acl_diff_entry option" where
  "diff_entry api old new session =
     (let ctx = to_eval_context session;
          old_result = evaluate api old ctx;
          new_result = evaluate api new ctx;
          e = session_effect_of (allowed old_result) (allowed new_result)
      in if e = StillAllowed \<or> e = StillDenied then None
         else Some \<lparr>de_session = as_label session, effect = e, old_rule = matching_rule old_result,
                    new_rule = matching_rule new_result\<rparr>)"

definition compute_diff ::
    "'net ipnet_api \<Rightarrow> acl_policy \<Rightarrow> acl_policy \<Rightarrow> active_session list \<Rightarrow> acl_diff_entry list" where
  "compute_diff api old new sessions = List.map_filter (diff_entry api old new) sessions"

definition dropped_count :: "acl_diff_entry list \<Rightarrow> nat" where
  "dropped_count es = length (filter (\<lambda>e. effect e = WillDrop) es)"

definition allowed_count :: "acl_diff_entry list \<Rightarrow> nat" where
  "allowed_count es = length (filter (\<lambda>e. effect e = WillAllow) es)"

definition diff_is_empty :: "acl_diff_entry list \<Rightarrow> bool" where
  "diff_is_empty es = (es = [])"

definition diff_summary :: "acl_diff_entry list \<Rightarrow> string" where
  "diff_summary es =
     (let d = dropped_count es; a = allowed_count es in
      if d = 0 \<and> a = 0 then ''No sessions affected.''
      else if a = 0 then show_nat d @ '' sessions will be dropped.''
      else if d = 0 then show_nat a @ '' sessions will be newly allowed.''
      else show_nat d @ '' sessions will be dropped, '' @ show_nat a @ '' newly allowed.'')"

section \<open>First match wins\<close>

interpretation acl_rules: first_match "rule_check api ev ctx" "rule_walk api ev ctx" for api ev ctx
  by unfold_locales auto

interpretation ssh_rules: first_match "\<lambda>r. Inr (ssh_rule_check api policy ctx r)" "ssh_walk api policy ctx"
  for api policy ctx
  by unfold_locales auto

text \<open>
  C1. A connection is allowed exactly when some accept rule matches it and every rule before that
  one was examined and did not match: the first matching rule wins, an error before it denies, and
  without a match the answer is denial.
\<close>

theorem evaluate_allowed_iff:
  "allowed (evaluate api p ctx) \<longleftrightarrow>
     (\<exists>i < length (acls p). action (acls p ! i) = Accept \<and>
        rule_check api (evaluator_new p) ctx (acls p ! i) = Inr True \<and>
        (\<forall>j < i. rule_check api (evaluator_new p) ctx (acls p ! j) = Inr False))"
proof (cases "rule_walk api (evaluator_new p) ctx 0 (acls p)")
  case (Inl e)
  then obtain k where "k < length (acls p)" "rule_check api (evaluator_new p) ctx (acls p ! k) = Inl e"
      "\<forall>k' < k. rule_check api (evaluator_new p) ctx (acls p ! k') = Inr False"
    unfolding acl_rules.walk_Inl_iff by blast
  with Inl show ?thesis
    by (auto simp: evaluate_def evaluate_permissive_def try_evaluate_def evaluator_new_def default_deny_def)
      (metis linorder_neqE_nat sum.distinct(1) sum.inject(2))
next
  case (Inr hit)
  show ?thesis
  proof (cases hit)
    case None
    with Inr have "\<forall>r \<in> set (acls p). rule_check api (evaluator_new p) ctx r = Inr False"
      by (simp add: acl_rules.walk_None_iff)
    with Inr None show ?thesis
      by (auto simp: evaluate_def evaluate_permissive_def try_evaluate_def evaluator_new_def default_deny_def)
  next
    case (Some m)
    then obtain k where k: "k < length (acls p)" "m = (k, acls p ! k)"
        "rule_check api (evaluator_new p) ctx (acls p ! k) = Inr True"
        "\<forall>k' < k. rule_check api (evaluator_new p) ctx (acls p ! k') = Inr False"
      using Inr by (cases m) (auto simp: acl_rules.walk_Some_iff)
    with Inr Some show ?thesis
      by (auto simp: evaluate_def evaluate_permissive_def try_evaluate_def evaluator_new_def)
        (metis linorder_neqE_nat sum.inject(2))
  qed
qed

definition ex_rule_any :: acl_rule where
  "ex_rule_any = \<lparr>action = Accept, src = [''*''], dst = [''*:*''], proto = None\<rparr>"

definition ex_rule_no_ssh :: acl_rule where
  "ex_rule_no_ssh = \<lparr>action = Deny, src = [''*''], dst = [''*:22''], proto = None\<rparr>"

lemma ex_api_dst:
  "parse_dst ex_api ''group:ops:22'' =
     Inr \<lparr>host = Group ''group:ops'', ports = Ports [\<lparr>start = 22, end_port = 22\<rparr>]\<rparr>"
  "parse_dst ex_api ''*:22'' = Inr \<lparr>host = AnyTarget, ports = Ports [\<lparr>start = 22, end_port = 22\<rparr>]\<rparr>"
  "parse_dst ex_api ''*:*'' = Inr \<lparr>host = AnyTarget, ports = AnyPort\<rparr>"
  "parse_target ex_api ''*'' = AnyTarget"
  by code_simp+

theorem evaluate_allowed_iff_witness:
  "allowed (evaluate ex_api (default_policy\<lparr>acls := [ex_rule_no_ssh, ex_rule_any]\<rparr>)
     (default_context\<lparr>dst_port := 80\<rparr>)) \<and>
   \<not> allowed (evaluate ex_api (default_policy\<lparr>acls := [ex_rule_no_ssh, ex_rule_any]\<rparr>)
     (default_context\<lparr>dst_port := 22\<rparr>))"
proof -
  let ?p = "default_policy\<lparr>acls := [ex_rule_no_ssh, ex_rule_any]\<rparr>"
  have c: "rule_check ex_api (evaluator_new ?p) (default_context\<lparr>dst_port := 80\<rparr>) ex_rule_no_ssh = Inr False"
    "rule_check ex_api (evaluator_new ?p) (default_context\<lparr>dst_port := 80\<rparr>) ex_rule_any = Inr True"
    "rule_check ex_api (evaluator_new ?p) (default_context\<lparr>dst_port := 22\<rparr>) ex_rule_no_ssh = Inr True"
    by (simp_all add: rule_check_def ex_rule_any_def ex_rule_no_ssh_def ex_api_dst matches_source_def
        proto_rule_matches_def matches_destination_def ports_contain_def range_contains_def)
  have "allowed (evaluate ex_api ?p (default_context\<lparr>dst_port := 80\<rparr>))"
    unfolding evaluate_allowed_iff using c by (intro exI [of _ 1]) (simp add: ex_rule_any_def)
  moreover have "\<not> allowed (evaluate ex_api ?p (default_context\<lparr>dst_port := 22\<rparr>))"
    unfolding evaluate_allowed_iff using c(3) by (auto simp: less_Suc_eq ex_rule_no_ssh_def)
  ultimately show ?thesis ..
qed

section \<open>Errors abort the whole evaluation\<close>

text \<open>
  A destination group that no resolver knows and the policy does not declare ends the evaluation
  when its rule is the first whose protocol and source match: the strict evaluator returns the error,
  and the permissive one denies the connection, whatever the later rules say (the comment at
  \<open>evaluate\<close> promises that only this rule is skipped).
\<close>

theorem unresolved_dst_group_denies:
  assumes "acls p = pre @ r # post"
    and "\<forall>r' \<in> set pre. rule_check api (evaluator_new p) ctx r' = Inr False"
    and "proto_rule_matches (Option.bind (proto r) parse_rule_field) (ctx_proto ctx)"
    and "list_ex (\<lambda>s. matches_source api p (parse_target api s) ctx) (src r)"
    and "dst r = d # ds"
    and "parse_dst api d = Inr t"
    and "host t = Group grp"
    and "\<not> hm_contains (groups p) grp"
  shows "try_evaluate api (evaluator_new p) ctx = Inl (UnsupportedTargetInPosition (dst_group_message grp)) \<and>
         evaluate api p ctx = default_deny"
proof -
  have r: "rule_check api (evaluator_new p) ctx r = Inl (UnsupportedTargetInPosition (dst_group_message grp))"
    using assms by (simp add: rule_check_def Let_def evaluator_new_def matches_destination_def)
  have "rule_walk api (evaluator_new p) ctx 0 pre = Inr None"
    using assms(2) by (simp add: acl_rules.walk_None_iff)
  from acl_rules.walk_append_miss [OF this, of "r # post"] r
  have "rule_walk api (evaluator_new p) ctx 0 (acls p) =
      Inl (UnsupportedTargetInPosition (dst_group_message grp))"
    by (simp add: assms(1))
  then show ?thesis
    by (simp add: try_evaluate_def evaluate_def evaluate_permissive_def evaluator_new_def)
qed

definition ex_rule_group :: acl_rule where
  "ex_rule_group = \<lparr>action = Accept, src = [''*''], dst = [''group:ops:22''], proto = None\<rparr>"

theorem unresolved_dst_group_denies_witness:
  "evaluate ex_api (default_policy\<lparr>acls := [ex_rule_group, ex_rule_any]\<rparr>) default_context = default_deny \<and>
   allowed (evaluate ex_api (default_policy\<lparr>acls := [ex_rule_any]\<rparr>) default_context)"
proof -
  have "evaluate ex_api (default_policy\<lparr>acls := [ex_rule_group, ex_rule_any]\<rparr>) default_context = default_deny"
    using unresolved_dst_group_denies [of "default_policy\<lparr>acls := [ex_rule_group, ex_rule_any]\<rparr>" "[]"
        ex_rule_group "[ex_rule_any]" ex_api default_context "''group:ops:22''" "[]" _ "''group:ops''"]
    by (simp add: ex_api_dst ex_rule_group_def default_policy_def matches_source_def
        proto_rule_matches_def hm_contains_def)
  moreover have "allowed (evaluate ex_api (default_policy\<lparr>acls := [ex_rule_any]\<rparr>) default_context)"
    by (simp add: evaluate_def evaluate_permissive_def try_evaluate_def rule_check_def evaluator_new_def
        ex_rule_any_def ex_api_dst matches_source_def proto_rule_matches_def default_policy_def
        matches_destination_def ports_contain_def)
  ultimately show ?thesis ..
qed

text \<open>
  A rule whose \<open>proto\<close> field is neither a known name nor a number in 0..255 (a misspelling, or
  \<open>gre\<close>) behaves as a rule without a \<open>proto\<close>: it matches every protocol.
\<close>

theorem unknown_proto_matches_all:
  assumes "to_ascii_lowercase (trim s) \<notin> {''tcp'', ''udp'', ''icmp'', ''sctp''}"
    and "parse_u8 (to_ascii_lowercase (trim s)) = None"
  shows "rule_check api ev ctx (r\<lparr>proto := Some s\<rparr>) = rule_check api ev ctx (r\<lparr>proto := None\<rparr>)"
proof -
  have "parse_rule_field s = None"
    using assms by (simp add: parse_rule_field_def Let_def)
  then show ?thesis by (simp add: rule_check_def)
qed

theorem unknown_proto_matches_all_witness:
  "rule_check ex_api (evaluator_new default_policy) (default_context\<lparr>ctx_proto := Some Udp\<rparr>)
     (ex_rule_any\<lparr>proto := Some ''tpc''\<rparr>) = Inr True"
proof -
  have "to_ascii_lowercase (trim ''tpc'') \<notin> {''tcp'', ''udp'', ''icmp'', ''sctp''}"
    "parse_u8 (to_ascii_lowercase (trim ''tpc'')) = None"
    by code_simp+
  from unknown_proto_matches_all [OF this, of ex_api "evaluator_new default_policy"
      "default_context\<lparr>ctx_proto := Some Udp\<rparr>" ex_rule_any]
  have "rule_check ex_api (evaluator_new default_policy) (default_context\<lparr>ctx_proto := Some Udp\<rparr>)
     (ex_rule_any\<lparr>proto := Some ''tpc''\<rparr>) =
    rule_check ex_api (evaluator_new default_policy) (default_context\<lparr>ctx_proto := Some Udp\<rparr>)
     (ex_rule_any\<lparr>proto := None\<rparr>)" .
  also have "\<dots> = Inr True"
    by (simp add: rule_check_def ex_rule_any_def ex_api_dst matches_source_def proto_rule_matches_def
        matches_destination_def ports_contain_def)
  finally show ?thesis .
qed

section \<open>The SSH evaluator\<close>

lemma ssh_evaluate_Deny_iff:
  "ssh_evaluate api p ctx = DecideDeny \<longleftrightarrow> (\<forall>r \<in> set (ssh p). \<not> ssh_rule_check api p ctx r)"
proof (cases "ssh_walk api p ctx 0 (ssh p)")
  case (Inl u)
  then show ?thesis by (auto simp: ssh_rules.walk_Inl_iff)
next
  case (Inr hit)
  then show ?thesis
    using ssh_rules.walk_None_iff [of api p ctx 0 "ssh p"]
    by (auto simp: ssh_evaluate_def split: option.splits ssh_action.splits)
qed

text \<open>
  The SSH evaluator never lets anybody in as \<open>root\<close> through \<open>autogroup:nonroot\<close>: if no rule
  lists \<open>*\<close> or a spelling of \<open>root\<close> among its users, a login as \<open>root\<close> is denied.
\<close>

theorem ssh_root_denied:
  assumes "\<forall>r \<in> set (ssh p). \<forall>u \<in> set (users r). u \<noteq> ''*'' \<and> to_ascii_lowercase u \<noteq> ''root''"
    and "sc_ssh_user ctx = ''root''"
  shows "ssh_evaluate api p ctx = DecideDeny"
proof -
  have "to_ascii_lowercase ''root'' = ''root''" by code_simp
  then have "\<not> ssh_user_matches ctx r" if "r \<in> set (ssh p)" for r
    using assms that by (auto simp: ssh_user_matches_def list_ex_iff eq_ignore_ascii_case_def)
  then show ?thesis by (simp add: ssh_evaluate_Deny_iff ssh_rule_check_def)
qed

definition ex_ssh_rule :: ssh_rule where
  "ex_ssh_rule = \<lparr>ssh_action_of = SshAccept, ssh_src = [''*''], ssh_dst = [''*''],
     users = [''autogroup:nonroot''], check_period = None, accept_env = None\<rparr>"

definition ex_ssh_context :: ssh_eval_context where
  "ex_ssh_context = \<lparr>sc_src_user = Some ''alice'', sc_src_groups = [], sc_src_ip = V4 1, sc_dst_ip = V4 2,
     sc_dst_tags = [], sc_ssh_user = ''root''\<rparr>"

theorem ssh_root_denied_witness:
  "ssh_evaluate ex_api (default_policy\<lparr>ssh := [ex_ssh_rule]\<rparr>) ex_ssh_context = DecideDeny \<and>
   ssh_evaluate ex_api (default_policy\<lparr>ssh := [ex_ssh_rule]\<rparr>)
     (ex_ssh_context\<lparr>sc_ssh_user := ''bob''\<rparr>) = DecideAccept"
proof -
  have "ssh_evaluate ex_api (default_policy\<lparr>ssh := [ex_ssh_rule]\<rparr>) ex_ssh_context = DecideDeny"
    by (rule ssh_root_denied) (simp add: ex_ssh_rule_def ex_ssh_context_def to_ascii_lowercase_def)+
  moreover have "ssh_evaluate ex_api (default_policy\<lparr>ssh := [ex_ssh_rule]\<rparr>)
      (ex_ssh_context\<lparr>sc_ssh_user := ''bob''\<rparr>) = DecideAccept"
    by code_simp
  ultimately show ?thesis ..
qed

text \<open>
  An SSH rule whose sources are all tags never applies: the source context is built without the
  tags of the device (\<open>SshEvalContext\<close> has none), so a policy made of such rules denies every login.
\<close>

theorem ssh_tag_sources_denied:
  assumes "\<forall>r \<in> set (ssh p). \<forall>s \<in> set (ssh_src r). starts_with ''tag:'' s"
  shows "ssh_evaluate api p ctx = DecideDeny"
proof -
  have "parse_target api s = Tag s" if "starts_with ''tag:'' s" for s
    using that by (auto simp: parse_target_def starts_with_def strip_prefix_def elim!: prefixE)
  then have "\<not> ssh_src_matches api p ctx r" if "r \<in> set (ssh p)" for r
    using assms that
    by (auto simp: ssh_src_matches_def list_ex_iff matches_source_def ssh_src_context_def default_context_def)
  then show ?thesis by (simp add: ssh_evaluate_Deny_iff ssh_rule_check_def)
qed

theorem ssh_tag_sources_denied_witness:
  "ssh_evaluate ex_api (default_policy\<lparr>ssh := [ex_ssh_rule\<lparr>ssh_src := [''tag:ops'']\<rparr>]\<rparr>)
     (ex_ssh_context\<lparr>sc_ssh_user := ''bob''\<rparr>) = DecideDeny"
  by (rule ssh_tag_sources_denied) (simp add: starts_with_def)

section \<open>The diff reports exactly the changed sessions\<close>

text \<open>
  The diff of two policies has one entry for every session whose verdict changes and for no
  other, in the order of the sessions: it is empty exactly when no verdict changes, and its entries
  are the dropped and the newly allowed ones.
\<close>

theorem compute_diff_exact:
  "map de_session (compute_diff api old new ss) =
     map as_label (filter (\<lambda>s. allowed (evaluate api old (to_eval_context s)) \<noteq>
       allowed (evaluate api new (to_eval_context s))) ss) \<and>
   dropped_count (compute_diff api old new ss) =
     length (filter (\<lambda>s. allowed (evaluate api old (to_eval_context s)) \<and>
       \<not> allowed (evaluate api new (to_eval_context s))) ss) \<and>
   dropped_count (compute_diff api old new ss) + allowed_count (compute_diff api old new ss) =
     length (compute_diff api old new ss)"
  by (induction ss)
    (auto simp: compute_diff_def map_filter_simps diff_entry_def Let_def session_effect_of_def
      dropped_count_def allowed_count_def split: bool.splits)

end
