(* ===== verification/Coord.thy ===== *)
theory Coord
  imports Acl_Eval "HOL-Library.Product_Lexorder"
begin

text \<open>
  The coordination server's data and map builder (\<open>crates/runesh-coord/src/types.rs\<close>, \<open>mapper.rs\<close>): tag
  ownership at registration, the ports one node may reach on another, the peers and the packet filter
  a node is sent. It calls the ACL evaluator of \<open>Acl_Eval\<close>.
\<close>

section \<open>Protocol types\<close>

record node =
  n_id :: u64
  stable_id :: string
  n_name :: string
  n_key :: string
  machine_key :: string
  addresses :: "string list"
  n_allowed_ips :: "string list"
  n_endpoints :: "string list"
  n_derp :: "string option"
  n_hostname :: string
  n_os :: string
  n_tags :: "string list"
  n_online :: bool
  n_last_seen :: "string option"
  n_user :: "u64 option"
  authorized :: bool
  n_created :: "string option"
  key_expiry :: "string option"

record mesh_user =
  u_id :: u64
  login_name :: string
  display_name :: string
  roles :: "string list"

record register_request =
  node_key :: string
  rr_machine_key :: string
  rr_hostname :: string
  rr_os :: string
  auth_key :: "string option"
  rr_tags :: "string list"
  rr_endpoints :: "string list"

record dns_config =
  nameservers :: "string list"
  domains :: "string list"
  dns_routes :: "(string, string list) hash_map"
  magic_dns :: bool

record derp_node =
  dn_name :: string
  dn_region_id :: u16
  host_name :: string
  dn_ipv4 :: "string option"
  dn_ipv6 :: "string option"
  stun_port :: "u16 option"
  derp_port :: "u16 option"

record derp_region =
  region_id :: u16
  region_code :: string
  region_name :: string
  region_nodes :: "derp_node list"

record filter_port_range =
  first_port :: u16
  last_port :: u16

record dst_port_range =
  dpr_ip :: string
  dpr_ports :: filter_port_range

record filter_rule =
  src_ips :: "string list"
  dst_ports :: "dst_port_range list"

record map_response =
  mr_node :: "node option"
  mr_peers :: "node list"
  mr_dns_config :: "dns_config option"
  mr_derp_map :: "(u16, derp_region) hash_map option"
  user_profiles :: "mesh_user list"
  mr_domain :: "string option"
  packet_filter :: "filter_rule list"
  is_delta :: bool
  collect_services :: "bool option"

datatype coord_error =
    Handshake string
  | NodeNotFound string
  | NotAuthorized string
  | InvalidMachineKey
  | InvalidNodeKey
  | Registration string
  | UnauthorizedTag string
  | Serialization string
  | CoordIo
  | Snow

definition owner_allows :: "acl_policy \<Rightarrow> string \<Rightarrow> string list \<Rightarrow> string \<Rightarrow> bool" where
  "owner_allows policy identity identity_groups owner =
     (if owner = ''*'' then True
      else if owner = identity then True
      else if starts_with ''group:'' owner \<and> list_ex (\<lambda>g. g = owner) identity_groups then True
      else if starts_with ''group:'' owner then
        (case resolve_group policy owner of
           Inr members \<Rightarrow> list_ex (\<lambda>m. m = identity) members
         | Inl _ \<Rightarrow> False)
      else False)"

definition validate_tag :: "acl_policy \<Rightarrow> string \<Rightarrow> string list \<Rightarrow> string \<Rightarrow> coord_error + unit" where
  "validate_tag policy identity identity_groups tag =
     (if \<not> starts_with ''tag:'' tag then Inl (UnauthorizedTag tag)
      else case hm_get (tag_owners policy) tag of
        None \<Rightarrow> Inl (UnauthorizedTag tag)
      | Some owners \<Rightarrow>
          if \<not> list_ex (owner_allows policy identity identity_groups) owners
          then Inl (UnauthorizedTag tag) else Inr ())"

definition validate_tags ::
    "register_request \<Rightarrow> acl_policy \<Rightarrow> string \<Rightarrow> string list \<Rightarrow> coord_error + unit" where
  "validate_tags req policy identity identity_groups =
     try_each (validate_tag policy identity identity_groups) (rr_tags req)"

section \<open>The map builder\<close>

type_synonym span = "u16 \<times> u16"

record map_builder =
  nodes :: "(u64, node) hash_map"
  mb_users :: "(u64, mesh_user) hash_map"
  acl :: acl_policy
  mb_derp_map :: "(u16, derp_region) hash_map option"
  mb_dns_config :: "dns_config option"
  domain :: "string option"

definition map_builder_new :: "acl_policy \<Rightarrow> map_builder" where
  "map_builder_new policy = \<lparr>nodes = [], mb_users = [], acl = policy, mb_derp_map = None,
     mb_dns_config = None, domain = None\<rparr>"

definition upsert_node :: "node \<Rightarrow> map_builder \<Rightarrow> map_builder" where
  "upsert_node n mb = mb\<lparr>nodes := hm_insert (n_id n) n (nodes mb)\<rparr>"

definition remove_node :: "u64 \<Rightarrow> map_builder \<Rightarrow> map_builder" where
  "remove_node i mb = mb\<lparr>nodes := hm_remove i (nodes mb)\<rparr>"

definition upsert_user :: "mesh_user \<Rightarrow> map_builder \<Rightarrow> map_builder" where
  "upsert_user u mb = mb\<lparr>mb_users := hm_insert (u_id u) u (mb_users mb)\<rparr>"

definition set_acl :: "acl_policy \<Rightarrow> map_builder \<Rightarrow> map_builder" where
  "set_acl policy mb = mb\<lparr>acl := policy\<rparr>"

definition set_derp_map :: "(u16, derp_region) hash_map \<Rightarrow> map_builder \<Rightarrow> map_builder" where
  "set_derp_map m mb = mb\<lparr>mb_derp_map := Some m\<rparr>"

definition set_dns_config :: "dns_config \<Rightarrow> map_builder \<Rightarrow> map_builder" where
  "set_dns_config c mb = mb\<lparr>mb_dns_config := Some c\<rparr>"

definition set_domain :: "string \<Rightarrow> map_builder \<Rightarrow> map_builder" where
  "set_domain d mb = mb\<lparr>domain := Some d\<rparr>"

fun merge_loop :: "span list \<Rightarrow> span list \<Rightarrow> span list" where
  "merge_loop merged [] = merged"
| "merge_loop merged ((s, e) # rs) =
     (if merged \<noteq> [] \<and> s \<le> sat_add (snd (last merged)) 1 then
        (if e > snd (last merged)
         then merge_loop (butlast merged @ [(fst (last merged), e)]) rs
         else merge_loop merged rs)
      else merge_loop (merged @ [(s, e)]) rs)"

definition merge_ranges :: "span list \<Rightarrow> span list" where
  "merge_ranges ranges = (if ranges = [] then ranges else merge_loop [] (sort ranges))"

definition dst_candidates :: "'net ipnet_api \<Rightarrow> string \<Rightarrow> span list" where
  "dst_candidates api d =
     (case parse_dst api d of
        Inl _ \<Rightarrow> []
      | Inr p \<Rightarrow>
          (case ports p of
             AnyPort \<Rightarrow> [(0, 65535)]
           | Ports ranges \<Rightarrow> map (\<lambda>r. (start r, end_port r)) ranges))"

definition probe_range :: "(u16 \<Rightarrow> bool) \<Rightarrow> span \<Rightarrow> span list" where
  "probe_range ok r =
     (case r of (s, e) \<Rightarrow>
        let start_ok = ok s;
            end_ok = (if s = e then start_ok else ok e)
        in if start_ok \<and> end_ok then [(s, e)]
           else if start_ok then [(s, s)]
           else if end_ok then [(e, e)]
           else [])"

definition first_address :: "node \<Rightarrow> ip_addr option" where
  "first_address n = (case addresses n of [] \<Rightarrow> None | a # _ \<Rightarrow> parse_ip_addr a)"

definition owner_login :: "map_builder \<Rightarrow> node \<Rightarrow> string option" where
  "owner_login mb n = Option.bind (n_user n) (\<lambda>uid. map_option login_name (hm_get (mb_users mb) uid))"

definition node_context :: "map_builder \<Rightarrow> node \<Rightarrow> node \<Rightarrow> ip_addr \<Rightarrow> ip_addr \<Rightarrow> eval_context" where
  "node_context mb from to sip dip =
     \<lparr>src_user = owner_login mb from, src_groups = [], src_tags = n_tags from, src_ip = sip, dst_ip = dip,
      dst_tags = n_tags to, dst_port = 0, dst_user = owner_login mb to, ctx_proto = None\<rparr>"

definition port_ok :: "'net ipnet_api \<Rightarrow> acl_policy \<Rightarrow> eval_context \<Rightarrow> u16 \<Rightarrow> bool" where
  "port_ok api policy ctx port = allowed (evaluate api policy (ctx\<lparr>dst_port := port\<rparr>))"

definition allowed_ports :: "'net ipnet_api \<Rightarrow> map_builder \<Rightarrow> node \<Rightarrow> node \<Rightarrow> span list" where
  "allowed_ports api mb from to =
     (case first_address from of
        None \<Rightarrow> []
      | Some sip \<Rightarrow>
          (case first_address to of
             None \<Rightarrow> []
           | Some dip \<Rightarrow>
               let ok = port_ok api (acl mb) (node_context mb from to sip dip) in
               if ok 0 \<and> ok 65535 then [(0, 65535)]
               else
                 let candidates = merge_ranges (remdups_adj (sort
                       (concat (map (\<lambda>rule. concat (map (dst_candidates api) (dst rule))) (acls (acl mb))))));
                     found = concat (map (probe_range ok) candidates)
                 in merge_ranges (remdups_adj (sort found))))"

definition can_communicate :: "'net ipnet_api \<Rightarrow> map_builder \<Rightarrow> node \<Rightarrow> node \<Rightarrow> bool" where
  "can_communicate api mb from to = (allowed_ports api mb from to \<noteq> [])"

definition filter_rule_for :: "'net ipnet_api \<Rightarrow> map_builder \<Rightarrow> node \<Rightarrow> string \<Rightarrow> node \<Rightarrow> filter_rule option" where
  "filter_rule_for api mb n dip peer =
     (if n_id peer = n_id n \<or> \<not> authorized peer then None
      else case addresses peer of
        [] \<Rightarrow> None
      | sip # _ \<Rightarrow>
          let ps = allowed_ports api mb peer n in
          if ps = [] then None
          else Some \<lparr>src_ips = [sip @ ''/32''],
                     dst_ports = map (\<lambda>(s, e). \<lparr>dpr_ip = dip @ ''/32'',
                       dpr_ports = \<lparr>first_port = s, last_port = e\<rparr>\<rparr>) ps\<rparr>)"

definition build_packet_filter :: "'net ipnet_api \<Rightarrow> map_builder \<Rightarrow> node \<Rightarrow> filter_rule list" where
  "build_packet_filter api mb n =
     (case addresses n of
        [] \<Rightarrow> []
      | dip # _ \<Rightarrow> List.map_filter (filter_rule_for api mb n dip) (hm_values (nodes mb)))"

fun collect_peers ::
    "'net ipnet_api \<Rightarrow> map_builder \<Rightarrow> u64 \<Rightarrow> node \<Rightarrow> (u64, node) hash_map \<Rightarrow>
       node list \<times> mesh_user list \<Rightarrow> node list \<times> mesh_user list" where
  "collect_peers api mb node_id self [] acc = acc"
| "collect_peers api mb node_id self ((peer_id, peer) # rest) (ps, us) =
     (if peer_id = node_id \<or> \<not> authorized peer \<or> addresses peer = []
         \<or> \<not> can_communicate api mb self peer
      then collect_peers api mb node_id self rest (ps, us)
      else collect_peers api mb node_id self rest (ps @ [peer],
        (case n_user peer of
           None \<Rightarrow> us
         | Some uid \<Rightarrow>
             (case hm_get (mb_users mb) uid of
                None \<Rightarrow> us
              | Some user \<Rightarrow> if list_ex (\<lambda>u. u_id u = uid) us then us else us @ [user]))))"

definition build_map :: "'net ipnet_api \<Rightarrow> map_builder \<Rightarrow> u64 \<Rightarrow> map_response option" where
  "build_map api mb node_id =
     (case hm_get (nodes mb) node_id of
        None \<Rightarrow> None
      | Some self \<Rightarrow>
          if addresses self = [] then None
          else
            (case collect_peers api mb node_id self (nodes mb) ([], []) of (ps, us) \<Rightarrow>
               Some \<lparr>mr_node = Some self, mr_peers = ps, mr_dns_config = mb_dns_config mb,
                     mr_derp_map = mb_derp_map mb, user_profiles = us, mr_domain = domain mb,
                     packet_filter = build_packet_filter api mb self, is_delta = False,
                     collect_services = None\<rparr>))"

definition node_ids :: "map_builder \<Rightarrow> u64 list" where
  "node_ids mb = hm_keys (nodes mb)"

section \<open>Merging port ranges\<close>

definition covered :: "span list \<Rightarrow> u16 set" where
  "covered rs = {p. \<exists>(s, e) \<in> set rs. s \<le> p \<and> p \<le> e}"

lemma covered_append [simp]: "covered (rs @ rs') = covered rs \<union> covered rs'"
  by (auto simp: covered_def)

lemma covered_cong: "set rs = set rs' \<Longrightarrow> covered rs = covered rs'"
  by (simp add: covered_def)

lemma covered_Cons [simp]: "covered ((s, e) # rs) = {p. s \<le> p \<and> p \<le> e} \<union> covered rs"
  by (auto simp: covered_def)

lemma covered_Nil [simp]: "covered [] = {}"
  by (simp add: covered_def)

lemma unat_next_port: "unat (sat_add p 1) = min (unat p + 1) 65535" for p :: u16
  by (simp add: unat_sat_add)

lemma join_spans:
  fixes l0 l1 s e :: u16
  assumes "l0 \<le> s" "s \<le> sat_add l1 1"
  shows "l1 < e \<Longrightarrow> {p. l0 \<le> p \<and> p \<le> e} = {p. l0 \<le> p \<and> p \<le> l1} \<union> {p. s \<le> p \<and> p \<le> e}"
    and "\<not> l1 < e \<Longrightarrow> {p. s \<le> p \<and> p \<le> e} \<subseteq> {p. l0 \<le> p \<and> p \<le> l1}"
  using assms by (auto simp: word_le_nat_alt word_less_nat_alt unat_next_port)

lemma merge_loop_covered:
  "sorted rs \<Longrightarrow> (merged \<noteq> [] \<Longrightarrow> list_all (\<lambda>r. fst (last merged) \<le> fst r) rs) \<Longrightarrow>
     covered (merge_loop merged rs) = covered merged \<union> covered rs"
proof (induction merged rs rule: merge_loop.induct)
  case (2 merged s e rs)
  have srt: "sorted rs" and ge: "list_all (\<lambda>r. s \<le> fst r) rs"
    using "2.prems"(1) by (simp, auto simp: list_all_iff less_eq_prod_def)
  show ?case
  proof (cases "merged \<noteq> [] \<and> s \<le> sat_add (snd (last merged)) 1")
    case True
    then obtain b l0 l1 where m: "merged = b @ [(l0, l1)]"
      by (metis append_butlast_last_id prod.collapse)
    then have l: "last merged = (l0, l1)" "butlast merged = b" by simp_all
    have c: "covered merged = covered b \<union> {p. l0 \<le> p \<and> p \<le> l1}" by (simp add: m)
    have le: "l0 \<le> s" "list_all (\<lambda>r. l0 \<le> fst r) rs" "s \<le> sat_add l1 1"
      using "2.prems"(2) True l by auto
    show ?thesis
    proof (cases "l1 < e")
      case e: True
      then have "covered (merge_loop merged ((s, e) # rs)) = covered (b @ [(l0, e)]) \<union> covered rs"
        using "2.IH"(1) [OF True] l le(2) srt True by simp
      also have "\<dots> = covered b \<union> {p. l0 \<le> p \<and> p \<le> e} \<union> covered rs" by simp
      also have "\<dots> = covered merged \<union> covered ((s, e) # rs)"
        unfolding c join_spans(1) [OF le(1,3) e] covered_Cons by (simp only: Un_assoc)
      finally show ?thesis .
    next
      case False
      then have "covered (merge_loop merged ((s, e) # rs)) = covered merged \<union> covered rs"
        using "2.IH"(2) [OF True] l le(2) srt True by simp
      with c join_spans(2) [OF le(1,3) False] show ?thesis by (simp only: covered_Cons) blast
    qed
  next
    case False
    then have "covered (merge_loop merged ((s, e) # rs)) = covered (merged @ [(s, e)]) \<union> covered rs"
      using "2.IH"(3) [OF False] srt ge by (subst merge_loop.simps, subst if_not_P) simp_all
    then show ?thesis by (simp add: Un_assoc)
  qed
qed simp

lemma merge_loop_ends:
  "fst ` set (merge_loop merged rs) \<subseteq> fst ` set (merged @ rs) \<and>
   snd ` set (merge_loop merged rs) \<subseteq> snd ` set (merged @ rs)"
proof (induction merged rs rule: merge_loop.induct)
  case (2 merged s e rs)
  show ?case
  proof (cases "merged \<noteq> [] \<and> s \<le> sat_add (snd (last merged)) 1")
    case True
    then obtain b l0 l1 where m: "merged = b @ [(l0, l1)]"
      by (metis append_butlast_last_id prod.collapse)
    show ?thesis
      using 2 True unfolding m by (cases "l1 < e") (simp_all add: subset_insertI2 insert_commute, blast+)
  next
    case False
    with 2(3) show ?thesis by auto
  qed
qed simp

lemma merge_ranges_covered: "covered (merge_ranges rs) = covered rs"
proof (cases "rs = []")
  case False
  then have "covered (merge_ranges rs) = covered (sort rs)"
    using merge_loop_covered [of "sort rs" "[]"] by (simp add: merge_ranges_def)
  also have "\<dots> = covered rs" by (rule covered_cong) simp
  finally show ?thesis .
qed (simp add: merge_ranges_def)

lemma merge_ranges_ends:
  "(s, e) \<in> set (merge_ranges rs) \<Longrightarrow> s \<in> fst ` set rs \<and> e \<in> snd ` set rs"
  using merge_loop_ends [of "[]" "sort rs"] by (force simp: merge_ranges_def split: if_splits)

definition apart :: "span \<Rightarrow> span \<Rightarrow> bool" where
  "apart a b = (unat (snd a) + 1 < unat (fst b))"

lemma apart_pair: "apart a (s, e) \<longleftrightarrow> unat (snd a) + 1 < unat s"
  by (simp add: apart_def)

lemma merge_loop_apart:
  "sorted_wrt apart merged \<Longrightarrow> list_all (\<lambda>(s, e). s \<le> e) merged \<Longrightarrow> list_all (\<lambda>(s, e). s \<le> e) rs \<Longrightarrow>
     sorted_wrt apart (merge_loop merged rs)"
proof (induction merged rs rule: merge_loop.induct)
  case (2 merged s e rs)
  show ?case
  proof (cases "merged \<noteq> [] \<and> s \<le> sat_add (snd (last merged)) 1")
    case True
    then obtain b l0 l1 where m: "merged = b @ [(l0, l1)]"
      by (metis append_butlast_last_id prod.collapse)
    show ?thesis
    proof (cases "l1 < e")
      case e: True
      have "sorted_wrt apart (b @ [(l0, e)])"
        using "2.prems"(1) unfolding m by (auto simp: sorted_wrt_append apart_pair)
      moreover have "list_all (\<lambda>(s, e). s \<le> e) (b @ [(l0, e)])"
        using "2.prems"(2) e unfolding m by auto
      ultimately show ?thesis
        using "2.IH"(1) [OF True] True e "2.prems"(3) by (simp add: m)
    next
      case False
      with "2.IH"(2) [OF True] True "2.prems" show ?thesis by (simp add: m)
    qed
  next
    case False
    have "sorted_wrt apart (merged @ [(s, e)])"
    proof (cases "merged = []")
      case ne: False
      then obtain b l0 l1 where m: "merged = b @ [(l0, l1)]"
        by (metis append_butlast_last_id prod.collapse)
      have "unat s \<le> 65535" using unsigned_less [of s, where 'a = nat] by simp
      with ne False m have l: "apart (l0, l1) (s, e)"
        by (simp add: apart_pair word_le_nat_alt unat_next_port min_def split: if_splits)
      have "apart x (s, e)" if "x \<in> set b" for x
        using "2.prems"(1,2) that l unfolding m
        by (fastforce simp: sorted_wrt_append apart_pair word_le_nat_alt)
      with l "2.prems"(1) show ?thesis by (auto simp: m sorted_wrt_append)
    qed simp
    then show ?thesis
      using "2.IH"(3) [OF False] "2.prems"(2,3) by (subst merge_loop.simps, subst if_not_P [OF False]) simp
  qed
qed simp

text \<open>
  C21. Merging port ranges changes no port: the merged list covers exactly the ports of the input (also
  at the upper end, where the successor of 65535 saturates). For proper ranges the result is ascending
  with gaps of at least one port between neighbours, so it is the shortest such list.
\<close>

theorem merge_ranges_spec:
  "covered (merge_ranges rs) = covered rs \<and>
   (list_all (\<lambda>(s, e). s \<le> e) rs \<longrightarrow> sorted_wrt apart (merge_ranges rs))"
proof (intro conjI impI)
  show "covered (merge_ranges rs) = covered rs" by (rule merge_ranges_covered)
  assume "list_all (\<lambda>(s, e). s \<le> e) rs"
  then have "list_all (\<lambda>(s, e). s \<le> e) (sort rs)" by (simp add: list_all_iff)
  then show "sorted_wrt apart (merge_ranges rs)"
    by (simp add: merge_ranges_def merge_loop_apart)
qed

theorem merge_ranges_spec_witness:
  "covered (merge_ranges [(443, 443), (80, 90), (91, 100)]) = covered [(443, 443), (80, 90), (91, 100)] \<and>
   sorted_wrt apart (merge_ranges [(443, 443), (80, 90), (91, 100)])"
  using merge_ranges_spec [of "[(443, 443), (80, 90), (91, 100)]"] by simp

section \<open>Reachable ports and peers\<close>

lemma allowed_ports_ends:
  assumes "(s, e) \<in> set (allowed_ports api mb from to)"
  shows "\<exists>sip dip. first_address from = Some sip \<and> first_address to = Some dip \<and>
    port_ok api (acl mb) (node_context mb from to sip dip) s \<and>
    port_ok api (acl mb) (node_context mb from to sip dip) e"
proof -
  obtain sip dip where a: "first_address from = Some sip" "first_address to = Some dip"
    using assms by (cases "first_address from"; cases "first_address to") (auto simp: allowed_ports_def)
  define ok where "ok = port_ok api (acl mb) (node_context mb from to sip dip)"
  have p: "(s', e') \<in> set (probe_range ok r) \<Longrightarrow> ok s' \<and> ok e'" for s' e' r
    by (cases r) (auto simp: probe_range_def Let_def split: if_splits)
  have "ok s \<and> ok e"
  proof (cases "ok 0 \<and> ok 65535")
    case True
    with assms a ok_def show ?thesis by (simp add: allowed_ports_def)
  next
    case False
    then obtain cs where "(s, e) \<in> set (merge_ranges (remdups_adj (sort (concat (map (probe_range ok) cs)))))"
      using assms a ok_def by (auto simp: allowed_ports_def Let_def)
    then have "s \<in> fst ` set (concat (map (probe_range ok) cs))" "e \<in> snd ` set (concat (map (probe_range ok) cs))"
      using merge_ranges_ends by (force)+
    then show ?thesis using p by fastforce
  qed
  with a ok_def show ?thesis by blast
qed


definition ex_node :: "u64 \<Rightarrow> string \<Rightarrow> node" where
  "ex_node i a = \<lparr>n_id = i, stable_id = [], n_name = [], n_key = [], machine_key = [], addresses = [a],
     n_allowed_ips = [], n_endpoints = [], n_derp = None, n_hostname = [], n_os = [], n_tags = [],
     n_online = True, n_last_seen = None, n_user = None, authorized = True, n_created = None,
     key_expiry = None\<rparr>"

definition ex_policy :: acl_policy where
  "ex_policy = default_policy\<lparr>acls :=
     [\<lparr>action = Deny, src = [''*''], dst = [''*:85''], proto = None\<rparr>,
      \<lparr>action = Accept, src = [''*''], dst = [''*:80-90''], proto = None\<rparr>]\<rparr>"

definition ex_builder :: map_builder where
  "ex_builder = upsert_node (ex_node 2 ''10.0.0.2'') (upsert_node (ex_node 1 ''10.0.0.1'')
     (map_builder_new ex_policy))"


lemma ex_policy_dst:
  "parse_dst ex_api ''*:85'' = Inr \<lparr>host = AnyTarget, ports = Ports [\<lparr>start = 85, end_port = 85\<rparr>]\<rparr>"
  "parse_dst ex_api ''*:80-90'' = Inr \<lparr>host = AnyTarget, ports = Ports [\<lparr>start = 80, end_port = 90\<rparr>]\<rparr>"
  by code_simp+

lemma ex_addresses:
  "first_address (ex_node i ''10.0.0.1'') = Some (V4 0x0A000001)"
  "first_address (ex_node i ''10.0.0.2'') = Some (V4 0x0A000002)"
proof -
  have "parse_ip_addr ''10.0.0.1'' = Some (V4 0x0A000001)" "parse_ip_addr ''10.0.0.2'' = Some (V4 0x0A000002)"
    by code_simp+
  then show "first_address (ex_node i ''10.0.0.1'') = Some (V4 0x0A000001)"
    "first_address (ex_node i ''10.0.0.2'') = Some (V4 0x0A000002)"
    by (simp_all add: first_address_def ex_node_def)
qed

lemma ex_policy_port_ok: "port_ok ex_api ex_policy ctx p \<longleftrightarrow> p \<noteq> 85 \<and> 80 \<le> p \<and> p \<le> 90"
  by (auto simp: port_ok_def evaluate_def evaluate_permissive_def try_evaluate_def rule_check_def
      evaluator_new_def ex_policy_def ex_policy_dst ex_api_dst matches_source_def proto_rule_matches_def
      matches_destination_def ports_contain_def range_contains_def default_deny_def split: option.splits)

text \<open>
  The ranges of the packet filter are checked against the ACL only at their two ends. A policy that
  denies port 85 and then accepts 80-90 yields the range 80-90: the filter opens port 85, which the ACL
  denies.
\<close>

theorem allowed_ports_ignore_inner_ports:
  "allowed_ports ex_api ex_builder (ex_node 1 ''10.0.0.1'') (ex_node 2 ''10.0.0.2'') = [(80, 90)] \<and>
   \<not> port_ok ex_api ex_policy (node_context ex_builder (ex_node 1 ''10.0.0.1'') (ex_node 2 ''10.0.0.2'')
       (V4 0x0A000001) (V4 0x0A000002)) 85"
proof -
  have "acl ex_builder = ex_policy"
    by (simp add: ex_builder_def upsert_node_def map_builder_new_def)
  moreover have "concat (map (\<lambda>rule. concat (map (dst_candidates ex_api) (dst rule))) (acls ex_policy)) = [(85, 85), (80, 90)]"
    by (simp add: ex_policy_def dst_candidates_def ex_policy_dst)
  moreover have "merge_ranges (remdups_adj (sort [(85, 85), (80, 90)])) = [(80, 90)]"
    "merge_ranges (remdups_adj (sort [(80, 90)])) = [(80, 90)]"
    by (simp_all add: merge_ranges_def sat_add_def)
  ultimately show ?thesis
    by (simp add: allowed_ports_def ex_addresses ex_policy_port_ok probe_range_def)
qed

section \<open>Tag ownership\<close>

text \<open>
  Registration accepts the requested tags exactly when each is a \<open>tag:\<close> name with an owner list
  that names everybody, the identity, one of its groups, or a group of the policy the identity is
  resolved into; otherwise the first offending tag is reported.
\<close>

theorem validate_tags_iff:
  "validate_tags req policy identity gs = Inr () \<longleftrightarrow>
     (\<forall>tag \<in> set (rr_tags req). starts_with ''tag:'' tag \<and>
        (\<exists>owners. hm_get (tag_owners policy) tag = Some owners \<and>
          (\<exists>owner \<in> set owners. owner = ''*'' \<or> owner = identity \<or>
             starts_with ''group:'' owner \<and>
               (owner \<in> set gs \<or> (\<exists>ms. resolve_group policy owner = Inr ms \<and> identity \<in> set ms)))))"
proof -
  have o: "owner_allows policy identity gs owner \<longleftrightarrow> owner = ''*'' \<or> owner = identity \<or>
      starts_with ''group:'' owner \<and>
        (owner \<in> set gs \<or> (\<exists>ms. resolve_group policy owner = Inr ms \<and> identity \<in> set ms))" for owner
    by (auto simp: owner_allows_def list_ex_iff split: sum.splits)
  show ?thesis
    unfolding validate_tags_def try_each_eq_Inr validate_tag_def
    by (intro ball_cong refl) (auto simp: list_ex_iff o split: option.split)
qed

definition ex_request :: register_request where
  "ex_request = \<lparr>node_key = [], rr_machine_key = [], rr_hostname = [], rr_os = [], auth_key = None,
     rr_tags = [''tag:web''], rr_endpoints = []\<rparr>"

theorem validate_tags_iff_witness:
  "validate_tags ex_request (default_policy\<lparr>tag_owners := [(''tag:web'', [''alice''])]\<rparr>) ''alice'' [] = Inr () \<and>
   validate_tags ex_request default_policy ''alice'' [] \<noteq> Inr ()"
  unfolding validate_tags_iff by (simp add: ex_request_def default_policy_def starts_with_def hm_get_def)

end
