(* ===== verification/Relay_Frame.thy ===== *)
theory Relay_Frame
  imports Rust_Std
begin

text \<open>
  The DERP wire format (\<open>crates/runesh-relay/src/frame.rs\<close>, \<open>error.rs\<close>).

  A \<open>BytesMut\<close> is a list of bytes: \<open>encode_frame\<close> appends to it, \<open>decode_frame\<close> returns its result
  together with the bytes left in it. A key is a list of bytes (of length \<open>KEY_LEN\<close> wherever the code
  builds one), and the \<open>String\<close> of a health frame is the list of its UTF-8 bytes. The inner loop of
  the readers, \<open>while let Some(f) = decode_frame(buf)?\<close>, is \<open>drain\<close>; the interface \<open>stream_decoder\<close>
  states what makes it independent of how the stream is cut into reads.
\<close>

section \<open>UTF-8 as \<open>String::from_utf8_lossy\<close> reads it\<close>

definition is_cont :: "u8 \<Rightarrow> bool" where
  "is_cont b = (0x80 \<le> b \<and> b \<le> 0xBF)"

text \<open>The second byte a leading byte of a three- or four-byte sequence admits.\<close>

definition second_ok :: "u8 \<Rightarrow> u8 \<Rightarrow> bool" where
  "second_ok b0 b1 =
     (if b0 = 0xE0 then 0xA0 \<le> b1 \<and> b1 \<le> 0xBF
      else if b0 = 0xED then 0x80 \<le> b1 \<and> b1 \<le> 0x9F
      else if b0 = 0xF0 then 0x90 \<le> b1 \<and> b1 \<le> 0xBF
      else if b0 = 0xF4 then 0x80 \<le> b1 \<and> b1 \<le> 0x8F
      else is_cont b1)"

text \<open>
  The length of the next chunk and whether it is a complete character; an incomplete chunk is the
  longest prefix of a character, at least one byte.
\<close>

definition utf8_chunk :: "u8 \<Rightarrow> u8 list \<Rightarrow> bool \<times> nat" where
  "utf8_chunk b0 rest =
     (let nb = (\<lambda>i. if i < length rest then rest ! i else 0) in
      if b0 < 0x80 then (True, 1)
      else if 0xC2 \<le> b0 \<and> b0 \<le> 0xDF then (if is_cont (nb 0) then (True, 2) else (False, 1))
      else if 0xE0 \<le> b0 \<and> b0 \<le> 0xEF then
        (if \<not> second_ok b0 (nb 0) then (False, 1)
         else if \<not> is_cont (nb 1) then (False, 2)
         else (True, 3))
      else if 0xF0 \<le> b0 \<and> b0 \<le> 0xF4 then
        (if \<not> second_ok b0 (nb 0) then (False, 1)
         else if \<not> is_cont (nb 1) then (False, 2)
         else if \<not> is_cont (nb 2) then (False, 3)
         else (True, 4))
      else (False, 1))"

lemma utf8_chunk_pos: "utf8_chunk b rest = (ok, n) \<Longrightarrow> 0 < n"
  by (auto simp: utf8_chunk_def Let_def split: if_splits)

function from_utf8_lossy :: "u8 list \<Rightarrow> u8 list" where
  "from_utf8_lossy [] = []"
| "from_utf8_lossy (b # rest) =
     (case utf8_chunk b rest of (ok, n) \<Rightarrow>
        (if ok then take n (b # rest) else [0xEF, 0xBF, 0xBD]) @
        from_utf8_lossy (drop n (b # rest)))"
  by pat_completeness auto

termination from_utf8_lossy
  by (relation "measure length") (auto dest: utf8_chunk_pos [OF sym])

function valid_utf8 :: "u8 list \<Rightarrow> bool" where
  "valid_utf8 [] = True"
| "valid_utf8 (b # rest) =
     (case utf8_chunk b rest of (ok, n) \<Rightarrow> ok \<and> valid_utf8 (drop n (b # rest)))"
  by pat_completeness auto

termination valid_utf8
  by (relation "measure length") (auto dest: utf8_chunk_pos [OF sym])

lemma from_utf8_lossy_valid: "valid_utf8 bs \<Longrightarrow> from_utf8_lossy bs = bs"
  by (induction bs rule: from_utf8_lossy.induct) (auto split: prod.splits)

section \<open>Frames\<close>

type_synonym bytes = "u8 list"
type_synonym relay_key = "u8 list"

datatype relay_error =
    Io
  | InvalidFrame string
  | Disconnected
  | UnknownPeer string
  | FrameTooLarge nat nat
  | AuthFailed
  | ServerFull
  | HandshakeTimeout
  | Protocol string

definition MAX_FRAME_SIZE :: nat where
  "MAX_FRAME_SIZE = 64 * 1024"

definition KEY_LEN :: nat where
  "KEY_LEN = 32"

datatype frame_type =
    FtServerKey | FtClientInfo | FtSendPacket | FtRecvPacket | FtKeepAlive | FtNotePreferred
  | FtPeerGone | FtPeerPresent | FtWatchConns | FtClosePeer | FtPing | FtPong | FtHealth
  | FtRestarting | FtForwardPacket | FtServerChallenge

fun frame_type_as_u8 :: "frame_type \<Rightarrow> u8" where
  "frame_type_as_u8 FtServerKey = 0x01"
| "frame_type_as_u8 FtClientInfo = 0x02"
| "frame_type_as_u8 FtSendPacket = 0x04"
| "frame_type_as_u8 FtRecvPacket = 0x05"
| "frame_type_as_u8 FtKeepAlive = 0x06"
| "frame_type_as_u8 FtNotePreferred = 0x07"
| "frame_type_as_u8 FtPeerGone = 0x08"
| "frame_type_as_u8 FtPeerPresent = 0x09"
| "frame_type_as_u8 FtWatchConns = 0x0a"
| "frame_type_as_u8 FtClosePeer = 0x0b"
| "frame_type_as_u8 FtPing = 0x0c"
| "frame_type_as_u8 FtPong = 0x0d"
| "frame_type_as_u8 FtHealth = 0x0e"
| "frame_type_as_u8 FtRestarting = 0x0f"
| "frame_type_as_u8 FtForwardPacket = 0x10"
| "frame_type_as_u8 FtServerChallenge = 0x11"

definition frame_type_from_u8 :: "u8 \<Rightarrow> frame_type option" where
  "frame_type_from_u8 b =
     (if b = 0x01 then Some FtServerKey
      else if b = 0x02 then Some FtClientInfo
      else if b = 0x04 then Some FtSendPacket
      else if b = 0x05 then Some FtRecvPacket
      else if b = 0x06 then Some FtKeepAlive
      else if b = 0x07 then Some FtNotePreferred
      else if b = 0x08 then Some FtPeerGone
      else if b = 0x09 then Some FtPeerPresent
      else if b = 0x0a then Some FtWatchConns
      else if b = 0x0b then Some FtClosePeer
      else if b = 0x0c then Some FtPing
      else if b = 0x0d then Some FtPong
      else if b = 0x0e then Some FtHealth
      else if b = 0x0f then Some FtRestarting
      else if b = 0x10 then Some FtForwardPacket
      else if b = 0x11 then Some FtServerChallenge
      else None)"

datatype frame =
    ServerKey relay_key
  | ClientInfo bytes
  | SendPacket relay_key bytes
  | RecvPacket relay_key bytes
  | KeepAlive
  | NotePreferred bool
  | PeerGone relay_key
  | PeerPresent relay_key
  | WatchConns
  | ClosePeer relay_key
  | Ping bytes
  | Pong bytes
  | Health bytes
  | Restarting u32 u32
  | ForwardPacket relay_key bytes
  | ServerChallenge bytes

definition write_header :: "bytes \<Rightarrow> frame_type \<Rightarrow> nat \<Rightarrow> bytes" where
  "write_header buf ft n = buf @ [frame_type_as_u8 ft] @ u32_to_be (of_nat n)"

fun encode_frame :: "frame \<Rightarrow> bytes \<Rightarrow> bytes" where
  "encode_frame (ServerKey key) buf = write_header buf FtServerKey KEY_LEN @ key"
| "encode_frame (ClientInfo data) buf = write_header buf FtClientInfo (length data) @ data"
| "encode_frame (SendPacket dst_key data) buf =
     write_header buf FtSendPacket (KEY_LEN + length data) @ dst_key @ data"
| "encode_frame (RecvPacket src_key data) buf =
     write_header buf FtRecvPacket (KEY_LEN + length data) @ src_key @ data"
| "encode_frame KeepAlive buf = write_header buf FtKeepAlive 0"
| "encode_frame (NotePreferred preferred) buf =
     write_header buf FtNotePreferred 1 @ [if preferred then 1 else 0]"
| "encode_frame (PeerGone key) buf = write_header buf FtPeerGone KEY_LEN @ key"
| "encode_frame (PeerPresent key) buf = write_header buf FtPeerPresent KEY_LEN @ key"
| "encode_frame WatchConns buf = write_header buf FtWatchConns 0"
| "encode_frame (ClosePeer key) buf = write_header buf FtClosePeer KEY_LEN @ key"
| "encode_frame (Ping data) buf = write_header buf FtPing 8 @ data"
| "encode_frame (Pong data) buf = write_header buf FtPong 8 @ data"
| "encode_frame (Health message) buf = write_header buf FtHealth (length message) @ message"
| "encode_frame (Restarting reconnect_in_ms try_for_ms) buf =
     write_header buf FtRestarting 8 @ u32_to_be reconnect_in_ms @ u32_to_be try_for_ms"
| "encode_frame (ForwardPacket dst_key data) buf =
     write_header buf FtForwardPacket (KEY_LEN + length data) @ dst_key @ data"
| "encode_frame (ServerChallenge nonce) buf =
     write_header buf FtServerChallenge (length nonce) @ nonce"

definition read_key :: "bytes \<Rightarrow> relay_error + relay_key" where
  "read_key data =
     (if length data = KEY_LEN then Inr data
      else Inl (InvalidFrame ''expected 32 bytes for key''))"

definition keyed_payload ::
    "string \<Rightarrow> (relay_key \<Rightarrow> bytes \<Rightarrow> frame) \<Rightarrow> bytes \<Rightarrow> relay_error + frame" where
  "keyed_payload short mk payload =
     (if length payload < KEY_LEN then Inl (InvalidFrame short)
      else rbind (read_key (take KEY_LEN payload)) (\<lambda>key. Inr (mk key (drop KEY_LEN payload))))"

fun decode_payload :: "frame_type \<Rightarrow> bytes \<Rightarrow> relay_error + frame" where
  "decode_payload FtServerKey payload = rbind (read_key payload) (\<lambda>key. Inr (ServerKey key))"
| "decode_payload FtClientInfo payload = Inr (ClientInfo payload)"
| "decode_payload FtSendPacket payload = keyed_payload ''SendPacket too short'' SendPacket payload"
| "decode_payload FtRecvPacket payload = keyed_payload ''RecvPacket too short'' RecvPacket payload"
| "decode_payload FtKeepAlive payload = Inr KeepAlive"
| "decode_payload FtNotePreferred payload =
     Inr (NotePreferred ((case payload of [] \<Rightarrow> 0 | b # _ \<Rightarrow> b) \<noteq> 0))"
| "decode_payload FtPeerGone payload = rbind (read_key payload) (\<lambda>key. Inr (PeerGone key))"
| "decode_payload FtPeerPresent payload = rbind (read_key payload) (\<lambda>key. Inr (PeerPresent key))"
| "decode_payload FtWatchConns payload = Inr WatchConns"
| "decode_payload FtClosePeer payload = rbind (read_key payload) (\<lambda>key. Inr (ClosePeer key))"
| "decode_payload FtPing payload =
     (if length payload < 8 then Inl (InvalidFrame ''Ping needs 8 bytes'')
      else Inr (Ping (take 8 payload)))"
| "decode_payload FtPong payload =
     (if length payload < 8 then Inl (InvalidFrame ''Pong needs 8 bytes'')
      else Inr (Pong (take 8 payload)))"
| "decode_payload FtHealth payload = Inr (Health (from_utf8_lossy payload))"
| "decode_payload FtRestarting payload =
     (if length payload < 8 then Inl (InvalidFrame ''Restarting needs 8 bytes'')
      else Inr (Restarting
        (u32_from_be (payload ! 0) (payload ! 1) (payload ! 2) (payload ! 3))
        (u32_from_be (payload ! 4) (payload ! 5) (payload ! 6) (payload ! 7))))"
| "decode_payload FtForwardPacket payload =
     keyed_payload ''ForwardPacket too short'' ForwardPacket payload"
| "decode_payload FtServerChallenge payload = Inr (ServerChallenge payload)"

definition decode_frame :: "bytes \<Rightarrow> (relay_error + frame option) \<times> bytes" where
  "decode_frame buf =
     (if length buf < 5 then (Inr None, buf)
      else
        let frame_type = buf ! 0;
            n = unat (u32_from_be (buf ! 1) (buf ! 2) (buf ! 3) (buf ! 4))
        in if n > MAX_FRAME_SIZE then (Inl (FrameTooLarge n MAX_FRAME_SIZE), buf)
           else if length buf < 5 + n then (Inr None, buf)
           else
             let payload = take n (drop 5 buf);
                 rest = drop n (drop 5 buf)
             in (rbind
                   (ok_or (InvalidFrame (''unknown frame type: 0x'' @ hex_u8 frame_type))
                     (frame_type_from_u8 frame_type)) (\<lambda>ft.
                 rbind (decode_payload ft payload) (\<lambda>f. Inr (Some f))), rest))"

section \<open>Decoding inverts encoding\<close>

text \<open>The frames the program can hold: keys and ping data have the length of their arrays.\<close>

fun frame_wf :: "frame \<Rightarrow> bool" where
  "frame_wf (ServerKey key) = (length key = KEY_LEN)"
| "frame_wf (ClientInfo data) = (length data \<le> MAX_FRAME_SIZE)"
| "frame_wf (SendPacket key data) = (length key = KEY_LEN \<and> KEY_LEN + length data \<le> MAX_FRAME_SIZE)"
| "frame_wf (RecvPacket key data) = (length key = KEY_LEN \<and> KEY_LEN + length data \<le> MAX_FRAME_SIZE)"
| "frame_wf (PeerGone key) = (length key = KEY_LEN)"
| "frame_wf (PeerPresent key) = (length key = KEY_LEN)"
| "frame_wf (ClosePeer key) = (length key = KEY_LEN)"
| "frame_wf (Ping data) = (length data = 8)"
| "frame_wf (Pong data) = (length data = 8)"
| "frame_wf (Health message) = (length message \<le> MAX_FRAME_SIZE \<and> valid_utf8 message)"
| "frame_wf (ForwardPacket key data) = (length key = KEY_LEN \<and> KEY_LEN + length data \<le> MAX_FRAME_SIZE)"
| "frame_wf (ServerChallenge nonce) = (length nonce \<le> MAX_FRAME_SIZE)"
| "frame_wf _ = True"

fun frame_parts :: "frame \<Rightarrow> frame_type \<times> bytes" where
  "frame_parts (ServerKey key) = (FtServerKey, key)"
| "frame_parts (ClientInfo data) = (FtClientInfo, data)"
| "frame_parts (SendPacket key data) = (FtSendPacket, key @ data)"
| "frame_parts (RecvPacket key data) = (FtRecvPacket, key @ data)"
| "frame_parts KeepAlive = (FtKeepAlive, [])"
| "frame_parts (NotePreferred p) = (FtNotePreferred, [if p then 1 else 0])"
| "frame_parts (PeerGone key) = (FtPeerGone, key)"
| "frame_parts (PeerPresent key) = (FtPeerPresent, key)"
| "frame_parts WatchConns = (FtWatchConns, [])"
| "frame_parts (ClosePeer key) = (FtClosePeer, key)"
| "frame_parts (Ping data) = (FtPing, data)"
| "frame_parts (Pong data) = (FtPong, data)"
| "frame_parts (Health message) = (FtHealth, message)"
| "frame_parts (Restarting a b) = (FtRestarting, u32_to_be a @ u32_to_be b)"
| "frame_parts (ForwardPacket key data) = (FtForwardPacket, key @ data)"
| "frame_parts (ServerChallenge nonce) = (FtServerChallenge, nonce)"

lemma frame_type_from_as [simp]: "frame_type_from_u8 (frame_type_as_u8 ft) = Some ft"
  by (cases ft) (simp_all add: frame_type_from_u8_def)

lemma encode_frame_parts:
  "frame_wf f \<Longrightarrow> frame_parts f = (ft, p) \<Longrightarrow>
     encode_frame f buf = write_header buf ft (length p) @ p"
  by (cases f) (auto simp: KEY_LEN_def)

lemma decode_frame_parts:
  "frame_wf f \<Longrightarrow> frame_parts f = (ft, p) \<Longrightarrow> decode_payload ft p = Inr f"
  by (cases f) (auto simp: read_key_def keyed_payload_def from_utf8_lossy_valid u32_to_be_def
      nth_append split: if_splits)

lemma frame_parts_size: "frame_wf f \<Longrightarrow> frame_parts f = (ft, p) \<Longrightarrow> length p \<le> MAX_FRAME_SIZE"
  by (cases f) (auto simp: MAX_FRAME_SIZE_def KEY_LEN_def)

lemma decode_frame_header:
  assumes "length p \<le> MAX_FRAME_SIZE"
  shows "decode_frame (write_header [] ft (length p) @ p @ rest) =
     (rbind (decode_payload ft p) (\<lambda>f. Inr (Some f)), rest)"
proof -
  have "unat (of_nat (length p) :: u32) = length p"
    using assms by (simp add: MAX_FRAME_SIZE_def unat_of_nat_small)
  then show ?thesis
    using assms by (simp add: decode_frame_def write_header_def u32_to_be_def Let_def)
qed

lemma decode_one:
  assumes "frame_wf f"
  shows "decode_frame (encode_frame f [] @ rest) = (Inr (Some f), rest)"
proof -
  obtain ft p where fp: "frame_parts f = (ft, p)" by (cases "frame_parts f")
  then show ?thesis
    using assms decode_frame_header [OF frame_parts_size [OF assms fp], of ft rest]
    by (simp add: encode_frame_parts decode_frame_parts)
qed

lemma decode_frame_extend:
  "decode_frame buf = (res, r) \<Longrightarrow> res \<noteq> Inr None \<Longrightarrow> decode_frame (buf @ x) = (res, r @ x)"
  by (auto simp: decode_frame_def Let_def nth_append split: if_splits)

lemma decode_frame_more: "decode_frame buf = (Inr None, r) \<Longrightarrow> r = buf"
  by (auto simp: decode_frame_def Let_def rbind_eq_Inr split: if_splits)

text \<open>
  Decoding what the encoder wrote gives back the frame and leaves exactly the bytes that
  followed it in the buffer, for every frame the program can hold; on a proper prefix of the
  encoding the decoder asks for more input and keeps the buffer.
\<close>

theorem decode_encode_frame:
  assumes "frame_wf f"
  shows "decode_frame (encode_frame f [] @ rest) = (Inr (Some f), rest) \<and>
    (k < length (encode_frame f []) \<longrightarrow>
       decode_frame (take k (encode_frame f [])) = (Inr None, take k (encode_frame f [])))"
proof (intro conjI impI)
  show "decode_frame (encode_frame f [] @ rest) = (Inr (Some f), rest)"
    using assms by (rule decode_one)
next
  let ?e = "encode_frame f []"
  assume k: "k < length ?e"
  obtain res r where d: "decode_frame (take k ?e) = (res, r)" by (cases "decode_frame (take k ?e)")
  have whole: "decode_frame (take k ?e @ drop k ?e) = (Inr (Some f), [])"
    using decode_one [OF assms, of "[]"] by simp
  have "res = Inr None"
    using decode_frame_extend [OF d, of "drop k ?e"] whole k by (cases "res = Inr None") auto
  with d show "decode_frame (take k ?e) = (Inr None, take k ?e)"
    using decode_frame_more by blast
qed

theorem decode_encode_frame_witness:
  "decode_frame (encode_frame (SendPacket (replicate 32 7) [1, 2, 3]) [] @ [9]) =
     (Inr (Some (SendPacket (replicate 32 7) [1, 2, 3])), [9])"
  using decode_encode_frame [of "SendPacket (replicate 32 7) [1, 2, 3]" "[9]" 0]
  by (simp add: KEY_LEN_def MAX_FRAME_SIZE_def)

section \<open>Streams cut into reads\<close>

text \<open>
  A decoder over a growing buffer. \<open>decode\<close> either asks for more input and leaves the buffer alone,
  or answers (a message or an error) in a way that later input cannot change, and a message consumes
  input. \<open>drain\<close> decodes until the decoder asks for more or fails.
\<close>

locale stream_decoder =
  fixes decode :: "'b list \<Rightarrow> ('e + 'f option) \<times> 'b list"
    and drain :: "'b list \<Rightarrow> 'f list \<times> 'e option \<times> 'b list"
  assumes more_keeps: "decode buf = (Inr None, r) \<Longrightarrow> r = buf"
    and progress: "decode buf = (Inr (Some f), r) \<Longrightarrow> length r < length buf"
    and extend: "decode buf = (res, r) \<Longrightarrow> res \<noteq> Inr None \<Longrightarrow> decode (buf @ x) = (res, r @ x)"
    and drain_unfold: "drain buf =
      (case decode buf of
         (Inr None, r) \<Rightarrow> ([], None, r)
       | (Inr (Some f), r) \<Rightarrow> (case drain r of (fs, e, r') \<Rightarrow> (f # fs, e, r'))
       | (Inl e, r) \<Rightarrow> ([], Some e, r))"
begin

lemma drain_more: "decode buf = (Inr None, r) \<Longrightarrow> drain buf = ([], None, buf)"
  using drain_unfold [of buf] more_keeps by simp

lemma drain_append:
  "drain (buf @ x) =
     (case drain buf of
        (fs, None, r) \<Rightarrow> (case drain (r @ x) of (fs', e, r') \<Rightarrow> (fs @ fs', e, r'))
      | (fs, Some e, r) \<Rightarrow> (fs, Some e, r @ x))"
proof (induction "length buf" arbitrary: buf rule: less_induct)
  case less
  obtain res s where d: "decode buf = (res, s)" by (cases "decode buf")
  consider e where "res = Inl e" | "res = Inr None" | f where "res = Inr (Some f)"
    by (cases res) auto
  then show ?case
  proof cases
    case 1
    with d extend [OF d] drain_unfold [of buf] drain_unfold [of "buf @ x"] show ?thesis by simp
  next
    case 2
    with d drain_more [of buf s] show ?thesis by (auto split: prod.splits)
  next
    case 3
    have "decode (buf @ x) = (Inr (Some f), s @ x)" using extend [OF d] 3 by simp
    then show ?thesis
      using less.hyps [OF progress [of buf f s]] d 3 drain_unfold [of buf] drain_unfold [of "buf @ x"]
      by (simp split: prod.splits option.splits)
  qed
qed

end

text \<open>\<open>while let Some(f) = decode_frame(buf)?\<close>: the frames, the error if any, the buffer left.\<close>

lemma decode_frame_progress: "decode_frame buf = (Inr (Some f), r) \<Longrightarrow> length r < length buf"
  by (auto simp: decode_frame_def Let_def split: if_splits)

function drain :: "bytes \<Rightarrow> frame list \<times> relay_error option \<times> bytes" where
  "drain buf =
     (case decode_frame buf of
        (Inr None, r) \<Rightarrow> ([], None, r)
      | (Inr (Some f), r) \<Rightarrow> (case drain r of (fs, e, r') \<Rightarrow> (f # fs, e, r'))
      | (Inl e, r) \<Rightarrow> ([], Some e, r))"
  by pat_completeness auto

termination drain
  by (relation "measure length") (auto dest: decode_frame_progress [OF sym])

declare drain.simps [simp del]

interpretation derp: stream_decoder decode_frame drain
  by unfold_locales
    (auto dest: decode_frame_more decode_frame_progress decode_frame_extend simp: drain.simps)

text \<open>The reader over a sequence of reads: every read is appended to the buffer, then drained.\<close>

fun drain_reads :: "bytes \<Rightarrow> bytes list \<Rightarrow> frame list \<times> relay_error option \<times> bytes" where
  "drain_reads buf [] = ([], None, buf)"
| "drain_reads buf (c # cs) =
     (case drain (buf @ c) of
        (fs, None, r) \<Rightarrow> (case drain_reads r cs of (fs', e, r') \<Rightarrow> (fs @ fs', e, r'))
      | (fs, Some e, r) \<Rightarrow> (fs, Some e, r))"

lemma drain_idem: "drain buf = (fs, None, r) \<Longrightarrow> drain r = ([], None, r)"
proof (induction buf arbitrary: fs rule: drain.induct)
  case (1 buf)
  then show ?case
    by (subst (asm) drain.simps) (auto split: sum.splits option.splits prod.splits dest: derp.drain_more decode_frame_more)
qed

lemma drain_reads_concat:
  "drain buf = ([], None, buf) \<Longrightarrow> drain (buf @ concat cs) = (fs, None, r) \<Longrightarrow>
     drain_reads buf cs = (fs, None, r)"
proof (induction cs arbitrary: buf fs)
  case Nil
  then show ?case by simp
next
  case (Cons c cs)
  obtain gs e s where d: "drain (buf @ c) = (gs, e, s)" by (cases "drain (buf @ c)")
  have "drain (buf @ c @ concat cs) = (fs, None, r)" using Cons.prems(2) by simp
  with d derp.drain_append [of "buf @ c" "concat cs"]
  obtain fs' where e: "e = None" and "drain (s @ concat cs) = (fs', None, r)" "fs = gs @ fs'"
    by (auto split: prod.splits option.splits)
  with Cons.IH [OF drain_idem] d e show ?case by simp
qed

fun encode_frames :: "frame list \<Rightarrow> bytes" where
  "encode_frames [] = []"
| "encode_frames (f # fs) = encode_frame f [] @ encode_frames fs"

lemma drain_encode_frames: "list_all frame_wf fs \<Longrightarrow> drain (encode_frames fs) = (fs, None, [])"
proof (induction fs)
  case Nil
  then show ?case by (simp add: drain.simps decode_frame_def)
next
  case (Cons f fs)
  from Cons.prems have "decode_frame (encode_frame f [] @ encode_frames fs) = (Inr (Some f), encode_frames fs)"
    by (simp add: decode_one)
  with Cons show ?case by (simp add: drain.simps [of "encode_frame f [] @ encode_frames fs"])
qed



text \<open>
  One call of the decoder does one of four things, whatever the buffer holds: it asks for more
  bytes and leaves the buffer alone; it refuses a length above \<open>MAX_FRAME_SIZE\<close> and leaves the buffer
  alone; or it consumes exactly the header and the announced payload, with a frame or with an
  \<open>InvalidFrame\<close> error. The bytes after the frame are never touched.
\<close>

theorem decode_frame_consumes:
  "decode_frame buf = (Inr None, buf) \<or>
   (\<exists>n. n > MAX_FRAME_SIZE \<and> decode_frame buf = (Inl (FrameTooLarge n MAX_FRAME_SIZE), buf)) \<or>
   (\<exists>n. n \<le> MAX_FRAME_SIZE \<and> 5 + n \<le> length buf \<and> snd (decode_frame buf) = drop (5 + n) buf \<and>
      ((\<exists>f. fst (decode_frame buf) = Inr (Some f)) \<or> (\<exists>m. fst (decode_frame buf) = Inl (InvalidFrame m))))"
proof -
  have p: "decode_payload ft p = Inl e \<Longrightarrow> \<exists>m. e = InvalidFrame m" for ft p e
    by (cases ft) (auto simp: read_key_def keyed_payload_def split: if_splits)
  define n where "n = unat (u32_from_be (buf ! Suc 0) (buf ! 2) (buf ! 3) (buf ! 4))"
  consider "length buf < 5" | "n > MAX_FRAME_SIZE" "5 \<le> length buf"
    | "n \<le> MAX_FRAME_SIZE" "5 \<le> length buf" "length buf < 5 + n"
    | "n \<le> MAX_FRAME_SIZE" "5 + n \<le> length buf"
    by linarith
  then show ?thesis
  proof cases
    case 4
    have "snd (decode_frame buf) = drop (5 + n) buf"
      using 4 by (simp add: decode_frame_def n_def [symmetric] Let_def add.commute)
    moreover have "(\<exists>f. fst (decode_frame buf) = Inr (Some f)) \<or> (\<exists>m. fst (decode_frame buf) = Inl (InvalidFrame m))"
      using 4
      by (cases "frame_type_from_u8 (buf ! 0)")
        (auto simp: decode_frame_def n_def [symmetric] Let_def rbind_def dest: p split: sum.splits)
    ultimately show ?thesis using 4 by blast
  qed (auto simp: decode_frame_def n_def [symmetric] Let_def)
qed

end
