(* ===== verification/Relay_Server.thy ===== *)
theory Relay_Server
  imports Relay_Frame
begin

text \<open>
  The DERP relay server (\<open>crates/runesh-relay/src/server.rs\<close>).

  The server is a state machine: \<open>relay\<close> holds the maps of \<open>RelayServer\<close>, the counters, the channels
  (\<open>mpsc::channel\<close>: a queue of frames and whether the receiving write task still runs) and the
  connection tasks with the point each has reached in \<open>handle_client\<close>. One event is one atomic piece
  of a task: an accept, a read, the decoding and handling of one frame, one round of a write task, the
  end of a task. A channel carries the key it was created for, which is the \<open>client_key\<close> its write
  task captures. The HMAC function and the forwarding ACL are parameters. The token bucket keeps
  its \<open>f64\<close> amounts as exact rationals and its instants as nanoseconds.
\<close>

section \<open>Configuration and authentication\<close>

datatype auth_mode = NoAuth | SharedKey bytes | HmacChallenge bytes

definition CHALLENGE_LEN :: nat where
  "CHALLENGE_LEN = 32"

record relay_config =
  bind_addr :: string
  server_key :: relay_key
  max_clients :: u64
  client_buffer :: nat
  auth :: auth_mode
  per_sender_pps :: u32

definition relay_config_new :: "string \<Rightarrow> relay_key \<Rightarrow> auth_mode \<Rightarrow> relay_config" where
  "relay_config_new addr key a = \<lparr>bind_addr = addr, server_key = key, max_clients = 10000,
     client_buffer = 256, auth = a, per_sender_pps = 1000\<rparr>"

definition allow_all_forward :: "relay_key \<Rightarrow> relay_key \<Rightarrow> bool" where
  "allow_all_forward sender recipient = True"

definition compute_challenge_response ::
    "(bytes \<Rightarrow> bytes \<Rightarrow> bytes) \<Rightarrow> bytes \<Rightarrow> bytes \<Rightarrow> relay_key \<Rightarrow> bytes" where
  "compute_challenge_response hmac shared_secret challenge pubkey = hmac shared_secret (challenge @ pubkey)"

text \<open>What the server writes first, given the random challenge it drew in \<open>HmacChallenge\<close> mode.\<close>

definition greeting :: "relay_config \<Rightarrow> bytes \<Rightarrow> bytes \<times> bytes option" where
  "greeting config c =
     (let write_buf = encode_frame (ServerKey (server_key config)) [] in
      case auth config of
        HmacChallenge _ \<Rightarrow> (encode_frame (ServerChallenge c) write_buf, Some c)
      | _ \<Rightarrow> (write_buf, None))"

definition authenticate ::
    "(bytes \<Rightarrow> bytes \<Rightarrow> bytes) \<Rightarrow> relay_config \<Rightarrow> bytes option \<Rightarrow> bytes \<Rightarrow> relay_error + relay_key" where
  "authenticate hmac config challenge client_info =
     (if length client_info < KEY_LEN then Inl (InvalidFrame ''ClientInfo too short for key'')
      else
        let key = take KEY_LEN client_info; provided = drop KEY_LEN client_info in
        case auth config of
          NoAuth \<Rightarrow> Inr key
        | SharedKey secret \<Rightarrow> if provided \<noteq> secret then Inl AuthFailed else Inr key
        | HmacChallenge shared_secret \<Rightarrow>
            rbind (ok_or (Protocol ''missing challenge state for HmacChallenge'') challenge) (\<lambda>ch.
              if length provided \<noteq> 32 then Inl AuthFailed
              else if provided \<noteq> compute_challenge_response hmac shared_secret ch key then Inl AuthFailed
              else Inr key))"

text \<open>The first-frame loop after one read: keep reading, or the payload of the \<open>ClientInfo\<close> frame.\<close>

definition client_info_read :: "bytes \<Rightarrow> bytes \<Rightarrow> relay_error + (bytes option \<times> bytes)" where
  "client_info_read read_buf chunk =
     (if chunk = [] then Inl Disconnected
      else case decode_frame (read_buf @ chunk) of
        (Inl e, _) \<Rightarrow> Inl e
      | (Inr None, buf) \<Rightarrow> Inr (None, buf)
      | (Inr (Some (ClientInfo data)), buf) \<Rightarrow> Inr (Some data, buf)
      | (Inr (Some _), _) \<Rightarrow> Inl (InvalidFrame ''expected ClientInfo as first frame''))"

section \<open>Token bucket\<close>

record token_bucket =
  capacity :: u32
  bucket_tokens :: rat
  refill_per_sec :: rat
  bucket_last :: nat

definition bucket_new :: "u32 \<Rightarrow> u32 \<Rightarrow> nat \<Rightarrow> token_bucket" where
  "bucket_new cap refill now = \<lparr>capacity = cap, bucket_tokens = of_nat (unat cap),
     refill_per_sec = of_nat (unat refill), bucket_last = now\<rparr>"

definition try_take :: "nat \<Rightarrow> token_bucket \<Rightarrow> bool \<times> token_bucket" where
  "try_take now b =
     (let elapsed = of_nat (now - bucket_last b) / 1000000000;
          tokens = min (bucket_tokens b + elapsed * refill_per_sec b) (of_nat (unat (capacity b)))
      in if tokens \<ge> 1 then (True, b\<lparr>bucket_last := now, bucket_tokens := tokens - 1\<rparr>)
         else (False, b\<lparr>bucket_last := now, bucket_tokens := tokens\<rparr>))"

section \<open>State\<close>

record client =
  client_tx :: nat
  preferred :: bool

record chan =
  ch_owner :: relay_key
  ch_queue :: "frame list"
  rx_alive :: bool

datatype task =
    Handshaking "bytes option" bytes
  | Reading relay_key nat token_bucket bytes bool
  | Joining relay_key nat

record relay =
  clients :: "(relay_key, client) hash_map"
  watchers :: "(relay_key, nat) hash_map"
  conn_count :: u64
  rate_limited :: u64
  acl_dropped :: u64
  chans :: "(nat, chan) hash_map"
  next_chan :: nat
  tasks :: "(nat, task) hash_map"
  next_task :: nat

definition relay_new :: relay where
  "relay_new = \<lparr>clients = [], watchers = [], conn_count = 0, rate_limited = 0, acl_dropped = 0,
     chans = [], next_chan = 0, tasks = [], next_task = 0\<rparr>"

definition client_count :: "relay \<Rightarrow> nat" where
  "client_count st = length (clients st)"

section \<open>Operations\<close>

text \<open>\<open>reserve_slot\<close>: count first, take it back when the cap was already reached.\<close>

definition reserve_slot :: "relay_config \<Rightarrow> relay \<Rightarrow> bool \<times> relay" where
  "reserve_slot config st =
     (let prev = conn_count st; st1 = st\<lparr>conn_count := prev + 1\<rparr> in
      if prev \<ge> max_clients config then (False, st1\<lparr>conn_count := conn_count st1 - 1\<rparr>)
      else (True, st1))"

definition try_send :: "relay_config \<Rightarrow> nat \<Rightarrow> frame \<Rightarrow> (nat, chan) hash_map \<Rightarrow> (nat, chan) hash_map" where
  "try_send config c f cs =
     (case hm_get cs c of
        Some ch \<Rightarrow>
          if rx_alive ch \<and> length (ch_queue ch) < client_buffer config
          then hm_insert c (ch\<lparr>ch_queue := ch_queue ch @ [f]\<rparr>) cs
          else cs
      | None \<Rightarrow> cs)"

fun send_each :: "relay_config \<Rightarrow> (nat \<times> frame) list \<Rightarrow> (nat, chan) hash_map \<Rightarrow> (nat, chan) hash_map" where
  "send_each config [] cs = cs"
| "send_each config ((c, f) # ms) cs = send_each config ms (try_send config c f cs)"

definition notify_watchers :: "relay_config \<Rightarrow> frame \<Rightarrow> relay \<Rightarrow> relay" where
  "notify_watchers config f st =
     st\<lparr>chans := send_each config (map (\<lambda>(_, c). (c, f)) (watchers st)) (chans st)\<rparr>"

definition register ::
    "relay_config \<Rightarrow> nat \<Rightarrow> nat \<Rightarrow> relay_key \<Rightarrow> bytes \<Rightarrow> relay \<Rightarrow> relay" where
  "register config now i key buf st =
     (let c = next_chan st;
          st1 = st\<lparr>chans := hm_insert c \<lparr>ch_owner = key, ch_queue = [], rx_alive = True\<rparr> (chans st),
                   next_chan := Suc c,
                   clients := hm_insert key \<lparr>client_tx = c, preferred = False\<rparr> (clients st)\<rparr>;
          st2 = notify_watchers config (PeerPresent key) st1;
          bucket = bucket_new (per_sender_pps config) (per_sender_pps config) now
      in st2\<lparr>tasks := hm_insert i (Reading key c bucket buf True) (tasks st2)\<rparr>)"

text \<open>One frame of the read loop.\<close>

definition handle_frame ::
    "relay_config \<Rightarrow> (relay_key \<Rightarrow> relay_key \<Rightarrow> bool) \<Rightarrow> nat \<Rightarrow> relay_key \<Rightarrow> frame \<Rightarrow> relay \<Rightarrow> token_bucket \<Rightarrow>
       relay_error + (relay \<times> token_bucket)" where
  "handle_frame config acl now client_key f st bucket =
     (case f of
        SendPacket dst_key data \<Rightarrow>
          if \<not> acl client_key dst_key then Inr (st\<lparr>acl_dropped := acl_dropped st + 1\<rparr>, bucket)
          else (case try_take now bucket of
            (False, b) \<Rightarrow> Inr (st\<lparr>rate_limited := rate_limited st + 1\<rparr>, b)
          | (True, b) \<Rightarrow>
              (case hm_get (clients st) dst_key of
                 Some peer \<Rightarrow>
                   Inr (st\<lparr>chans := try_send config (client_tx peer) (RecvPacket client_key data) (chans st)\<rparr>, b)
               | None \<Rightarrow> Inr (st, b)))
      | ForwardPacket _ _ \<Rightarrow> Inl (Protocol ''ForwardPacket not permitted on a client connection'')
      | NotePreferred p \<Rightarrow>
          (case hm_get (clients st) client_key of
             Some cl \<Rightarrow> Inr (st\<lparr>clients := hm_insert client_key (cl\<lparr>preferred := p\<rparr>) (clients st)\<rparr>, bucket)
           | None \<Rightarrow> Inr (st, bucket))
      | WatchConns \<Rightarrow>
          (case hm_get (clients st) client_key of
             Some cl \<Rightarrow>
               Inr (st\<lparr>watchers := hm_insert client_key (client_tx cl) (watchers st),
                       chans := send_each config
                         (map (\<lambda>k. (client_tx cl, PeerPresent k))
                            (filter (\<lambda>k. k \<noteq> client_key) (hm_keys (clients st)))) (chans st)\<rparr>, bucket)
           | None \<Rightarrow> Inr (st, bucket))
      | Ping data \<Rightarrow>
          (case hm_get (clients st) client_key of
             Some cl \<Rightarrow> Inr (st\<lparr>chans := try_send config (client_tx cl) (Pong data) (chans st)\<rparr>, bucket)
           | None \<Rightarrow> Inr (st, bucket))
      | KeepAlive \<Rightarrow> Inr (st, bucket)
      | _ \<Rightarrow> Inr (st, bucket))"

text \<open>
  A sender of a channel lives as long as a map entry or the reading task that created it holds it.
\<close>

definition task_holds :: "nat \<Rightarrow> task \<Rightarrow> bool" where
  "task_holds c t = (case t of Reading _ c' _ _ _ \<Rightarrow> c' = c | _ \<Rightarrow> False)"

definition sender_lives :: "relay \<Rightarrow> nat \<Rightarrow> bool" where
  "sender_lives st c =
     (list_ex (\<lambda>cl. client_tx cl = c) (hm_values (clients st)) \<or>
      list_ex (\<lambda>c'. c' = c) (hm_values (watchers st)) \<or>
      list_ex (task_holds c) (hm_values (tasks st)))"

text \<open>The cleanup both the write task and the connection task run for their key.\<close>

definition remove_client :: "relay_config \<Rightarrow> relay_key \<Rightarrow> relay \<Rightarrow> relay" where
  "remove_client config key st =
     notify_watchers config (PeerGone key) (st\<lparr>clients := hm_remove key (clients st)\<rparr>)"

definition close_rx :: "nat \<Rightarrow> relay \<Rightarrow> relay" where
  "close_rx c st =
     (case hm_get (chans st) c of
        Some ch \<Rightarrow> st\<lparr>chans := hm_insert c (ch\<lparr>rx_alive := False, ch_queue := []\<rparr>) (chans st)\<rparr>
      | None \<Rightarrow> st)"

text \<open>One round of the write task of channel \<open>c\<close>; \<open>ok\<close> is whether \<open>write_all\<close> succeeds.\<close>

definition write_round :: "relay_config \<Rightarrow> nat \<Rightarrow> bool \<Rightarrow> relay \<Rightarrow> relay" where
  "write_round config c ok st =
     (case hm_get (chans st) c of
        None \<Rightarrow> st
      | Some ch \<Rightarrow>
          if \<not> rx_alive ch then st
          else (case ch_queue ch of
            [] \<Rightarrow> if sender_lives st c then st else close_rx c (remove_client config (ch_owner ch) st)
          | f # fs \<Rightarrow>
              if ok then st\<lparr>chans := hm_insert c (ch\<lparr>ch_queue := fs\<rparr>) (chans st)\<rparr>
              else close_rx c (remove_client config (ch_owner ch) st)))"

definition end_task :: "nat \<Rightarrow> relay \<Rightarrow> relay" where
  "end_task i st = st\<lparr>tasks := hm_remove i (tasks st), conn_count := conn_count st - 1\<rparr>"

datatype event =
    AcceptConn bytes
  | ClientInfoTimeout nat
  | ReadChunk nat nat bytes
  | NextFrame nat nat
  | WriteRound nat bool
  | Join nat

definition read_chunk ::
    "(bytes \<Rightarrow> bytes \<Rightarrow> bytes) \<Rightarrow> relay_config \<Rightarrow> nat \<Rightarrow> nat \<Rightarrow> bytes \<Rightarrow> relay \<Rightarrow> relay" where
  "read_chunk hmac config now i chunk st =
     (case hm_get (tasks st) i of
        Some (Handshaking challenge buf) \<Rightarrow>
          (case client_info_read buf chunk of
             Inl _ \<Rightarrow> end_task i st
           | Inr (None, buf') \<Rightarrow> st\<lparr>tasks := hm_insert i (Handshaking challenge buf') (tasks st)\<rparr>
           | Inr (Some info, buf') \<Rightarrow>
               (case authenticate hmac config challenge info of
                  Inl _ \<Rightarrow> end_task i st
                | Inr key \<Rightarrow> register config now i key buf' st))
      | Some (Reading key c b buf True) \<Rightarrow>
          if chunk = [] then st\<lparr>tasks := hm_insert i (Joining key c) (tasks st)\<rparr>
          else st\<lparr>tasks := hm_insert i (Reading key c b (buf @ chunk) False) (tasks st)\<rparr>
      | _ \<Rightarrow> st)"

definition next_frame ::
    "relay_config \<Rightarrow> (relay_key \<Rightarrow> relay_key \<Rightarrow> bool) \<Rightarrow> nat \<Rightarrow> nat \<Rightarrow> relay \<Rightarrow> relay" where
  "next_frame config acl now i st =
     (case hm_get (tasks st) i of
        Some (Reading key c b buf False) \<Rightarrow>
          (case decode_frame buf of
             (Inl _, _) \<Rightarrow> st\<lparr>tasks := hm_insert i (Joining key c) (tasks st)\<rparr>
           | (Inr None, buf') \<Rightarrow> st\<lparr>tasks := hm_insert i (Reading key c b buf' True) (tasks st)\<rparr>
           | (Inr (Some f), buf') \<Rightarrow>
               (case handle_frame config acl now key f st b of
                  Inl _ \<Rightarrow> st\<lparr>tasks := hm_insert i (Joining key c) (tasks st)\<rparr>
                | Inr (st', b') \<Rightarrow>
                    st'\<lparr>tasks := hm_insert i (Reading key c b' buf' False) (tasks st')\<rparr>))
      | _ \<Rightarrow> st)"

definition rx_done :: "relay \<Rightarrow> nat \<Rightarrow> bool" where
  "rx_done st c = (case hm_get (chans st) c of Some ch \<Rightarrow> \<not> rx_alive ch | None \<Rightarrow> True)"

definition relay_step ::
    "relay_config \<Rightarrow> (relay_key \<Rightarrow> relay_key \<Rightarrow> bool) \<Rightarrow> (bytes \<Rightarrow> bytes \<Rightarrow> bytes) \<Rightarrow> relay \<Rightarrow> event \<Rightarrow> relay" where
  "relay_step config acl hmac st ev =
     (case ev of
        AcceptConn c \<Rightarrow>
          (case reserve_slot config st of
             (False, st') \<Rightarrow> st'
           | (True, st') \<Rightarrow>
               st'\<lparr>tasks := hm_insert (next_task st') (Handshaking (snd (greeting config c)) []) (tasks st'),
                   next_task := Suc (next_task st')\<rparr>)
      | ClientInfoTimeout i \<Rightarrow>
          (case hm_get (tasks st) i of Some (Handshaking _ _) \<Rightarrow> end_task i st | _ \<Rightarrow> st)
      | ReadChunk now i chunk \<Rightarrow> read_chunk hmac config now i chunk st
      | NextFrame now i \<Rightarrow> next_frame config acl now i st
      | WriteRound c ok \<Rightarrow> write_round config c ok st
      | Join i \<Rightarrow>
          (case hm_get (tasks st) i of
             Some (Joining key c) \<Rightarrow>
               if rx_done st c then end_task i (remove_client config key st) else st
           | _ \<Rightarrow> st))"

section \<open>Authentication\<close>

text \<open>
  In \<open>HmacChallenge\<close> mode a connection is registered under a key exactly when its first frame is
  that 32-byte key followed by the 32-byte HMAC, under the shared secret, of the challenge of this
  connection and the key: possession of the secret is proved for this challenge and for this key. The
  HMAC is any function; a connection without a challenge never authenticates.
\<close>

theorem authenticate_hmac_iff:
  "authenticate hmac (config\<lparr>auth := HmacChallenge secret\<rparr>) challenge info = Inr key \<longleftrightarrow>
     (\<exists>ch response. challenge = Some ch \<and> info = key @ response \<and> length key = KEY_LEN \<and>
        length response = 32 \<and> response = hmac secret (ch @ key))"
proof
  assume a: "authenticate hmac (config\<lparr>auth := HmacChallenge secret\<rparr>) challenge info = Inr key"
  then obtain ch where *: "challenge = Some ch" "\<not> length info < KEY_LEN" "key = take KEY_LEN info"
      "length info - KEY_LEN = 32" "drop KEY_LEN info = hmac secret (ch @ key)"
    by (auto simp: authenticate_def compute_challenge_response_def Let_def rbind_eq_Inr split: if_splits)
  then have "length (hmac secret (ch @ key)) = 32" by (metis length_drop)
  with * show "\<exists>ch response. challenge = Some ch \<and> info = key @ response \<and> length key = KEY_LEN \<and>
      length response = 32 \<and> response = hmac secret (ch @ key)"
    by (metis append_take_drop_id length_take min.absorb2 not_le)
next
  assume "\<exists>ch response. challenge = Some ch \<and> info = key @ response \<and> length key = KEY_LEN \<and>
      length response = 32 \<and> response = hmac secret (ch @ key)"
  then show "authenticate hmac (config\<lparr>auth := HmacChallenge secret\<rparr>) challenge info = Inr key"
    by (auto simp: authenticate_def compute_challenge_response_def Let_def)
qed

section \<open>The rate limit\<close>

text \<open>The results of successive \<open>try_take\<close> calls at the given instants, and the bucket after them.\<close>

fun take_all :: "nat list \<Rightarrow> token_bucket \<Rightarrow> bool list \<times> token_bucket" where
  "take_all [] b = ([], b)"
| "take_all (t # ts) b =
     (case try_take t b of (ok, b') \<Rightarrow> (case take_all ts b' of (oks, b'') \<Rightarrow> (ok # oks, b'')))"

definition taken :: "bool list \<Rightarrow> rat" where
  "taken oks = of_nat (length (filter (\<lambda>ok. ok) oks))"

lemma unsigned_rat_nonneg [simp]: "0 \<le> (unsigned (w :: 'a::len word) :: rat)"
  by (metis of_nat_0_le_iff of_nat_unat)

lemma try_take_bound:
  assumes "bucket_last b \<le> t" "0 \<le> refill_per_sec b" "try_take t b = (ok, b')"
  shows "(if ok then 1 else 0) + bucket_tokens b' \<le>
      bucket_tokens b + refill_per_sec b * of_nat (t - bucket_last b) / 1000000000"
    and "bucket_last b' = t" "refill_per_sec b' = refill_per_sec b" "capacity b' = capacity b"
  using assms by (auto simp: try_take_def Let_def min_def mult.commute split: if_splits)

lemma take_all_bound:
  assumes "sorted (bucket_last b # ts)" "0 \<le> refill_per_sec b" "take_all ts b = (oks, b')"
  shows "taken oks + bucket_tokens b' \<le>
    bucket_tokens b + refill_per_sec b * of_nat (bucket_last b' - bucket_last b) / 1000000000 \<and>
    bucket_last b \<le> bucket_last b'"
  using assms
proof (induction ts arbitrary: b oks)
  case Nil
  then show ?case by (simp add: taken_def)
next
  case (Cons t ts)
  obtain ok b1 where t: "try_take t b = (ok, b1)" by (cases "try_take t b")
  obtain oks' where r: "take_all ts b1 = (oks', b')" and oks: "oks = ok # oks'"
    using Cons.prems(3) t by (auto split: prod.splits)
  from Cons.prems(1) have le: "bucket_last b \<le> t" by simp
  note tt = try_take_bound [OF le Cons.prems(2) t]
  have IH: "taken oks' + bucket_tokens b' \<le>
      bucket_tokens b1 + refill_per_sec b * of_nat (bucket_last b' - t) / 1000000000 \<and> t \<le> bucket_last b'"
    using Cons.IH [OF _ _ r, unfolded tt(2,3)] Cons.prems(1,2) by (simp del: of_nat_diff)
  then have "of_nat (bucket_last b' - bucket_last b) =
      (of_nat (bucket_last b' - t) + of_nat (t - bucket_last b) :: rat)"
    using le by (simp flip: of_nat_add)
  then have "refill_per_sec b * of_nat (bucket_last b' - bucket_last b) / 1000000000 =
      refill_per_sec b * of_nat (bucket_last b' - t) / 1000000000 +
      refill_per_sec b * of_nat (t - bucket_last b) / 1000000000"
    by (simp add: distrib_left add_divide_distrib)
  then show ?case
    using IH tt(1) le oks by (auto simp: taken_def add_divide_distrib simp del: of_nat_diff)
qed

lemma try_take_tokens:
  "0 \<le> bucket_tokens b \<Longrightarrow> 0 \<le> refill_per_sec b \<Longrightarrow> 0 \<le> bucket_tokens (snd (try_take t b))"
  by (auto simp: try_take_def Let_def)

lemma take_all_tokens:
  assumes "0 \<le> bucket_tokens b" "0 \<le> refill_per_sec b"
  shows "0 \<le> bucket_tokens (snd (take_all ts b))"
  using assms
proof (induction ts arbitrary: b)
  case (Cons t ts)
  obtain ok b1 where t: "try_take t b = (ok, b1)" by (cases "try_take t b")
  then have "0 \<le> bucket_tokens b1" "refill_per_sec b1 = refill_per_sec b"
    using Cons.prems try_take_tokens [of b t] by (auto simp: try_take_def Let_def split: if_splits)
  then show ?case using Cons.IH [of b1] Cons.prems(2) t by (cases "take_all ts b1") simp
qed simp

lemma take_all_last: "ts \<noteq> [] \<Longrightarrow> bucket_last (snd (take_all ts b)) = last ts"
proof (induction ts arbitrary: b)
  case (Cons t ts)
  obtain ok b1 where t: "try_take t b = (ok, b1)" by (cases "try_take t b")
  then have "bucket_last b1 = t" by (auto simp: try_take_def Let_def split: if_splits)
  with Cons.IH [of b1] t show ?case by (cases ts; cases "take_all ts b1") auto
qed simp



section \<open>The invariant of the server\<close>

text \<open>
  A channel is owned by the key it was made for. Every queued packet comes from a key that has
  authenticated and that the ACL lets reach the owner of the queue; queues stay within the configured
  buffer; map entries point to channels of their own key; the connection counter is the number of
  live tasks and never exceeds the cap.
\<close>

definition owns :: "(nat, chan) hash_map \<Rightarrow> nat \<Rightarrow> relay_key \<Rightarrow> bool" where
  "owns cs c k = (case hm_get cs c of Some ch \<Rightarrow> ch_owner ch = k | None \<Rightarrow> False)"

definition deliverable ::
    "(relay_key \<Rightarrow> relay_key \<Rightarrow> bool) \<Rightarrow> (nat, chan) hash_map \<Rightarrow> relay_key \<Rightarrow> frame \<Rightarrow> bool" where
  "deliverable acl cs d f = (case f of RecvPacket s _ \<Rightarrow> acl s d \<and> (\<exists>c. owns cs c s) | _ \<Rightarrow> True)"

definition chans_ok ::
    "relay_config \<Rightarrow> (relay_key \<Rightarrow> relay_key \<Rightarrow> bool) \<Rightarrow> (nat, chan) hash_map \<Rightarrow> bool" where
  "chans_ok config acl cs =
     (\<forall>c ch. hm_get cs c = Some ch \<longrightarrow>
        length (ch_queue ch) \<le> client_buffer config \<and>
        list_all (deliverable acl cs (ch_owner ch)) (ch_queue ch))"

definition refs_ok :: "relay \<Rightarrow> bool" where
  "refs_ok st =
     ((\<forall>k cl. hm_get (clients st) k = Some cl \<longrightarrow> owns (chans st) (client_tx cl) k) \<and>
      (\<forall>k c. hm_get (watchers st) k = Some c \<longrightarrow> owns (chans st) c k) \<and>
      (\<forall>c. hm_get (chans st) c \<noteq> None \<longrightarrow> c < next_chan st))"

definition task_ok :: "(nat, chan) hash_map \<Rightarrow> task \<Rightarrow> bool" where
  "task_ok cs t =
     (case t of Handshaking _ _ \<Rightarrow> True | Reading k c _ _ _ \<Rightarrow> owns cs c k | Joining k c \<Rightarrow> owns cs c k)"

definition tasks_ok :: "relay_config \<Rightarrow> relay \<Rightarrow> bool" where
  "tasks_ok config st =
     (hm_wf (tasks st) \<and> unat (conn_count st) = length (tasks st) \<and>
      conn_count st \<le> max_clients config \<and>
      (\<forall>i t. hm_get (tasks st) i = Some t \<longrightarrow> i < next_task st \<and> task_ok (chans st) t))"

definition relay_inv :: "relay_config \<Rightarrow> (relay_key \<Rightarrow> relay_key \<Rightarrow> bool) \<Rightarrow> relay \<Rightarrow> bool" where
  "relay_inv config acl st =
     (chans_ok config acl (chans st) \<and> refs_ok st \<and> tasks_ok config st)"

lemma owns_try_send [simp]: "owns (try_send config c f cs) = owns cs"
  by (auto simp: fun_eq_iff owns_def try_send_def hm_simps split: option.splits)

lemma owns_send_each [simp]: "owns (send_each config ms cs) = owns cs"
  by (induction ms arbitrary: cs) auto

lemma deliverable_cong: "owns cs = owns cs' \<Longrightarrow> deliverable acl cs = deliverable acl cs'"
  unfolding deliverable_def by presburger

lemma task_ok_cong: "owns cs = owns cs' \<Longrightarrow> task_ok cs = task_ok cs'"
  unfolding task_ok_def by presburger

lemma get_try_send_None [simp]: "hm_get (try_send config c f cs) c' = None \<longleftrightarrow> hm_get cs c' = None"
  by (auto simp: try_send_def hm_simps split: option.splits)

lemma get_send_each_None [simp]: "hm_get (send_each config ms cs) c' = None \<longleftrightarrow> hm_get cs c' = None"
  by (induction ms arbitrary: cs) auto

lemma chans_ok_try_send:
  assumes "chans_ok config acl cs" and "\<And>d. owns cs c d \<Longrightarrow> deliverable acl cs d f"
  shows "chans_ok config acl (try_send config c f cs)"
proof (cases "hm_get cs c")
  case None
  with assms(1) show ?thesis by (simp add: try_send_def)
next
  case (Some ch)
  have d: "deliverable acl (try_send config c f cs) = deliverable acl cs"
    by (rule deliverable_cong) simp
  have "deliverable acl cs (ch_owner ch) f" using assms(2) Some by (simp add: owns_def)
  with Some assms(1) show ?thesis
    unfolding chans_ok_def d by (auto simp: try_send_def hm_simps)
qed

lemma chans_ok_send_each:
  assumes "chans_ok config acl cs"
    and "\<And>c f d. (c, f) \<in> set ms \<Longrightarrow> owns cs c d \<Longrightarrow> deliverable acl cs d f"
  shows "chans_ok config acl (send_each config ms cs)"
  using assms
proof (induction ms arbitrary: cs)
  case (Cons m ms)
  obtain c f where m: "m = (c, f)" by (cases m)
  have "deliverable acl (try_send config c f cs) = deliverable acl cs"
    by (rule deliverable_cong) simp
  moreover have "chans_ok config acl (try_send config c f cs)"
    by (rule chans_ok_try_send [OF Cons.prems(1)]) (use Cons.prems(2) m in auto)
  ultimately have "chans_ok config acl (send_each config ms (try_send config c f cs))"
    by (intro Cons.IH) (use Cons.prems(2) in auto)
  then show ?case by (simp add: m)
qed simp

lemma deliverable_notice [simp]:
  "deliverable acl cs d (PeerPresent k)" "deliverable acl cs d (PeerGone k)" "deliverable acl cs d (Pong x)"
  by (simp_all add: deliverable_def)

lemma notify_watchers_inv [inv_intros]:
  assumes "relay_inv config acl st" "\<And>d. deliverable acl (chans st) d f"
  shows "relay_inv config acl (notify_watchers config f st)"
proof -
  have "task_ok (send_each config ms cs) = task_ok cs" for ms cs
    by (rule task_ok_cong) simp
  moreover have "chans_ok config acl
      (send_each config (map (\<lambda>(_, c). (c, f)) (watchers st)) (chans st))"
    by (rule chans_ok_send_each) (use assms in \<open>auto simp: relay_inv_def\<close>)
  ultimately show ?thesis
    using assms(1) by (auto simp: relay_inv_def notify_watchers_def refs_ok_def tasks_ok_def)
qed

lemma notify_watchers_frame [simp]:
  "clients (notify_watchers config f st) = clients st"
  "watchers (notify_watchers config f st) = watchers st"
  "tasks (notify_watchers config f st) = tasks st"
  "conn_count (notify_watchers config f st) = conn_count st"
  "next_task (notify_watchers config f st) = next_task st"
  "owns (chans (notify_watchers config f st)) = owns (chans st)"
  by (simp_all add: notify_watchers_def)

lemma set_task_inv [inv_intros]:
  assumes "relay_inv config acl st" "hm_get (tasks st) i \<noteq> None" "task_ok (chans st) t"
  shows "relay_inv config acl (st\<lparr>tasks := hm_insert i t (tasks st)\<rparr>)"
  using assms
  by (auto simp: relay_inv_def refs_ok_def tasks_ok_def hm.wf_insert length_hm_insert hm_simps split: if_splits)

lemma end_task_inv [inv_intros]:
  assumes "relay_inv config acl st" "hm_get (tasks st) i \<noteq> None"
  shows "relay_inv config acl (end_task i st)"
proof -
  have t: "tasks_ok config st" using assms(1) by (simp add: relay_inv_def)
  then have n: "Suc (length (hm_remove i (tasks st))) = unat (conn_count st)"
    using length_hm_remove [OF _ assms(2)] by (simp add: tasks_ok_def)
  then have "1 \<le> conn_count st" by (simp add: word_le_nat_alt)
  then have c: "unat (conn_count st - 1) = unat (conn_count st) - 1" by (simp add: unat_sub)
  then have "conn_count st - 1 \<le> max_clients config"
    using t by (auto simp: tasks_ok_def word_le_nat_alt)
  with c n t assms(1) show ?thesis
    by (auto simp: relay_inv_def end_task_def tasks_ok_def refs_ok_def hm.wf_remove hm_simps split: if_splits)
qed

lemma remove_client_inv [inv_intros]:
  assumes "relay_inv config acl st"
  shows "relay_inv config acl (remove_client config key st)"
proof -
  have "relay_inv config acl (st\<lparr>clients := hm_remove key (clients st)\<rparr>)"
    using assms by (auto simp: relay_inv_def refs_ok_def tasks_ok_def hm_simps split: if_splits)
  then show ?thesis unfolding remove_client_def by (rule notify_watchers_inv) simp
qed

lemma remove_client_frame [simp]:
  "tasks (remove_client config key st) = tasks st"
  "owns (chans (remove_client config key st)) = owns (chans st)"
  by (simp_all add: remove_client_def)

text \<open>Replacing a channel by one of the same owner with a part of its queue.\<close>

lemma shrink_chan_inv:
  assumes "relay_inv config acl st" "hm_get (chans st) c = Some ch"
    and "ch_owner ch' = ch_owner ch" "set (ch_queue ch') \<subseteq> set (ch_queue ch)"
    and "length (ch_queue ch') \<le> length (ch_queue ch)"
  shows "relay_inv config acl (st\<lparr>chans := hm_insert c ch' (chans st)\<rparr>)"
proof -
  have o: "owns (hm_insert c ch' (chans st)) = owns (chans st)"
    using assms(2,3) by (auto simp: fun_eq_iff owns_def hm_simps)
  have d: "deliverable acl (hm_insert c ch' (chans st)) = deliverable acl (chans st)"
    by (rule deliverable_cong) (rule o)
  have t: "task_ok (hm_insert c ch' (chans st)) = task_ok (chans st)"
    by (rule task_ok_cong) (rule o)
  have "chans_ok config acl (hm_insert c ch' (chans st))"
    using assms unfolding relay_inv_def chans_ok_def d
    by (auto simp: hm_simps list_all_iff intro: le_trans)
  with assms(1,2) show ?thesis
    by (auto simp: relay_inv_def refs_ok_def tasks_ok_def o t hm_simps split: if_splits)
qed

lemma close_rx_inv [inv_intros]: "relay_inv config acl st \<Longrightarrow> relay_inv config acl (close_rx c st)"
  by (auto simp: close_rx_def split: option.splits intro: shrink_chan_inv)

lemma write_round_inv [inv_intros]:
  "relay_inv config acl st \<Longrightarrow> relay_inv config acl (write_round config c ok st)"
  unfolding write_round_def
  by (auto split: option.splits list.splits intro: inv_intros shrink_chan_inv)

lemma fresh_chan_inv:
  assumes "relay_inv config acl st"
  shows "relay_inv config acl
    (st\<lparr>chans := hm_insert (next_chan st) \<lparr>ch_owner = key, ch_queue = [], rx_alive = True\<rparr> (chans st),
        next_chan := Suc (next_chan st),
        clients := hm_insert key \<lparr>client_tx = next_chan st, preferred = False\<rparr> (clients st)\<rparr>)"
proof -
  let ?cs = "hm_insert (next_chan st) \<lparr>ch_owner = key, ch_queue = [], rx_alive = True\<rparr> (chans st)"
  have fresh: "hm_get (chans st) (next_chan st) = None"
    using assms by (force simp: relay_inv_def refs_ok_def)
  then have mono: "owns (chans st) c k \<Longrightarrow> owns ?cs c k" for c k
    by (auto simp: owns_def hm_simps split: option.splits)
  have new: "owns ?cs (next_chan st) key" by (simp add: owns_def hm_simps)
  have d: "deliverable acl (chans st) d f \<Longrightarrow> deliverable acl ?cs d f" for d f
    using mono by (auto simp: deliverable_def split: frame.splits)
  have t: "task_ok (chans st) x \<Longrightarrow> task_ok ?cs x" for x
    using mono by (auto simp: task_ok_def split: task.splits)
  have "chans_ok config acl ?cs"
    using assms d by (auto simp: relay_inv_def chans_ok_def hm_simps list_all_iff)
  then show ?thesis
    using assms mono new t
    by (auto simp: relay_inv_def refs_ok_def tasks_ok_def hm_simps less_Suc_eq split: if_splits)
qed

lemma register_inv [inv_intros]:
  assumes "relay_inv config acl st" "hm_get (tasks st) i \<noteq> None"
  shows "relay_inv config acl (register config now i key buf st)"
  unfolding register_def Let_def
  by (rule set_task_inv, rule notify_watchers_inv, rule fresh_chan_inv)
    (use assms in \<open>auto simp: task_ok_def owns_def hm_simps notify_watchers_def\<close>)

lemma update_chans_inv:
  assumes "relay_inv config acl st" "chans_ok config acl cs" "owns cs = owns (chans st)"
    and "\<And>c. hm_get cs c = None \<longleftrightarrow> hm_get (chans st) c = None"
  shows "relay_inv config acl (st\<lparr>chans := cs\<rparr>)"
proof -
  have "task_ok cs = task_ok (chans st)" by (rule task_ok_cong) (rule assms(3))
  then show ?thesis
    using assms(1,2,3) assms(4) by (simp add: relay_inv_def refs_ok_def tasks_ok_def)
qed

lemma update_maps_inv:
  assumes "relay_inv config acl st"
    and "\<And>k cl. hm_get cls k = Some cl \<Longrightarrow> owns (chans st) (client_tx cl) k"
    and "\<And>k c. hm_get ws k = Some c \<Longrightarrow> owns (chans st) c k"
  shows "relay_inv config acl (st\<lparr>clients := cls, watchers := ws\<rparr>)"
  using assms by (auto simp: relay_inv_def refs_ok_def tasks_ok_def)

lemma relay_inv_counters:
  "relay_inv config acl st \<Longrightarrow> relay_inv config acl (st\<lparr>acl_dropped := n\<rparr>)"
  "relay_inv config acl st \<Longrightarrow> relay_inv config acl (st\<lparr>rate_limited := n\<rparr>)"
  by (simp_all add: relay_inv_def refs_ok_def tasks_ok_def)

lemma relay_inv_client: "relay_inv config acl st \<Longrightarrow> hm_get (clients st) k = Some cl \<Longrightarrow> owns (chans st) (client_tx cl) k"
  by (simp add: relay_inv_def refs_ok_def)

lemma owns_unique: "owns cs c k \<Longrightarrow> owns cs c k' \<Longrightarrow> k = k'"
  by (auto simp: owns_def split: option.splits)

lemma send_packet_inv:
  assumes "relay_inv config acl st" "owns (chans st) c key" "acl key d" "hm_get (clients st) d = Some peer"
  shows "relay_inv config acl
    (st\<lparr>chans := try_send config (client_tx peer) (RecvPacket key data) (chans st)\<rparr>)"
proof (rule update_chans_inv [OF assms(1)])
  have "owns (chans st) (client_tx peer) d" using assms(1,4) by (rule relay_inv_client)
  then show "chans_ok config acl (try_send config (client_tx peer) (RecvPacket key data) (chans st))"
    using assms by (intro chans_ok_try_send) (auto simp: relay_inv_def deliverable_def dest: owns_unique)
qed simp_all

lemma handle_frame_inv:
  assumes inv: "relay_inv config acl st" and key: "owns (chans st) c key"
    and res: "handle_frame config acl now key f st b = Inr (st', b')"
  shows "relay_inv config acl st'"
proof (cases f)
  case (SendPacket d data)
  then show ?thesis
    using res inv send_packet_inv [OF inv key, of d _ data]
    by (auto simp: handle_frame_def relay_inv_counters split: if_splits option.splits prod.splits bool.splits)
next
  case (NotePreferred p)
  have "relay_inv config acl (st\<lparr>clients := hm_insert key (cl\<lparr>preferred := p\<rparr>) (clients st), watchers := watchers st\<rparr>)"
    if "hm_get (clients st) key = Some cl" for cl
    by (rule update_maps_inv [OF inv])
      (use inv that in \<open>auto simp: relay_inv_def refs_ok_def hm_simps split: if_splits\<close>)
  then show ?thesis
    using res inv NotePreferred by (auto simp: handle_frame_def split: option.splits)
next
  case WatchConns
  show ?thesis
  proof (cases "hm_get (clients st) key")
    case None
    then show ?thesis using res inv WatchConns by (simp add: handle_frame_def)
  next
    case (Some cl)
    let ?ms = "map (\<lambda>k. (client_tx cl, PeerPresent k)) (filter (\<lambda>k. k \<noteq> key) (hm_keys (clients st)))"
    let ?s1 = "st\<lparr>clients := clients st, watchers := hm_insert key (client_tx cl) (watchers st)\<rparr>"
    have i1: "relay_inv config acl ?s1"
      by (rule update_maps_inv [OF inv])
        (use inv Some in \<open>auto simp: relay_inv_def refs_ok_def hm_simps split: if_splits\<close>)
    have "relay_inv config acl (?s1\<lparr>chans := send_each config ?ms (chans ?s1)\<rparr>)"
      by (rule update_chans_inv [OF i1])
        (use i1 in \<open>auto simp: relay_inv_def intro!: chans_ok_send_each\<close>)
    then show ?thesis using res WatchConns Some by (simp add: handle_frame_def)
  qed
next
  case (Ping data)
  have "relay_inv config acl (st\<lparr>chans := try_send config x (Pong data) (chans st)\<rparr>)" for x
    by (rule update_chans_inv [OF inv])
      (use inv in \<open>auto simp: relay_inv_def intro!: chans_ok_try_send\<close>)
  then show ?thesis using res inv Ping by (auto simp: handle_frame_def split: option.splits)
qed (use res inv in \<open>auto simp: handle_frame_def\<close>)

lemma handle_frame_frame:
  "handle_frame config acl now key f st b = Inr (st', b') \<Longrightarrow>
     tasks st' = tasks st \<and> owns (chans st') = owns (chans st)"
  by (cases f)
    (auto simp: handle_frame_def split: if_splits option.splits prod.splits bool.splits)

lemma relay_inv_task: "relay_inv config acl st \<Longrightarrow> hm_get (tasks st) i = Some t \<Longrightarrow> task_ok (chans st) t"
  by (simp add: relay_inv_def tasks_ok_def)

lemma read_chunk_inv [inv_intros]:
  "relay_inv config acl st \<Longrightarrow> relay_inv config acl (read_chunk hmac config now i chunk st)"
  unfolding read_chunk_def
  by (auto split: option.splits task.splits sum.splits prod.splits bool.splits intro!: inv_intros
      dest: relay_inv_task simp: task_ok_def)

lemma next_frame_inv [inv_intros]:
  assumes inv: "relay_inv config acl st"
  shows "relay_inv config acl (next_frame config acl now i st)"
proof (cases "\<exists>key c b buf. hm_get (tasks st) i = Some (Reading key c b buf False)")
  case False
  then have "next_frame config acl now i st = st"
    by (auto simp: next_frame_def split: option.splits task.splits bool.splits)
  with inv show ?thesis by simp
next
  case True
  then obtain key c b buf where t: "hm_get (tasks st) i = Some (Reading key c b buf False)" by blast
  then have o: "owns (chans st) c key"
    using inv by (force simp: relay_inv_def tasks_ok_def task_ok_def)
  have set: "relay_inv config acl (st\<lparr>tasks := hm_insert i x (tasks st)\<rparr>)" if "task_ok (chans st) x" for x
    using set_task_inv [OF inv _ that] t by simp
  have step: "relay_inv config acl (st'\<lparr>tasks := hm_insert i (Reading key c b' buf' False) (tasks st')\<rparr>)"
    if "handle_frame config acl now key f st b = Inr (st', b')" for f st' b' buf'
    using handle_frame_inv [OF inv o that] handle_frame_frame [OF that] t o
    by (intro set_task_inv) (auto simp: task_ok_def)
  show ?thesis
    using t o set step
    by (auto simp: next_frame_def task_ok_def split: sum.splits option.splits prod.splits)
qed

lemma accept_inv:
  assumes inv: "relay_inv config acl st" and r: "reserve_slot config st = (True, st')"
  shows "relay_inv config acl (st'\<lparr>tasks := hm_insert (next_task st') (Handshaking ch []) (tasks st'),
    next_task := Suc (next_task st')\<rparr>)"
proof -
  from r have c: "conn_count st < max_clients config" and st': "st' = st\<lparr>conn_count := conn_count st + 1\<rparr>"
    by (auto simp: reserve_slot_def Let_def split: if_splits)
  then have u: "unat (conn_count st + 1) = unat (conn_count st) + 1"
    by (simp add: unat_inc_less)
  have "hm_get (tasks st) (next_task st) = None"
    using inv by (cases "hm_get (tasks st) (next_task st)") (auto simp: relay_inv_def tasks_ok_def)
  then show ?thesis
    using inv c u unfolding st'
    by (auto simp: relay_inv_def refs_ok_def tasks_ok_def hm.wf_insert length_hm_insert hm_simps
        less_SucI task_ok_def inc_le split: if_splits)
qed

lemma relay_step_inv: "relay_inv config acl st \<Longrightarrow> relay_inv config acl (relay_step config acl hmac st ev)"
proof (cases ev)
  case (AcceptConn c)
  assume inv: "relay_inv config acl st"
  obtain ok st' where r: "reserve_slot config st = (ok, st')" by (cases "reserve_slot config st")
  show ?thesis
  proof (cases ok)
    case True
    with r inv AcceptConn show ?thesis by (simp add: relay_step_def accept_inv)
  next
    case False
    with r have "st' = st" by (auto simp: reserve_slot_def Let_def split: if_splits)
    with False r inv AcceptConn show ?thesis by (simp add: relay_step_def)
  qed
qed (auto simp: relay_step_def intro!: inv_intros split: option.splits task.splits)

interpretation relay_machine: invariant_machine "relay_step config acl hmac" "relay_inv config acl"
  for config acl hmac
  by unfold_locales (rule relay_step_inv)

lemma relay_inv_new: "relay_inv config acl relay_new"
  by (simp add: relay_new_def relay_inv_def chans_ok_def refs_ok_def tasks_ok_def)

lemma relay_run_inv: "relay_inv config acl (foldl (relay_step config acl hmac) relay_new evs)"
  by (rule relay_machine.run_inv) (rule relay_inv_new)

text \<open>
  C31. Whatever the clients, the network and the scheduler do, the connection counter equals the number
  of connection tasks that have not ended, and it never exceeds \<open>max_clients\<close>.
\<close>

theorem relay_conn_count:
  "unat (conn_count (foldl (relay_step config acl hmac) relay_new evs)) =
     length (tasks (foldl (relay_step config acl hmac) relay_new evs)) \<and>
   conn_count (foldl (relay_step config acl hmac) relay_new evs) \<le> max_clients config"
  using relay_run_inv [of config acl hmac evs] by (simp add: relay_inv_def tasks_ok_def)


definition ex_relay_config :: relay_config where
  "ex_relay_config = \<lparr>bind_addr = [], server_key = replicate 32 0, max_clients = 2, client_buffer = 2,
     auth = NoAuth, per_sender_pps = 1\<rparr>"

definition ex_relay_events :: "event list" where
  "ex_relay_events = [AcceptConn [], ReadChunk 0 0 (encode_frame (ClientInfo (replicate 32 1)) []),
     AcceptConn [], ReadChunk 0 1 (encode_frame (ClientInfo (replicate 32 2)) []),
     ReadChunk 0 0 (encode_frame (SendPacket (replicate 32 2) [9]) []), NextFrame 0 0]"

definition ex_relay_acl :: "relay_key \<Rightarrow> relay_key \<Rightarrow> bool" where
  "ex_relay_acl s d = (s = replicate 32 1)"

lemma encode_frame_ne: "encode_frame f buf \<noteq> []"
  by (cases f) (simp_all add: write_header_def)


section \<open>A disconnected client keeps its slot\<close>

text \<open>
  When a client closes its connection while no frame waits for it, the connection task drops its
  own sender and waits for the write task; the write task waits for the channel to close; and the
  client map still holds a sender of that channel. However often the two tasks run, nothing changes:
  the slot stays counted and the client stays registered.
\<close>

theorem disconnect_keeps_slot:
  assumes "hm_get (tasks st) i = Some (Reading k c b buf True)"
    and "hm_get (clients st) k = Some cl" and "client_tx cl = c"
    and "hm_get (chans st) c = Some ch" and "rx_alive ch" and "ch_queue ch = []"
    and "set evs \<subseteq> {WriteRound c True, WriteRound c False, Join i}"
  shows "conn_count (foldl (relay_step config acl hmac) st (ReadChunk now i [] # evs)) = conn_count st \<and>
    hm_get (clients (foldl (relay_step config acl hmac) st (ReadChunk now i [] # evs))) k = Some cl"
proof -
  let ?s = "st\<lparr>tasks := hm_insert i (Joining k c) (tasks st)\<rparr>"
  have eof: "relay_step config acl hmac st (ReadChunk now i []) = ?s"
    using assms(1) by (simp add: relay_step_def read_chunk_def)
  have "cl \<in> set (hm_values (clients st))"
    using hm_get_Some_mem [OF assms(2)] by (force simp: hm_values_def)
  then have "sender_lives ?s c" using assms(3) by (auto simp: sender_lives_def list_ex_iff)
  then have stay: "relay_step config acl hmac ?s ev = ?s"
    if "ev \<in> {WriteRound c True, WriteRound c False, Join i}" for ev
    using that assms(4-6) by (auto simp: relay_step_def write_round_def rx_done_def hm_simps)
  have "foldl (relay_step config acl hmac) ?s evs = ?s"
    using assms(7) by (induction evs) (auto simp: stay)
  with eof show ?thesis using assms(2) by simp
qed

definition ex_relay_state :: relay where
  "ex_relay_state = relay_new\<lparr>conn_count := 1,
     clients := [([7], \<lparr>client_tx = 0, preferred = False\<rparr>)],
     chans := [(0, \<lparr>ch_owner = [7], ch_queue = [], rx_alive = True\<rparr>)], next_chan := 1,
     tasks := [(0, Reading [7] 0 (bucket_new 1 1 0) [] True)], next_task := 1\<rparr>"

theorem disconnect_keeps_slot_witness:
  "conn_count (foldl (relay_step ex_relay_config allow_all_forward (\<lambda>k m. [])) ex_relay_state
     [ReadChunk 0 0 [], WriteRound 0 True, Join 0]) = 1"
proof -
  have t: "hm_get (tasks ex_relay_state) 0 = Some (Reading [7] 0 (bucket_new 1 1 0) [] True)"
    "hm_get (clients ex_relay_state) [7] = Some \<lparr>client_tx = 0, preferred = False\<rparr>"
    "hm_get (chans ex_relay_state) 0 = Some \<lparr>ch_owner = [7], ch_queue = [], rx_alive = True\<rparr>"
    by (simp_all add: ex_relay_state_def hm_get_def)
  have "conn_count (foldl (relay_step ex_relay_config allow_all_forward (\<lambda>k m. [])) ex_relay_state
      (ReadChunk 0 0 [] # [WriteRound 0 True, Join 0])) = conn_count ex_relay_state"
    using disconnect_keeps_slot [OF t(1,2) _ t(3), of "[WriteRound 0 True, Join 0]"] by simp
  then show ?thesis by (simp add: ex_relay_state_def)
qed

end
