(* ===== verification/Mesh_Ipam.thy ===== *)
theory Mesh_Ipam
  imports Rust_Std
begin

text \<open>
  Mesh address allocation (\<open>crates/runesh-mesh/src/ipam.rs\<close>, \<open>error.rs\<close>): one pool per tenant, a /22
  block out of 100.64.0.0/10. Offsets are 16-bit, addresses 32-bit. The search loop of \<open>allocate\<close>
  is a partial function: that it returns is a theorem.
\<close>

datatype mesh_error =
    InvalidKey string
  | PeerNotFound string
  | IpPoolExhausted string
  | DuplicatePeer string
  | Tunnel string
  | MeshIo
  | Base64

definition CGNAT_BASE :: u32 where "CGNAT_BASE = 0x64400000"
definition BLOCK_SIZE :: u32 where "BLOCK_SIZE = 1024"
definition MAX_OFFSET :: u16 where "MAX_OFFSET = 1022"
definition MAX_TENANTS :: u16 where "MAX_TENANTS = 4096"

record tenant_ip_pool =
  tenant_id :: u16
  base :: u32
  allocated :: "u16 set"
  next_offset :: u16

definition pool_new :: "u16 \<Rightarrow> mesh_error + tenant_ip_pool" where
  "pool_new tid =
     (if tid \<ge> MAX_TENANTS then
        Inl (IpPoolExhausted (''tenant_id '' @ show_nat (unat tid) @ '' exceeds max '' @
          show_nat (unat (MAX_TENANTS - 1))))
      else Inr \<lparr>tenant_id = tid, base = CGNAT_BASE + ucast tid * BLOCK_SIZE, allocated = {},
                next_offset = 1\<rparr>)"

partial_function (option) allocate_loop ::
    "tenant_ip_pool \<Rightarrow> u16 \<Rightarrow> u16 \<Rightarrow> (mesh_error + u32 \<times> tenant_ip_pool) option" where
  "allocate_loop p start offset =
     (if offset \<le> MAX_OFFSET \<and> offset \<notin> allocated p then
        Some (Inr (base p + ucast offset,
          p\<lparr>allocated := insert offset (allocated p),
            next_offset := (if offset \<ge> MAX_OFFSET then 1 else offset + 1)\<rparr>))
      else
        let offset1 = offset + 1;
            offset2 = (if offset1 > MAX_OFFSET then 1 else offset1)
        in if offset2 = start then
             Some (Inl (IpPoolExhausted (''tenant '' @ show_nat (unat (tenant_id p)))))
           else allocate_loop p start offset2)"

definition allocate :: "tenant_ip_pool \<Rightarrow> (mesh_error + u32 \<times> tenant_ip_pool) option" where
  "allocate p = allocate_loop p (next_offset p) (next_offset p)"

definition in_block :: "tenant_ip_pool \<Rightarrow> u32 \<Rightarrow> bool" where
  "in_block p ip = (\<not> (ip < base p \<or> ip \<ge> base p + BLOCK_SIZE))"

definition allocate_specific :: "tenant_ip_pool \<Rightarrow> u32 \<Rightarrow> mesh_error + tenant_ip_pool" where
  "allocate_specific p ip =
     (if \<not> in_block p ip then
        Inl (IpPoolExhausted (ipv4_to_string ip @ '' not in tenant '' @ show_nat (unat (tenant_id p)) @ '' range''))
      else
        let offset = ucast (ip - base p) in
        if offset \<in> allocated p then Inl (DuplicatePeer (ipv4_to_string ip @ '' already allocated''))
        else Inr (p\<lparr>allocated := insert offset (allocated p)\<rparr>))"

definition release :: "tenant_ip_pool \<Rightarrow> u32 \<Rightarrow> tenant_ip_pool" where
  "release p ip =
     (if ip \<ge> base p \<and> ip < base p + BLOCK_SIZE
      then p\<lparr>allocated := allocated p - {ucast (ip - base p)}\<rparr> else p)"

definition subnet :: "tenant_ip_pool \<Rightarrow> u32" where
  "subnet p = base p"

definition allocated_count :: "tenant_ip_pool \<Rightarrow> u64" where
  "allocated_count p = of_nat (card (allocated p))"

definition available_count :: "tenant_ip_pool \<Rightarrow> u64" where
  "available_count p = ucast MAX_OFFSET - of_nat (card (allocated p))"

section \<open>The search loop\<close>

definition pool_wf :: "tenant_ip_pool \<Rightarrow> bool" where
  "pool_wf p =
     (tenant_id p < MAX_TENANTS \<and> base p = CGNAT_BASE + ucast (tenant_id p) * BLOCK_SIZE \<and>
      1 \<le> next_offset p \<and> next_offset p \<le> MAX_OFFSET \<and> (\<forall>off \<in> allocated p. off < 1024))"

text \<open>The \<open>k\<close>-th offset the loop examines when it starts at \<open>s\<close>.\<close>

definition probe :: "nat \<Rightarrow> nat \<Rightarrow> u16" where
  "probe s k = of_nat ((s - 1 + k) mod 1022 + 1)"

lemma unat_probe [simp]: "unat (probe s k) = (s - 1 + k) mod 1022 + 1"
proof -
  have "(s - 1 + k) mod 1022 + 1 < 2 ^ LENGTH(16)"
    using mod_less_divisor [of 1022 "s - 1 + k"] by simp
  then show ?thesis unfolding probe_def by (rule unat_of_nat_small)
qed

lemma probe_start: "1 \<le> start \<Longrightarrow> start \<le> MAX_OFFSET \<Longrightarrow> probe (unat start) 0 = start"
  by (rule word_unat_eq_iff [THEN iffD2]) (simp add: word_le_nat_alt MAX_OFFSET_def)

lemma probe_Suc:
  "(if probe s k + 1 > MAX_OFFSET then 1 else probe s k + 1) = probe s (Suc k)"
proof -
  define m where "m = (s - 1 + k) mod 1022"
  have m: "m < 1022" by (simp add: m_def)
  have p: "unat (probe s k) = m + 1" by (simp add: m_def)
  then have u: "unat (probe s k + 1) = m + 2"
    using unat_inc_less [of "probe s k" 1023] m by (simp add: word_less_nat_alt)
  have q: "unat (probe s (Suc k)) = (if m = 1021 then 0 else m + 1) + 1"
    by (simp add: m_def mod_Suc)
  show ?thesis
  proof (cases "m = 1021")
    case True
    with u q show ?thesis by (auto simp: word_less_nat_alt word_unat_eq_iff MAX_OFFSET_def)
  next
    case False
    with m have "m < 1021" by simp
    with u q show ?thesis by (auto simp: word_less_nat_alt word_unat_eq_iff MAX_OFFSET_def)
  qed
qed

lemma probe_le [simp]: "probe s k \<le> MAX_OFFSET"
  using mod_less_divisor [of 1022 "s - 1 + k"] by (simp add: word_le_nat_alt MAX_OFFSET_def)

lemma probe_eq_start:
  assumes "1 \<le> s" "s \<le> 1022" "0 < k" "k \<le> 1022"
  shows "probe s k = of_nat s \<longleftrightarrow> k = 1022"
proof -
  have u: "unat (of_nat s :: u16) = s" using assms(2) by (simp add: unat_of_nat_small)
  have "(s - 1 + k) mod 1022 + 1 = s \<longleftrightarrow> k = 1022"
  proof (cases "s - 1 + k < 1022")
    case True
    with assms show ?thesis by auto
  next
    case False
    then have "(s - 1 + k) mod 1022 = s - 1 + k - 1022"
      using assms by (simp add: mod_if)
    with False assms show ?thesis by auto
  qed
  with u show ?thesis by (metis unat_probe word_unat_eq_iff)
qed

text \<open>The loop returns the first free offset in cyclic order, or the error after a full turn.\<close>

lemma allocate_loop_find:
  assumes start: "1 \<le> start" "start \<le> MAX_OFFSET" and "k < 1022"
  shows "allocate_loop p start (probe (unat start) k) =
    (case find (\<lambda>j. probe (unat start) j \<notin> allocated p) [k..<1022] of
       Some j \<Rightarrow> let offset = probe (unat start) j in
         Some (Inr (base p + ucast offset,
           p\<lparr>allocated := insert offset (allocated p),
             next_offset := (if offset \<ge> MAX_OFFSET then 1 else offset + 1)\<rparr>))
     | None \<Rightarrow> Some (Inl (IpPoolExhausted (''tenant '' @ show_nat (unat (tenant_id p))))))"
  using assms(3)
proof (induction "1022 - k" arbitrary: k)
  case (Suc n)
  let ?s = "unat start"
  have s: "1 \<le> ?s" "?s \<le> 1022" "(of_nat ?s :: u16) = start"
    using start by (auto simp: word_le_nat_alt MAX_OFFSET_def)
  have up: "[k..<1022] = k # [Suc k..<1022]" using Suc.prems by (rule upt_conv_Cons)
  show ?case
  proof (cases "probe ?s k \<in> allocated p")
    case False
    then show ?thesis by (subst allocate_loop.simps) (simp add: up Let_def)
  next
    case True
    then have nxt: "allocate_loop p start (probe ?s k) =
        (if probe ?s (Suc k) = start then
           Some (Inl (IpPoolExhausted (''tenant '' @ show_nat (unat (tenant_id p)))))
         else allocate_loop p start (probe ?s (Suc k)))"
      by (subst allocate_loop.simps) (simp only: probe_Suc Let_def simp_thms if_False)
    have iff: "probe ?s (Suc k) = start \<longleftrightarrow> Suc k = 1022"
      using probe_eq_start [OF s(1,2), of "Suc k"] s(3) Suc.prems by simp
    show ?thesis
    proof (cases "Suc k = 1022")
      case True
      with nxt iff \<open>probe ?s k \<in> allocated p\<close> show ?thesis by (simp add: up)
    next
      case False
      then have "Suc k < 1022" "n = 1022 - Suc k" using Suc.prems Suc.hyps(2) by auto
      with Suc.hyps(1) [of "Suc k"] nxt iff False True show ?thesis by (simp add: up)
    qed
  qed
qed simp

lemma probe_surj:
  assumes "1 \<le> s" "s \<le> 1022" "1 \<le> off" "off \<le> MAX_OFFSET"
  shows "\<exists>j < 1022. probe s j = off"
proof -
  have o: "1 \<le> unat off" "unat off \<le> 1022"
    using assms(3,4) by (auto simp: word_le_nat_alt MAX_OFFSET_def)
  define j where "j = (if s \<le> unat off then unat off - s else unat off + 1022 - s)"
  have "j < 1022" using o assms(1,2) by (auto simp: j_def)
  moreover have "(s - 1 + j) mod 1022 + 1 = unat off"
  proof (cases "s \<le> unat off")
    case True
    then have "s - 1 + j = unat off - 1" using assms(1) by (simp add: j_def)
    then show ?thesis using o by simp
  next
    case False
    then have "s - 1 + j = unat off - 1 + 1022" using assms(1,2) o by (simp add: j_def)
    then have "(s - 1 + j) mod 1022 = (unat off - 1) mod 1022" by (simp only: mod_add_self2)
    then show ?thesis using o by simp
  qed
  then have "probe s j = off" by (simp add: word_unat_eq_iff)
  ultimately show ?thesis by blast
qed

section \<open>Blocks and held addresses\<close>

definition held :: "tenant_ip_pool \<Rightarrow> u32 set" where
  "held p = (\<lambda>off. base p + ucast off) ` allocated p"

lemma unat_base: "pool_wf p \<Longrightarrow> unat (base p) = 0x64400000 + 1024 * unat (tenant_id p)"
proof -
  assume "pool_wf p"
  then have b: "base p = CGNAT_BASE + ucast (tenant_id p) * BLOCK_SIZE" and t: "unat (tenant_id p) < 4096"
    by (auto simp: pool_wf_def word_less_nat_alt MAX_TENANTS_def)
  have "base p = of_nat (0x64400000 + 1024 * unat (tenant_id p))"
    by (simp add: b CGNAT_BASE_def BLOCK_SIZE_def)
  moreover have "0x64400000 + 1024 * unat (tenant_id p) < 2 ^ LENGTH(32)" using t by simp
  ultimately show ?thesis by (simp only: unat_of_nat_small)
qed

lemma unat_addr:
  fixes off :: u16
  assumes "pool_wf p"
  shows "unat (base p + ucast off) = unat (base p) + unat off"
proof -
  have "unat (tenant_id p) < 4096"
    using assms by (simp add: pool_wf_def word_less_nat_alt MAX_TENANTS_def)
  moreover have "unat off < 65536" using unsigned_less [of off] by simp
  moreover have u: "unat (ucast off :: u32) = unat off" by (simp add: unat_ucast_up)
  ultimately have "unat (base p) + unat (ucast off :: u32) < 2 ^ LENGTH(32)"
    using unat_base [OF assms] by simp
  then have "unat (base p + ucast off) = unat (base p) + unat (ucast off :: u32)"
    by (simp only: unat_add_lem)
  with u show ?thesis by simp
qed

lemma held_iff: "base p + ucast off \<in> held p \<longleftrightarrow> off \<in> allocated p"
  by (auto simp: held_def ucast_up_eq_iff)

lemma unat_block_end: "pool_wf p \<Longrightarrow> unat (base p + BLOCK_SIZE) = unat (base p) + 1024"
  using unat_addr [of p 1024] by (simp add: BLOCK_SIZE_def)

lemma in_block_iff:
  assumes "pool_wf p"
  shows "in_block p ip \<longleftrightarrow> unat (base p) \<le> unat ip \<and> unat ip < unat (base p) + 1024"
  using unat_block_end [OF assms] by (auto simp: in_block_def word_less_nat_alt word_le_nat_alt not_le)

lemma in_block_offset:
  assumes "pool_wf p" "in_block p ip"
  shows "base p + ucast (ucast (ip - base p) :: u16) = ip" "unat (ucast (ip - base p) :: u16) < 1024"
proof -
  have b: "unat (base p) \<le> unat ip" "unat ip < unat (base p) + 1024"
    using assms by (simp_all add: in_block_iff)
  then have d: "unat (ip - base p) = unat ip - unat (base p)"
    by (simp add: unat_sub word_le_nat_alt)
  then have u: "unat (ucast (ip - base p) :: u16) = unat ip - unat (base p)"
    using b by (simp add: unsigned_ucast_eq take_bit_nat_eq_self)
  with b show "unat (ucast (ip - base p) :: u16) < 1024" by simp
  show "base p + ucast (ucast (ip - base p) :: u16) = ip"
    using unat_addr [OF assms(1), of "ucast (ip - base p)"] u b by (simp add: word_unat_eq_iff)
qed

section \<open>The pool implements a set of addresses\<close>

datatype pool_op = Allocate | AllocateSpecific u32 | Release u32

definition pool_step :: "tenant_ip_pool \<Rightarrow> pool_op \<Rightarrow> tenant_ip_pool" where
  "pool_step p op =
     (case op of
        Allocate \<Rightarrow> (case allocate p of Some (Inr (_, p')) \<Rightarrow> p' | _ \<Rightarrow> p)
      | AllocateSpecific ip \<Rightarrow> (case allocate_specific p ip of Inr p' \<Rightarrow> p' | Inl _ \<Rightarrow> p)
      | Release ip \<Rightarrow> release p ip)"

text \<open>
  The specification: a set of held addresses of the block that starts at \<open>b\<close>. Allocation adds a
  usable address nobody holds, unless all 1022 of them are held.
\<close>

definition usable :: "u32 \<Rightarrow> u32 set" where
  "usable b = {ip. unat b < unat ip \<and> unat ip < unat b + 1023}"

fun pool_spec :: "u32 \<Rightarrow> u32 set \<Rightarrow> pool_op \<Rightarrow> u32 set \<Rightarrow> bool" where
  "pool_spec b a Allocate a' =
     ((\<exists>ip \<in> usable b - a. a' = insert ip a) \<or> usable b \<subseteq> a \<and> a' = a)"
| "pool_spec b a (AllocateSpecific ip) a' =
     (a' = (if unat b \<le> unat ip \<and> unat ip < unat b + 1024 then insert ip a else a))"
| "pool_spec b a (Release ip) a' = (a' = a - {ip})"

lemma probe_ge: "1 \<le> probe s k"
  by (simp add: word_le_nat_alt)

lemma allocate_result:
  assumes wf: "pool_wf p"
  shows "(\<exists>off. 1 \<le> off \<and> off \<le> MAX_OFFSET \<and> off \<notin> allocated p \<and>
      allocate p = Some (Inr (base p + ucast off,
        p\<lparr>allocated := insert off (allocated p),
          next_offset := (if off \<ge> MAX_OFFSET then 1 else off + 1)\<rparr>))) \<or>
    (\<forall>off. 1 \<le> off \<and> off \<le> MAX_OFFSET \<longrightarrow> off \<in> allocated p) \<and>
      allocate p = Some (Inl (IpPoolExhausted (''tenant '' @ show_nat (unat (tenant_id p)))))"
proof -
  let ?n = "next_offset p" and ?s = "unat (next_offset p)"
  have n: "1 \<le> ?n" "?n \<le> MAX_OFFSET" using wf by (auto simp: pool_wf_def)
  then have s: "1 \<le> ?s" "?s \<le> 1022" by (auto simp: word_le_nat_alt MAX_OFFSET_def)
  note loop = allocate_loop_find [OF n, of 0 p, unfolded probe_start [OF n]]
  show ?thesis
  proof (cases "find (\<lambda>j. probe ?s j \<notin> allocated p) [0..<1022]")
    case None
    then have "\<forall>j < 1022. probe ?s j \<in> allocated p" by (auto simp: find_None_iff)
    then have "\<forall>off. 1 \<le> off \<and> off \<le> MAX_OFFSET \<longrightarrow> off \<in> allocated p"
      using probe_surj [OF s] by metis
    with None loop show ?thesis by (simp add: allocate_def)
  next
    case (Some j)
    then have "probe ?s j \<notin> allocated p" by (auto simp: find_Some_iff)
    with Some loop show ?thesis
      by (intro disjI1 exI [of _ "probe ?s j"]) (simp add: allocate_def Let_def probe_ge)
  qed
qed

lemma next_offset_range:
  "1 \<le> off \<Longrightarrow> off \<le> MAX_OFFSET \<Longrightarrow>
     1 \<le> (if off \<ge> MAX_OFFSET then 1 else off + 1) \<and> (if off \<ge> MAX_OFFSET then 1 else off + 1) \<le> MAX_OFFSET"
proof (cases "off \<ge> MAX_OFFSET")
  case False
  then have "unat (off + 1) = unat off + 1" using unat_inc_less [of off MAX_OFFSET] by simp
  with False show ?thesis by (simp add: word_le_nat_alt MAX_OFFSET_def)
qed (simp add: MAX_OFFSET_def)

lemma pool_step_wf: "pool_wf p \<Longrightarrow> pool_wf (pool_step p op)"
proof (cases op)
  case Allocate
  assume wf: "pool_wf p"
  from allocate_result [OF wf] show ?thesis
  proof (elim disjE exE conjE)
    fix off
    assume off: "1 \<le> off" "off \<le> MAX_OFFSET" and
      res: "allocate p = Some (Inr (base p + ucast off, p\<lparr>allocated := insert off (allocated p),
          next_offset := (if off \<ge> MAX_OFFSET then 1 else off + 1)\<rparr>))"
    have "off < 1024" using off(2) by (simp add: word_le_nat_alt word_less_nat_alt MAX_OFFSET_def)
    with wf res next_offset_range [OF off] show ?thesis
      by (simp add: pool_step_def Allocate pool_wf_def)
  qed (use wf in \<open>simp add: pool_step_def Allocate\<close>)
next
  case (AllocateSpecific ip)
  assume wf: "pool_wf p"
  show ?thesis
  proof (cases "in_block p ip")
    case True
    then have "(ucast (ip - base p) :: u16) < 1024"
      using in_block_offset(2) [OF wf True] by (simp add: word_less_nat_alt)
    with wf show ?thesis
      by (auto simp: pool_step_def AllocateSpecific allocate_specific_def Let_def pool_wf_def)
  next
    case False
    with wf show ?thesis by (simp add: pool_step_def AllocateSpecific allocate_specific_def)
  qed
next
  case (Release ip)
  then show "pool_wf p \<Longrightarrow> ?thesis" by (auto simp: pool_step_def release_def pool_wf_def)
qed

lemma held_insert: "held (p\<lparr>allocated := insert off (allocated p), next_offset := n\<rparr>) = insert (base p + ucast off) (held p)"
  by (simp add: held_def)

lemma usable_iff:
  assumes "pool_wf p" "1 \<le> off" "off \<le> MAX_OFFSET"
  shows "base p + ucast off \<in> usable (base p)"
  using assms(2,3) by (simp add: usable_def unat_addr [OF assms(1)] word_le_nat_alt MAX_OFFSET_def)

lemma usableE:
  assumes "pool_wf p" "ip \<in> usable (base p)"
  obtains off :: u16 where "1 \<le> off" "off \<le> MAX_OFFSET" "ip = base p + ucast off"
proof -
  let ?o = "ucast (ip - base p) :: u16"
  have b: "in_block p ip" using assms by (simp add: usable_def in_block_iff)
  have ip: "base p + ucast ?o = ip" using in_block_offset(1) [OF assms(1) b] .
  then have "unat ip = unat (base p) + unat ?o" using unat_addr [OF assms(1), of ?o] by metis
  then have "1 \<le> ?o" "?o \<le> MAX_OFFSET"
    using assms(2) by (auto simp: usable_def word_le_nat_alt MAX_OFFSET_def)
  with ip that show ?thesis by metis
qed

lemma base_step: "pool_wf p \<Longrightarrow> base (pool_step p op) = base p"
  using allocate_result [of p]
  by (cases op) (auto simp: pool_step_def allocate_specific_def Let_def release_def)

lemma addr_inj: "inj (\<lambda>off :: u16. base p + ucast off)"
  by (auto simp: inj_def ucast_up_eq_iff)

lemma pool_step_refines:
  assumes wf: "pool_wf p"
  shows "pool_spec (base p) (held p) op (held (pool_step p op))"
proof (cases op)
  case Allocate
  from allocate_result [OF wf] show ?thesis
  proof (elim disjE exE conjE)
    fix off
    assume off: "1 \<le> off" "off \<le> MAX_OFFSET" "off \<notin> allocated p" and
      res: "allocate p = Some (Inr (base p + ucast off, p\<lparr>allocated := insert off (allocated p),
          next_offset := (if off \<ge> MAX_OFFSET then 1 else off + 1)\<rparr>))"
    have "base p + ucast off \<in> usable (base p) - held p"
      using usable_iff [OF wf off(1,2)] off(3) by (simp add: held_iff)
    with res show ?thesis by (auto simp: pool_step_def Allocate held_insert)
  next
    assume full: "\<forall>off. 1 \<le> off \<and> off \<le> MAX_OFFSET \<longrightarrow> off \<in> allocated p" and
      res: "allocate p = Some (Inl (IpPoolExhausted (''tenant '' @ show_nat (unat (tenant_id p)))))"
    have "usable (base p) \<subseteq> held p"
    proof
      fix ip assume "ip \<in> usable (base p)"
      then obtain off :: u16 where "1 \<le> off" "off \<le> MAX_OFFSET" "ip = base p + ucast off"
        by (rule usableE [OF wf])
      with full show "ip \<in> held p" by (simp add: held_iff)
    qed
    with res show ?thesis by (simp add: pool_step_def Allocate)
  qed
next
  case (AllocateSpecific ip)
  show ?thesis
  proof (cases "in_block p ip")
    case True
    note o = in_block_offset(1) [OF wf True]
    have "ip \<in> held p \<longleftrightarrow> ucast (ip - base p) \<in> allocated p"
      using held_iff [of p "ucast (ip - base p)"] o by simp
    with True o show ?thesis
      using in_block_iff [OF wf, of ip]
      by (auto simp: pool_step_def AllocateSpecific allocate_specific_def Let_def held_def)
  next
    case False
    then show ?thesis
      using in_block_iff [OF wf, of ip]
      by (auto simp: pool_step_def AllocateSpecific allocate_specific_def)
  qed
next
  case (Release ip)
  show ?thesis
  proof (cases "in_block p ip")
    case True
    note o = in_block_offset(1) [OF wf True]
    have "held (release p ip) = held p - {ip}"
      using True o
      by (simp add: release_def in_block_def not_less not_le held_def image_set_diff [OF addr_inj])
    then show ?thesis by (simp add: pool_step_def Release)
  next
    case False
    have "ip \<notin> held p"
    proof
      assume "ip \<in> held p"
      then obtain off where "off \<in> allocated p" "ip = base p + ucast off" by (auto simp: held_def)
      then have "in_block p ip"
        using wf unat_addr [OF wf, of off] by (auto simp: in_block_iff pool_wf_def word_less_nat_alt)
      with False show False ..
    qed
    with False show ?thesis by (auto simp: pool_step_def Release release_def in_block_def)
  qed
qed

interpretation pool_machine: refinement_machine pool_step "\<lambda>p. pool_wf p \<and> base p = b" held "pool_spec b"
  for b
  by unfold_locales (auto simp: pool_step_wf base_step intro: pool_step_refines)

text \<open>
  \<open>allocate\<close> always returns. It hands out a usable address of the tenant's block (never its network
  or broadcast address) that nobody holds, and records exactly this address; it fails exactly when all
  1022 usable addresses are held.
\<close>

theorem allocate_spec:
  assumes "pool_wf p"
  shows "(\<exists>ip p'. allocate p = Some (Inr (ip, p')) \<and> ip \<in> usable (base p) \<and> ip \<notin> held p \<and>
      held p' = insert ip (held p) \<and> base p' = base p) \<or>
    usable (base p) \<subseteq> held p \<and>
      allocate p = Some (Inl (IpPoolExhausted (''tenant '' @ show_nat (unat (tenant_id p)))))"
  using allocate_result [OF assms]
proof (elim disjE exE conjE)
  fix off
  assume off: "1 \<le> off" "off \<le> MAX_OFFSET" "off \<notin> allocated p" and
    res: "allocate p = Some (Inr (base p + ucast off, p\<lparr>allocated := insert off (allocated p),
        next_offset := (if off \<ge> MAX_OFFSET then 1 else off + 1)\<rparr>))"
  let ?p' = "p\<lparr>allocated := insert off (allocated p), next_offset := (if off \<ge> MAX_OFFSET then 1 else off + 1)\<rparr>"
  have "base p + ucast off \<in> usable (base p)" "base p + ucast off \<notin> held p"
    "held ?p' = insert (base p + ucast off) (held p)" "base ?p' = base p"
    using usable_iff [OF assms off(1,2)] off(3) by (simp_all add: held_iff held_insert)
  with res show ?thesis by blast
next
  assume res: "allocate p = Some (Inl (IpPoolExhausted (''tenant '' @ show_nat (unat (tenant_id p)))))"
  then have "pool_step p Allocate = p" by (simp add: pool_step_def)
  with pool_step_refines [OF assms, of Allocate] have "usable (base p) \<subseteq> held p" by auto
  with res show ?thesis by blast
qed

lemma pool_new_wf: "pool_new tid = Inr p \<Longrightarrow> pool_wf p \<and> held p = {}"
  by (auto simp: pool_new_def pool_wf_def held_def MAX_OFFSET_def split: if_splits)

theorem allocate_spec_witness:
  "\<exists>p ip p'. pool_new 3 = Inr p \<and> allocate p = Some (Inr (ip, p')) \<and> ip \<in> held p'"
proof -
  obtain p where p: "pool_new 3 = Inr p" by (simp add: pool_new_def MAX_TENANTS_def)
  note w = pool_new_wf [OF p]
  have "base p + 1 \<in> usable (base p)"
    using usable_iff [of p 1] w by (simp add: MAX_OFFSET_def)
  with allocate_spec [of p] w p show ?thesis by auto
qed

lemma allocate_specific_ok:
  assumes "pool_wf p"
  shows "is_ok (allocate_specific p ip) \<longleftrightarrow> unat (base p) \<le> unat ip \<and> unat ip < unat (base p) + 1024 \<and> ip \<notin> held p"
proof (cases "in_block p ip")
  case True
  have "ip \<in> held p \<longleftrightarrow> ucast (ip - base p) \<in> allocated p"
    using held_iff [of p "ucast (ip - base p)"] in_block_offset(1) [OF assms True] by simp
  then show ?thesis using True in_block_iff [OF assms, of ip] by (simp add: allocate_specific_def Let_def)
next
  case False
  then show ?thesis using in_block_iff [OF assms, of ip] by (auto simp: allocate_specific_def)
qed

text \<open>
  C3. Refinement: any sequence of allocations, restorations and releases on a fresh pool is a run of
  the specification over sets of addresses. After it an allocation returns a usable address that is not held and
  records it, and fails only if all are held; a specific address is given out exactly if it is in the block and not held.
\<close>

theorem pool_refines_spec:
  fixes p ops defines "q \<equiv> foldl pool_step p ops"
  assumes "pool_new tid = Inr p"
  shows "spec_run (pool_spec (base p)) {} ops (held q) \<and>
    ((\<exists>ip q'. allocate q = Some (Inr (ip, q')) \<and> ip \<in> usable (base p) - held q \<and> held q' = insert ip (held q)) \<or>
     usable (base p) \<subseteq> held q \<and> (\<exists>e. allocate q = Some (Inl e))) \<and>
    (is_ok (allocate_specific q ip) \<longleftrightarrow> unat (base p) \<le> unat ip \<and> unat ip < unat (base p) + 1024 \<and> ip \<notin> held q)"
proof -
  have w: "pool_wf p \<and> base p = base p" and h: "held p = {}" using pool_new_wf [OF assms(2)] by simp_all
  then have q: "pool_wf q" "base q = base p" unfolding q_def using pool_machine.run_inv by blast+
  show ?thesis
    using pool_machine.run_refines [of p "base p" ops] w h allocate_spec [OF q(1)] allocate_specific_ok [OF q(1), of ip] q(2)
    by (auto simp: q_def)
qed

theorem pool_refines_spec_witness:
  "\<exists>p. pool_new 0 = Inr p \<and> (let q = foldl pool_step p [Allocate, Allocate] in
     spec_run (pool_spec (base p)) {} [Allocate, Allocate] (held q) \<and>
     (is_ok (allocate_specific q 0) \<longleftrightarrow> unat (base p) \<le> unat (0 :: u32) \<and> unat (0 :: u32) < unat (base p) + 1024 \<and> 0 \<notin> held q))"
proof -
  obtain p where p: "pool_new 0 = Inr p" by (simp add: pool_new_def MAX_TENANTS_def)
  with pool_refines_spec [OF p, of "[Allocate, Allocate]" 0] show ?thesis unfolding Let_def by blast
qed

lemma held_in_block: "pool_wf p \<Longrightarrow> ip \<in> held p \<Longrightarrow> in_block p ip"
  using unat_addr [of p] by (auto simp: held_def in_block_iff pool_wf_def word_less_nat_alt)

text \<open>
  Pools of different tenants never share an address, and every address of a pool lies in
  100.64.0.0/10, whatever the operations on them.
\<close>

theorem tenant_isolation:
  assumes "pool_new t1 = Inr p1" "pool_new t2 = Inr p2" "t1 \<noteq> t2"
  shows "held (foldl pool_step p1 ops1) \<inter> held (foldl pool_step p2 ops2) = {} \<and>
    (ip \<in> held (foldl pool_step p1 ops1) \<longrightarrow> 0x64400000 \<le> ip \<and> ip < 0x64800000)"
proof -
  let ?q1 = "foldl pool_step p1 ops1" and ?q2 = "foldl pool_step p2 ops2"
  have w: "pool_wf p1" "pool_wf p2" using pool_new_wf assms(1,2) by blast+
  then have q: "pool_wf ?q1" "base ?q1 = base p1" "pool_wf ?q2" "base ?q2 = base p2"
    using pool_machine.run_inv by blast+
  have t: "tenant_id p1 = t1" "tenant_id p2 = t2"
    using assms(1,2) by (auto simp: pool_new_def split: if_splits)
  have ne: "unat t1 \<noteq> unat t2" using assms(3) by (simp add: word_unat_eq_iff)
  have lt: "unat t1 < 4096"
    using w(1) t by (simp add: pool_wf_def word_less_nat_alt MAX_TENANTS_def)
  have b1: "unat (base p1) \<le> unat x \<and> unat x < unat (base p1) + 1024" if "x \<in> held ?q1" for x
    using held_in_block [OF q(1) that] q(1,2) by (simp add: in_block_iff)
  have b2: "unat (base p2) \<le> unat x \<and> unat x < unat (base p2) + 1024" if "x \<in> held ?q2" for x
    using held_in_block [OF q(3) that] q(3,4) by (simp add: in_block_iff)
  have "held ?q1 \<inter> held ?q2 = {}"
  proof (rule equals0I)
    fix x assume "x \<in> held ?q1 \<inter> held ?q2"
    with b1 [of x] b2 [of x] unat_base [OF w(1)] unat_base [OF w(2)] t ne show False by auto
  qed
  moreover have "0x64400000 \<le> ip \<and> ip < 0x64800000" if "ip \<in> held ?q1"
    using b1 [OF that] unat_base [OF w(1)] t lt by (simp add: word_le_nat_alt word_less_nat_alt)
  ultimately show ?thesis by blast
qed

theorem tenant_isolation_witness:
  "\<exists>p1 p2. pool_new 0 = Inr p1 \<and> pool_new 1 = Inr p2 \<and>
     held (pool_step p1 Allocate) \<inter> held (pool_step p2 Allocate) = {}"
proof -
  obtain p1 p2 where p: "pool_new 0 = Inr p1" "pool_new 1 = Inr p2"
    by (simp add: pool_new_def MAX_TENANTS_def word_le_nat_alt)
  have "held (foldl pool_step p1 [Allocate]) \<inter> held (foldl pool_step p2 [Allocate]) = {}"
    using tenant_isolation [OF p, of "[Allocate]" "[Allocate]"] by simp
  with p show ?thesis by auto
qed

section \<open>Restoring reserved addresses\<close>

lemma restore_step:
  assumes "pool_wf p" "n < 1024"
  shows "allocated (pool_step p (AllocateSpecific (base p + of_nat n))) = insert (of_nat n) (allocated p)"
proof -
  let ?o = "of_nat n :: u16"
  have n: "unat ?o = n" using assms(2) by (simp add: unat_of_nat_small)
  have "unat (ucast ?o :: u32) = unat (of_nat n :: u32)"
    using n assms(2) by (simp add: unat_ucast_up unat_of_nat_small)
  then have u: "(of_nat n :: u32) = ucast ?o" by (simp add: word_unat_eq_iff)
  have b: "in_block p (base p + of_nat n)"
    using unat_addr [OF assms(1), of ?o] n assms(2) by (simp add: in_block_iff [OF assms(1)] u)
  have "(ucast (ucast (base p + of_nat n - base p) :: u16) :: u32) = ucast ?o"
    using in_block_offset(1) [OF assms(1) b] u by (metis add_left_cancel)
  then have "ucast (base p + of_nat n - base p) = ?o" by (simp add: ucast_up_eq_iff)
  with b show ?thesis
    by (auto simp: pool_step_def allocate_specific_def Let_def insert_absorb)
qed

definition restore_all :: "tenant_ip_pool \<Rightarrow> nat \<Rightarrow> tenant_ip_pool" where
  "restore_all p n = foldl pool_step p (map (\<lambda>i. AllocateSpecific (base p + of_nat i)) [0..<n])"

lemma restore_all_allocated:
  assumes "pool_new tid = Inr p" "n \<le> 1024"
  shows "allocated (restore_all p n) = of_nat ` {..<n}"
  using assms(2)
proof (induction n)
  case 0
  with assms(1) show ?case by (auto simp: restore_all_def pool_new_def split: if_splits)
next
  case (Suc n)
  have w: "pool_wf (restore_all p n)" "base (restore_all p n) = base p"
    using pool_machine.run_inv [of p "base p"] pool_new_wf [OF assms(1)] by (auto simp: restore_all_def)
  have "restore_all p (Suc n) = pool_step (restore_all p n) (AllocateSpecific (base p + of_nat n))"
    by (simp add: restore_all_def)
  then show ?case
    using Suc restore_step [OF w(1), of n] w(2) by (simp add: lessThan_Suc)
qed

text \<open>
  \<open>allocate_specific\<close> accepts the network and the broadcast address of the block. Once a whole block
  is restored through it, 1024 addresses are held, and \<open>available_count\<close>, which subtracts that number
  from 1022, underflows to \<open>2^64 - 2\<close>.
\<close>

theorem available_count_underflows:
  assumes "pool_new tid = Inr p"
  shows "allocated_count (restore_all p 1024) = 1024 \<and>
    available_count (restore_all p 1024) = 0xFFFFFFFFFFFFFFFE"
proof -
  have "inj_on (of_nat :: nat \<Rightarrow> u16) {..<1024}"
  proof (rule inj_onI)
    fix i j :: nat
    assume ij: "i \<in> {..<1024}" "j \<in> {..<1024}" and eq: "(of_nat i :: u16) = of_nat j"
    from ij have "unat (of_nat i :: u16) = i" "unat (of_nat j :: u16) = j"
      by (auto intro!: unat_of_nat_small)
    with eq show "i = j" by metis
  qed
  then have "card (allocated (restore_all p 1024)) = 1024"
    by (simp only: restore_all_allocated [OF assms order_refl] card_image card_lessThan)
  moreover have "(ucast (1022 :: u16) :: u64) - 1024 = 0xFFFFFFFFFFFFFFFE" by code_simp
  ultimately show ?thesis
    by (simp only: allocated_count_def available_count_def MAX_OFFSET_def of_nat_numeral simp_thms)
qed

theorem available_count_underflows_witness:
  "\<exists>p. pool_new 0 = Inr p \<and> available_count (restore_all p 1024) = 0xFFFFFFFFFFFFFFFE"
proof -
  obtain p where p: "pool_new 0 = Inr p" by (simp add: pool_new_def MAX_TENANTS_def)
  with available_count_underflows [OF p] show ?thesis by blast
qed

end
