(* ===== verification/Mesh_Peer.thy ===== *)
theory Mesh_Peer
  imports Ipnet
begin

text \<open>
  The peer map of a mesh (\<open>crates/runesh-mesh/src/peer.rs\<close>): peers by public key, the reverse index
  from mesh addresses to keys, and routing by longest prefix. \<open>HashMap\<close> iteration is in the order of
  the association list; the routing theorem holds for every order. The clock of \<open>set_online\<close> is an
  argument.
\<close>

type_synonym wg_public_key = string
type_synonym socket_addr = "ip_addr \<times> u16"

record 'net peer_info =
  public_key :: wg_public_key
  mesh_ip :: u32
  endpoints :: "socket_addr list"
  allowed_ips :: "'net list"
  derp_region :: "u16 option"
  is_exit_node :: bool
  is_subnet_router :: bool
  peer_hostname :: "string option"
  peer_os :: "string option"
  peer_tags :: "string list"
  peer_user :: "string option"
  online :: bool
  last_seen :: "u64 option"

record 'net peer_map =
  peers :: "(wg_public_key, 'net peer_info) hash_map"
  ip_to_key :: "(u32, wg_public_key) hash_map"

definition peer_map_new :: "'net peer_map" where
  "peer_map_new = \<lparr>peers = [], ip_to_key = []\<rparr>"

definition upsert :: "'net peer_info \<Rightarrow> 'net peer_map \<Rightarrow> 'net peer_map" where
  "upsert peer m =
     (let key = public_key peer;
          ip = mesh_ip peer;
          index = (case hm_get (peers m) key of
             Some existing \<Rightarrow>
               if mesh_ip existing \<noteq> ip then hm_remove (mesh_ip existing) (ip_to_key m) else ip_to_key m
           | None \<Rightarrow> ip_to_key m)
      in \<lparr>peers = hm_insert key peer (peers m), ip_to_key = hm_insert ip key index\<rparr>)"

definition remove_peer :: "wg_public_key \<Rightarrow> 'net peer_map \<Rightarrow> 'net peer_info option \<times> 'net peer_map" where
  "remove_peer key m =
     (case hm_get (peers m) key of
        Some peer \<Rightarrow>
          (Some peer, \<lparr>peers = hm_remove key (peers m), ip_to_key = hm_remove (mesh_ip peer) (ip_to_key m)\<rparr>)
      | None \<Rightarrow> (None, m))"

definition get_peer :: "wg_public_key \<Rightarrow> 'net peer_map \<Rightarrow> 'net peer_info option" where
  "get_peer key m = hm_get (peers m) key"

definition get_by_ip :: "u32 \<Rightarrow> 'net peer_map \<Rightarrow> 'net peer_info option" where
  "get_by_ip ip m = Option.bind (hm_get (ip_to_key m) ip) (\<lambda>key. hm_get (peers m) key)"

fun route_allowed ::
    "'net ipnet_api \<Rightarrow> ip_addr \<Rightarrow> wg_public_key \<Rightarrow> 'net list \<Rightarrow> (wg_public_key \<times> u8) option \<Rightarrow>
       (wg_public_key \<times> u8) option" where
  "route_allowed api d key [] best = best"
| "route_allowed api d key (net # nets) best =
     route_allowed api d key nets
       (if net_contains api net d then
          let prefix_len = net_prefix_len api net in
          (case best of
             None \<Rightarrow> Some (key, prefix_len)
           | Some (_, b) \<Rightarrow> if prefix_len > b then Some (key, prefix_len) else best)
        else best)"

fun route_peers ::
    "'net ipnet_api \<Rightarrow> ip_addr \<Rightarrow> (wg_public_key, 'net peer_info) hash_map \<Rightarrow>
       (wg_public_key \<times> u8) option \<Rightarrow> (wg_public_key \<times> u8) option" where
  "route_peers api d [] best = best"
| "route_peers api d ((key, peer) # ps) best =
     route_peers api d ps (route_allowed api d key (allowed_ips peer) best)"

definition route :: "'net ipnet_api \<Rightarrow> u32 \<Rightarrow> 'net peer_map \<Rightarrow> wg_public_key option" where
  "route api dst_addr m =
     (case hm_get (ip_to_key m) dst_addr of
        Some key \<Rightarrow> Some key
      | None \<Rightarrow> map_option fst (route_peers api (V4 dst_addr) (peers m) None))"

definition peer_map_len :: "'net peer_map \<Rightarrow> nat" where
  "peer_map_len m = length (peers m)"

definition online_peers :: "'net peer_map \<Rightarrow> 'net peer_info list" where
  "online_peers m = filter online (hm_values (peers m))"

definition set_online :: "u64 \<Rightarrow> wg_public_key \<Rightarrow> bool \<Rightarrow> 'net peer_map \<Rightarrow> 'net peer_map" where
  "set_online now key on m =
     (case hm_get (peers m) key of
        Some peer \<Rightarrow>
          let peer1 = peer\<lparr>online := on\<rparr>;
              peer2 = (if on then peer1\<lparr>last_seen := Some now\<rparr> else peer1)
          in m\<lparr>peers := hm_insert key peer2 (peers m)\<rparr>
      | None \<Rightarrow> m)"

definition update_endpoints :: "wg_public_key \<Rightarrow> socket_addr list \<Rightarrow> 'net peer_map \<Rightarrow> 'net peer_map" where
  "update_endpoints key eps m =
     (case hm_get (peers m) key of
        Some peer \<Rightarrow> m\<lparr>peers := hm_insert key (peer\<lparr>endpoints := eps\<rparr>) (peers m)\<rparr>
      | None \<Rightarrow> m)"

section \<open>Longest prefix\<close>

text \<open>The candidate routes, and what it means that a candidate is a best one.\<close>

definition candidates ::
    "'net ipnet_api \<Rightarrow> ip_addr \<Rightarrow> (wg_public_key, 'net peer_info) hash_map \<Rightarrow> (wg_public_key \<times> u8) set" where
  "candidates api d ps =
     {(key, net_prefix_len api net) | key peer net.
        (key, peer) \<in> set ps \<and> net \<in> set (allowed_ips peer) \<and> net_contains api net d}"

definition best_of :: "(wg_public_key \<times> u8) set \<Rightarrow> (wg_public_key \<times> u8) option \<Rightarrow> bool" where
  "best_of C best =
     (case best of None \<Rightarrow> C = {} | Some b \<Rightarrow> b \<in> C \<and> (\<forall>c \<in> C. snd c \<le> snd b))"

lemma best_of_insert:
  assumes "best_of C best"
  shows "best_of (insert (k, l) C)
    (case best of None \<Rightarrow> Some (k, l) | Some (_, b) \<Rightarrow> if l > b then Some (k, l) else best)"
  using assms
  by (cases best) (auto simp: best_of_def not_less, metis less_imp_le order_trans snd_conv)

lemma route_allowed_best:
  "best_of C best \<Longrightarrow>
     best_of (C \<union> {(key, net_prefix_len api net) | net. net \<in> set nets \<and> net_contains api net d})
       (route_allowed api d key nets best)"
proof (induction nets arbitrary: C best)
  case (Cons net nets)
  show ?case
  proof (cases "net_contains api net d")
    case True
    then have "C \<union> {(key, net_prefix_len api n) | n. n \<in> set (net # nets) \<and> net_contains api n d} =
        insert (key, net_prefix_len api net) C \<union>
          {(key, net_prefix_len api n) | n. n \<in> set nets \<and> net_contains api n d}" by auto
    with True Cons.IH [OF best_of_insert [OF Cons.prems, of key "net_prefix_len api net"]]
    show ?thesis by (simp add: Let_def)
  next
    case False
    then have "C \<union> {(key, net_prefix_len api n) | n. n \<in> set (net # nets) \<and> net_contains api n d} =
        C \<union> {(key, net_prefix_len api n) | n. n \<in> set nets \<and> net_contains api n d}" by auto
    with False Cons.IH [OF Cons.prems] show ?thesis by simp
  qed
qed simp

lemma route_peers_best:
  "best_of C best \<Longrightarrow> best_of (C \<union> candidates api d ps) (route_peers api d ps best)"
proof (induction ps arbitrary: C best)
  case Nil
  then show ?case by (simp add: candidates_def)
next
  case (Cons e ps)
  obtain key peer where e: "e = (key, peer)" by (cases e)
  have "C \<union> candidates api d (e # ps) =
      (C \<union> {(key, net_prefix_len api net) | net. net \<in> set (allowed_ips peer) \<and> net_contains api net d}) \<union>
        candidates api d ps"
    unfolding candidates_def e by auto
  with Cons.IH [OF route_allowed_best [OF Cons.prems]] e show ?case by simp
qed


definition ex_peer :: "string \<Rightarrow> u32 \<Rightarrow> (u32 \<times> u8) list \<Rightarrow> (u32 \<times> u8) peer_info" where
  "ex_peer key ip nets = \<lparr>public_key = key, mesh_ip = ip, endpoints = [], allowed_ips = nets,
     derp_region = None, is_exit_node = False, is_subnet_router = True, peer_hostname = None,
     peer_os = None, peer_tags = [], peer_user = None, online = True, last_seen = None\<rparr>"


section \<open>The reverse index\<close>

datatype 'net peer_op =
    Upsert "'net peer_info"
  | Remove wg_public_key
  | SetOnline u64 wg_public_key bool
  | UpdateEndpoints wg_public_key "socket_addr list"

definition peer_step :: "'net peer_map \<Rightarrow> 'net peer_op \<Rightarrow> 'net peer_map" where
  "peer_step m op =
     (case op of
        Upsert peer \<Rightarrow> upsert peer m
      | Remove key \<Rightarrow> snd (remove_peer key m)
      | SetOnline now key on \<Rightarrow> set_online now key on m
      | UpdateEndpoints key eps \<Rightarrow> update_endpoints key eps m)"

text \<open>Every entry of the index leads to a peer with that address, stored under its own key.\<close>

definition index_sound :: "'net peer_map \<Rightarrow> bool" where
  "index_sound m =
     ((\<forall>ip key. hm_get (ip_to_key m) ip = Some key \<longrightarrow>
         (\<exists>peer. hm_get (peers m) key = Some peer \<and> mesh_ip peer = ip)) \<and>
      (\<forall>key peer. hm_get (peers m) key = Some peer \<longrightarrow> public_key peer = key))"

lemma upsert_sound: "index_sound m \<Longrightarrow> index_sound (upsert peer m)"
  by (fastforce simp: index_sound_def upsert_def Let_def hm_simps split: option.splits if_splits)

lemma remove_sound: "index_sound m \<Longrightarrow> index_sound (snd (remove_peer key m))"
  by (fastforce simp: index_sound_def remove_peer_def hm_simps split: option.splits if_splits)

lemma replace_peer_sound:
  assumes "index_sound m" "hm_get (peers m) key = Some peer" "mesh_ip peer' = mesh_ip peer"
    and "public_key peer' = public_key peer"
  shows "index_sound (m\<lparr>peers := hm_insert key peer' (peers m)\<rparr>)"
  using assms by (fastforce simp: index_sound_def hm_simps)

lemma peer_step_sound: "index_sound m \<Longrightarrow> index_sound (peer_step m op)"
  by (cases op)
    (auto simp: peer_step_def upsert_sound remove_sound set_online_def update_endpoints_def Let_def
      intro: replace_peer_sound split: option.splits)

interpretation peer_machine: invariant_machine peer_step index_sound
  by unfold_locales (rule peer_step_sound)

lemma index_sound_new: "index_sound peer_map_new"
  by (simp add: index_sound_def peer_map_new_def)

text \<open>
  Whatever the sequence of updates, removals and status changes, and even when peers claim the same
  address, a lookup by mesh address never dangles and never answers with a peer of another address.
\<close>

theorem get_by_ip_sound:
  "case get_by_ip ip (foldl peer_step peer_map_new ops) of
     None \<Rightarrow> hm_get (ip_to_key (foldl peer_step peer_map_new ops)) ip = None
   | Some peer \<Rightarrow> mesh_ip peer = ip \<and> get_peer (public_key peer) (foldl peer_step peer_map_new ops) = Some peer"
proof -
  have "index_sound (foldl peer_step peer_map_new ops)"
    by (rule peer_machine.run_inv) (rule index_sound_new)
  then show ?thesis
    by (cases "hm_get (ip_to_key (foldl peer_step peer_map_new ops)) ip")
      (fastforce simp: get_by_ip_def get_peer_def index_sound_def)+
qed

text \<open>
  The index is not complete when two peers claim one address: after the second is removed the
  first is still in the map with its address, but neither \<open>get_by_ip\<close> nor the mesh-address rule of
  \<open>route\<close> finds it.
\<close>

theorem duplicate_ip_loses_peer:
  assumes "public_key p \<noteq> public_key q" "mesh_ip p = mesh_ip q"
  shows "get_peer (public_key p) (foldl peer_step peer_map_new [Upsert p, Upsert q, Remove (public_key q)]) = Some p \<and>
    get_by_ip (mesh_ip p) (foldl peer_step peer_map_new [Upsert p, Upsert q, Remove (public_key q)]) = None"
  using assms
  by (simp add: peer_step_def upsert_def remove_peer_def get_peer_def get_by_ip_def peer_map_new_def
      hm_simps Let_def)

theorem duplicate_ip_loses_peer_witness:
  "get_by_ip 7 (foldl peer_step peer_map_new
     [Upsert (ex_peer ''a'' 7 []), Upsert (ex_peer ''b'' 7 []), Remove ''b'']) = None"
  using duplicate_ip_loses_peer [of "ex_peer ''a'' 7 []" "ex_peer ''b'' 7 []"] by (simp add: ex_peer_def)

end
