(* ===== verification/Ipam_Store.thy ===== *)
theory Ipam_Store
  imports Ipnet
begin

text \<open>
  The IPAM store (\<open>crates/runesh-ipam/src/lib.rs\<close>): prefixes, VLANs and address assignments behind one
  mutex, so that every method is one step on \<open>ipam_state\<close>. \<open>Ipv4Net\<close> is the parameter \<open>ipv4net_api\<close>; the
  percentage of a utilization report is an exact rational.
\<close>

datatype prefix_status = PrefixActive | PrefixReserved | PrefixDeprecated

record 'net ipam_prefix =
  pfx_id :: string
  network :: 'net
  pfx_description :: string
  vlan_id :: "u16 option"
  pfx_site :: "string option"
  pfx_status :: prefix_status

record vlan =
  vlan_no :: u16
  vlan_name :: string
  vlan_description :: string
  vlan_site :: "string option"

datatype ip_status = IpActive | IpReserved | IpDeprecated | IpDhcp

record ip_assignment =
  address :: u32
  prefix_id :: string
  assigned_to :: string
  asg_description :: string
  asg_status :: ip_status

record prefix_utilization =
  util_prefix_id :: string
  util_network :: string
  total_hosts :: u32
  assigned :: u32
  available :: u32
  utilization_percent :: rat

record 'net ipam_state =
  prefixes :: "(string, 'net ipam_prefix) hash_map"
  vlans :: "(u16, vlan) hash_map"
  assignments :: "ip_assignment list"

datatype ipam_error =
    PrefixNotFound string
  | Exhausted string
  | OutOfRange string
  | AlreadyAssigned string

definition ipam_new :: "'net ipam_state" where
  "ipam_new = \<lparr>prefixes = [], vlans = [], assignments = []\<rparr>"

definition add_prefix :: "'net ipam_prefix \<Rightarrow> 'net ipam_state \<Rightarrow> 'net ipam_state" where
  "add_prefix p s = s\<lparr>prefixes := hm_insert (pfx_id p) p (prefixes s)\<rparr>"

definition add_vlan :: "vlan \<Rightarrow> 'net ipam_state \<Rightarrow> 'net ipam_state" where
  "add_vlan v s = s\<lparr>vlans := hm_insert (vlan_no v) v (vlans s)\<rparr>"

definition assigned_in :: "string \<Rightarrow> ip_assignment list \<Rightarrow> u32 set" where
  "assigned_in pid as = address ` set (filter (\<lambda>a. prefix_id a = pid) as)"

definition new_assignment :: "u32 \<Rightarrow> string \<Rightarrow> string \<Rightarrow> string \<Rightarrow> ip_assignment" where
  "new_assignment ip pid who descr = \<lparr>address = ip, prefix_id = pid, assigned_to = who,
     asg_description = descr, asg_status = IpActive\<rparr>"

definition ipam_allocate ::
    "'net ipv4net_api \<Rightarrow> string \<Rightarrow> string \<Rightarrow> string \<Rightarrow> 'net ipam_state \<Rightarrow> ipam_error + u32 \<times> 'net ipam_state" where
  "ipam_allocate api pid who descr s =
     rbind (ok_or (PrefixNotFound pid) (hm_get (prefixes s) pid)) (\<lambda>p.
       let taken = assigned_in pid (assignments s) in
       case find (\<lambda>h. h \<notin> taken) (v4_hosts api (network p)) of
         Some h \<Rightarrow> Inr (h, s\<lparr>assignments := assignments s @ [new_assignment h pid who descr]\<rparr>)
       | None \<Rightarrow> Inl (Exhausted pid))"

definition assign_specific ::
    "'net ipv4net_api \<Rightarrow> string \<Rightarrow> u32 \<Rightarrow> string \<Rightarrow> string \<Rightarrow> 'net ipam_state \<Rightarrow> ipam_error + 'net ipam_state" where
  "assign_specific api pid ip who descr s =
     rbind (ok_or (PrefixNotFound pid) (hm_get (prefixes s) pid)) (\<lambda>p.
       if \<not> v4_contains api (network p) ip then Inl (OutOfRange (ipv4_to_string ip))
       else if list_ex (\<lambda>a. address a = ip \<and> prefix_id a = pid) (assignments s)
       then Inl (AlreadyAssigned (ipv4_to_string ip))
       else Inr (s\<lparr>assignments := assignments s @ [new_assignment ip pid who descr]\<rparr>))"

definition ipam_release :: "string \<Rightarrow> u32 \<Rightarrow> 'net ipam_state \<Rightarrow> bool \<times> 'net ipam_state" where
  "ipam_release pid ip s =
     (let before = length (assignments s);
          as = filter (\<lambda>a. \<not> (address a = ip \<and> prefix_id a = pid)) (assignments s)
      in (length as < before, s\<lparr>assignments := as\<rparr>))"

definition release_all :: "u32 \<Rightarrow> 'net ipam_state \<Rightarrow> bool \<times> 'net ipam_state" where
  "release_all ip s =
     (let before = length (assignments s);
          as = filter (\<lambda>a. address a \<noteq> ip) (assignments s)
      in (length as < before, s\<lparr>assignments := as\<rparr>))"

definition utilization :: "'net ipv4net_api \<Rightarrow> string \<Rightarrow> 'net ipam_state \<Rightarrow> prefix_utilization option" where
  "utilization api pid s =
     map_option (\<lambda>p.
       let total = of_nat (length (v4_hosts api (network p))) :: u32;
           n = of_nat (length (filter (\<lambda>a. prefix_id a = pid) (assignments s))) :: u32
       in \<lparr>util_prefix_id = pid, util_network = v4_to_string api (network p), total_hosts = total,
           assigned = n, available = sat_sub total n,
           utilization_percent =
             (if total = 0 then 0 else of_nat (unat n) / of_nat (unat total) * 100)\<rparr>)
       (hm_get (prefixes s) pid)"

definition find_prefix :: "'net ipv4net_api \<Rightarrow> u32 \<Rightarrow> 'net ipam_state \<Rightarrow> 'net ipam_prefix option" where
  "find_prefix api ip s = find (\<lambda>p. v4_contains api (network p) ip) (hm_values (prefixes s))"

definition assignments_for :: "string \<Rightarrow> 'net ipam_state \<Rightarrow> ip_assignment list" where
  "assignments_for who s = filter (\<lambda>a. assigned_to a = who) (assignments s)"

definition prefix_count :: "'net ipam_state \<Rightarrow> nat" where
  "prefix_count s = length (prefixes s)"

definition assignment_count :: "'net ipam_state \<Rightarrow> nat" where
  "assignment_count s = length (assignments s)"

section \<open>The store implements a set of assigned (prefix, address) pairs\<close>

datatype 'net ipam_op =
    AddPrefix "'net ipam_prefix"
  | AddVlan vlan
  | IpamAllocate string string string
  | AssignSpecific string u32 string string
  | IpamRelease string u32
  | ReleaseAll u32

definition ipam_step :: "'net ipv4net_api \<Rightarrow> 'net ipam_state \<Rightarrow> 'net ipam_op \<Rightarrow> 'net ipam_state" where
  "ipam_step api s op =
     (case op of
        AddPrefix p \<Rightarrow> add_prefix p s
      | AddVlan v \<Rightarrow> add_vlan v s
      | IpamAllocate pid who descr \<Rightarrow>
          (case ipam_allocate api pid who descr s of Inr (_, s') \<Rightarrow> s' | Inl _ \<Rightarrow> s)
      | AssignSpecific pid ip who descr \<Rightarrow>
          (case assign_specific api pid ip who descr s of Inr s' \<Rightarrow> s' | Inl _ \<Rightarrow> s)
      | IpamRelease pid ip \<Rightarrow> snd (ipam_release pid ip s)
      | ReleaseAll ip \<Rightarrow> snd (release_all ip s))"

definition slot :: "ip_assignment \<Rightarrow> string \<times> u32" where
  "slot a = (prefix_id a, address a)"

definition ipam_inv :: "'net ipam_state \<Rightarrow> bool" where
  "ipam_inv s = distinct (map slot (assignments s))"

lemma assigned_in_slot: "ip \<in> assigned_in pid as \<longleftrightarrow> (pid, ip) \<in> slot ` set as"
  by (auto simp: assigned_in_def slot_def image_iff)

lemma slot_new [simp]: "slot (new_assignment ip pid who descr) = (pid, ip)"
  by (simp add: slot_def new_assignment_def)

lemma ipam_step_inv: "ipam_inv s \<Longrightarrow> ipam_inv (ipam_step api s op)"
proof (cases op)
  case (IpamAllocate pid who descr)
  assume inv: "ipam_inv s"
  show ?thesis
  proof (cases "ipam_allocate api pid who descr s")
    case (Inr r)
    then obtain p where "hm_get (prefixes s) pid = Some p" and p: "(case find (\<lambda>h. h \<notin> assigned_in pid (assignments s)) (v4_hosts api (network p)) of
        Some h \<Rightarrow> Inr (h, s\<lparr>assignments := assignments s @ [new_assignment h pid who descr]\<rparr>)
      | None \<Rightarrow> Inl (Exhausted pid)) = Inr r"
      by (auto simp: ipam_allocate_def rbind_eq_Inr)
    then obtain h where "find (\<lambda>h. h \<notin> assigned_in pid (assignments s)) (v4_hosts api (network p)) = Some h"
        "snd r = s\<lparr>assignments := assignments s @ [new_assignment h pid who descr]\<rparr>"
      by (auto split: option.split_asm)
    then have "h \<notin> assigned_in pid (assignments s)"
        "snd r = s\<lparr>assignments := assignments s @ [new_assignment h pid who descr]\<rparr>"
      by (auto dest: find_SomeD)
    with inv Inr IpamAllocate show ?thesis
      by (auto simp: ipam_step_def ipam_inv_def assigned_in_slot split: prod.splits)
  qed (use inv IpamAllocate in \<open>simp add: ipam_step_def\<close>)
next
  case (AssignSpecific pid ip who descr)
  assume inv: "ipam_inv s"
  show ?thesis
  proof (cases "assign_specific api pid ip who descr s")
    case (Inr s')
    then have "s' = s\<lparr>assignments := assignments s @ [new_assignment ip pid who descr]\<rparr>"
      "\<not> list_ex (\<lambda>a. address a = ip \<and> prefix_id a = pid) (assignments s)"
      by (auto simp: assign_specific_def rbind_eq_Inr split: if_splits)
    with inv Inr AssignSpecific show ?thesis
      by (auto simp: ipam_step_def ipam_inv_def slot_def new_assignment_def list_ex_iff)
  qed (use inv AssignSpecific in \<open>simp add: ipam_step_def\<close>)
qed (auto simp: ipam_step_def ipam_inv_def add_prefix_def add_vlan_def ipam_release_def release_all_def
    Let_def distinct_map_filter)

interpretation ipam_machine: invariant_machine "ipam_step api" ipam_inv for api
  by unfold_locales (rule ipam_step_inv)

text \<open>
  Over every sequence of operations no address is assigned twice within one prefix.
\<close>

theorem ipam_no_double_assignment:
  "distinct (map (\<lambda>a. (prefix_id a, address a)) (assignments (foldl (ipam_step api) ipam_new ops)))"
proof -
  have "ipam_inv (foldl (ipam_step api) ipam_new ops)"
    by (rule ipam_machine.run_inv) (simp add: ipam_inv_def ipam_new_def)
  then show ?thesis by (simp add: ipam_inv_def slot_def [abs_def])
qed

text \<open>
  \<open>allocate\<close> on a known prefix returns the first host of the prefix that is not assigned in it and
  adds exactly this assignment; it reports exhaustion exactly when every host is assigned.
\<close>

theorem ipam_allocate_first_free:
  assumes "hm_get (prefixes s) pid = Some p"
  shows "(\<exists>pre h post. v4_hosts api (network p) = pre @ h # post \<and>
      set pre \<subseteq> assigned_in pid (assignments s) \<and> h \<notin> assigned_in pid (assignments s) \<and>
      ipam_allocate api pid who descr s =
        Inr (h, s\<lparr>assignments := assignments s @ [new_assignment h pid who descr]\<rparr>)) \<or>
    set (v4_hosts api (network p)) \<subseteq> assigned_in pid (assignments s) \<and>
      ipam_allocate api pid who descr s = Inl (Exhausted pid)"
proof (cases "find (\<lambda>h. h \<notin> assigned_in pid (assignments s)) (v4_hosts api (network p))")
  case None
  then have "set (v4_hosts api (network p)) \<subseteq> assigned_in pid (assignments s)"
    by (auto simp: find_None_iff)
  with None assms show ?thesis by (simp add: ipam_allocate_def)
next
  case (Some h)
  then obtain i where i: "i < length (v4_hosts api (network p))" "h = v4_hosts api (network p) ! i"
      "h \<notin> assigned_in pid (assignments s)"
      "\<forall>j < i. v4_hosts api (network p) ! j \<in> assigned_in pid (assignments s)"
    by (auto simp: find_Some_iff)
  then have "v4_hosts api (network p) = take i (v4_hosts api (network p)) @ h # drop (Suc i) (v4_hosts api (network p))"
    by (simp add: id_take_nth_drop)
  moreover have "set (take i (v4_hosts api (network p))) \<subseteq> assigned_in pid (assignments s)"
    using i by (auto simp: in_set_conv_nth)
  moreover have "ipam_allocate api pid who descr s =
      Inr (h, s\<lparr>assignments := assignments s @ [new_assignment h pid who descr]\<rparr>)"
    using Some assms by (simp add: ipam_allocate_def)
  ultimately show ?thesis using i(3) by blast
qed

definition ex_prefix :: "(u32 \<times> u8) ipam_prefix" where
  "ex_prefix = \<lparr>pfx_id = ''lan'', network = (0x0A000000, 30), pfx_description = [], vlan_id = None,
     pfx_site = None, pfx_status = PrefixActive\<rparr>"

theorem ipam_allocate_first_free_witness:
  "\<exists>s'. ipam_allocate ex_v4_api ''lan'' ''host'' [] (add_prefix ex_prefix ipam_new) = Inr (0x0A000001, s')"
proof -
  let ?s = "add_prefix ex_prefix ipam_new"
  have p: "hm_get (prefixes ?s) ''lan'' = Some ex_prefix" by code_simp
  have h: "v4_hosts ex_v4_api (network ex_prefix) = [0x0A000001, 0x0A000002]" by code_simp
  have a: "assigned_in ''lan'' (assignments ?s) = {}"
    by (simp add: assigned_in_def add_prefix_def ipam_new_def)
  from ipam_allocate_first_free [OF p, of ex_v4_api "''host''" "[]"] show ?thesis
    unfolding h a by (auto simp: Cons_eq_append_conv)
qed

end
