(* ===== verification/Stun.thy ===== *)
theory Stun
  imports Rust_Std
begin

text \<open>
  The STUN client (\<open>crates/runesh-stun/src/lib.rs\<close>, \<open>client.rs\<close>): building the binding request, parsing
  the response, the retransmission loop and the choice of a connection method.

  Indexing a slice out of range panics in Rust. The attribute walk therefore reads bytes through
  \<open>byte_at\<close>, whose \<open>None\<close> is the panic, and the parser returns \<open>None\<close> when it panics; a theorem shows
  that no response makes it panic.
\<close>

section \<open>Types\<close>

datatype nat_type = NatNone | FullCone | RestrictedCone | PortRestricted | Symmetric | UnknownNat

datatype connection_method = Direct | HolePunch | HolePunchWithRelay | Relay

datatype stun_error = Timeout | ServerError string | StunIo

type_synonym sock_addr = "ip_addr \<times> u16"

record stun_result =
  mapped_address :: sock_addr
  local_address :: sock_addr
  nat_type_of :: nat_type
  rtt_ms :: u64

definition connection_strategy :: "nat_type \<Rightarrow> nat_type \<Rightarrow> connection_method" where
  "connection_strategy local_nat remote_nat =
     (if local_nat = NatNone \<or> remote_nat = NatNone then Direct
      else if local_nat = FullCone \<or> remote_nat = FullCone then Direct
      else if local_nat = Symmetric \<and> remote_nat = Symmetric then Relay
      else if local_nat = Symmetric \<or> remote_nat = Symmetric then HolePunchWithRelay
      else HolePunch)"

section \<open>Messages\<close>

definition MAGIC_COOKIE :: u32 where "MAGIC_COOKIE = 0x2112A442"
definition BINDING_REQUEST :: u16 where "BINDING_REQUEST = 0x0001"
definition BINDING_RESPONSE :: u16 where "BINDING_RESPONSE = 0x0101"
definition ATTR_XOR_MAPPED_ADDRESS :: u16 where "ATTR_XOR_MAPPED_ADDRESS = 0x0020"
definition ATTR_MAPPED_ADDRESS :: u16 where "ATTR_MAPPED_ADDRESS = 0x0001"

text \<open>The request, given the twelve random bytes of the transaction.\<close>

definition build_binding_request :: "u8 list \<Rightarrow> u8 list \<times> u8 list" where
  "build_binding_request txn_id =
     ([ucast (drop_bit 8 BINDING_REQUEST), ucast (and BINDING_REQUEST 0xFF), 0, 0,
       ucast (drop_bit 24 MAGIC_COOKIE), ucast (drop_bit 16 MAGIC_COOKIE),
       ucast (drop_bit 8 MAGIC_COOKIE), ucast (and MAGIC_COOKIE 0xFF)] @ txn_id, txn_id)"

definition hex_u16 :: "u16 \<Rightarrow> string" where
  "hex_u16 w = map (\<lambda>i. hex_digit (unat (and (drop_bit i w) 0xF))) [12, 8, 4, 0]"

definition parse_xor_mapped_address :: "u8 list \<Rightarrow> u8 list \<Rightarrow> stun_error + sock_addr" where
  "parse_xor_mapped_address data txn_id =
     (if length data < 8 then Inl (ServerError ''XOR-MAPPED-ADDRESS too short'')
      else
        let family = data ! 1;
            xport = u16_from_be (data ! 2) (data ! 3);
            port = xor xport (ucast (drop_bit 16 MAGIC_COOKIE))
        in if family = 0x01 then
             let xaddr = u32_from_be (data ! 4) (data ! 5) (data ! 6) (data ! 7);
                 addr = xor xaddr MAGIC_COOKIE
             in Inr (V4 addr, port)
           else if family = 0x02 then
             (if length data < 20 then Inl (ServerError ''IPv6 address too short'')
              else
                let mask = u32_to_be MAGIC_COOKIE @ txn_id;
                    octets = map (\<lambda>i. xor (data ! (4 + i)) (mask ! i)) [0..<16]
                in Inr (V6 (u128_from_be octets), port))
           else Inl (ServerError (''unknown address family: '' @ show_nat (unat family))))"

definition parse_mapped_address :: "u8 list \<Rightarrow> stun_error + sock_addr" where
  "parse_mapped_address data =
     (if length data < 8 then Inl (ServerError ''MAPPED-ADDRESS too short'')
      else
        let family = data ! 1;
            port = u16_from_be (data ! 2) (data ! 3)
        in if family = 0x01 then
             Inr (V4 (u32_from_be (data ! 4) (data ! 5) (data ! 6) (data ! 7)), port)
           else if family = 0x02 then
             (if length data < 20 then Inl (ServerError ''IPv6 MAPPED-ADDRESS too short'')
              else Inr (V6 (u128_from_be (take 16 (drop 4 data))), port))
           else Inl (ServerError (''unknown address family: '' @ show_nat (unat family))))"

definition byte_at :: "u8 list \<Rightarrow> nat \<Rightarrow> u8 option" where
  "byte_at data i = (if i < length data then Some (data ! i) else None)"

definition u16_at :: "u8 list \<Rightarrow> nat \<Rightarrow> u16 option" where
  "u16_at data i =
     Option.bind (byte_at data i) (\<lambda>a. Option.bind (byte_at data (i + 1)) (\<lambda>b. Some (u16_from_be a b)))"

text \<open>\<open>(attr_len + 3) & !3\<close>\<close>

definition padded :: "nat \<Rightarrow> nat" where
  "padded n = (n + 3) div 4 * 4"

function parse_attrs ::
    "u8 list \<Rightarrow> u8 list \<Rightarrow> nat \<Rightarrow> nat \<Rightarrow> (stun_error + sock_addr) option" where
  "parse_attrs data txn_id msg_len offset =
     (if offset + 4 \<le> 20 + msg_len then
        Option.bind (u16_at data offset) (\<lambda>attr_type.
        Option.bind (u16_at data (offset + 2)) (\<lambda>len16.
          let attr_len = unat len16; off = offset + 4 in
          if off + attr_len > length data then Some (Inl (ServerError ''no MAPPED-ADDRESS in response''))
          else if attr_type = ATTR_XOR_MAPPED_ADDRESS then
            Some (parse_xor_mapped_address (take attr_len (drop off data)) txn_id)
          else if attr_type = ATTR_MAPPED_ADDRESS then
            Some (parse_mapped_address (take attr_len (drop off data)))
          else parse_attrs data txn_id msg_len (off + padded attr_len)))
      else Some (Inl (ServerError ''no MAPPED-ADDRESS in response'')))"
  by pat_completeness auto

termination parse_attrs
  by (relation "measure (\<lambda>(data, txn_id, msg_len, offset). 24 + msg_len - offset)") auto

declare parse_attrs.simps [simp del]

definition parse_binding_response :: "u8 list \<Rightarrow> u8 list \<Rightarrow> (stun_error + sock_addr) option" where
  "parse_binding_response data expected_txn_id =
     (if length data < 20 then Some (Inl (ServerError ''response too short''))
      else
        let msg_type = u16_from_be (data ! 0) (data ! 1) in
        if msg_type \<noteq> BINDING_RESPONSE
        then Some (Inl (ServerError (''unexpected message type: 0x'' @ hex_u16 msg_type)))
        else if u32_from_be (data ! 4) (data ! 5) (data ! 6) (data ! 7) \<noteq> MAGIC_COOKIE
        then Some (Inl (ServerError ''bad magic cookie''))
        else if take 12 (drop 8 data) \<noteq> expected_txn_id
        then Some (Inl (ServerError ''transaction ID mismatch''))
        else
          let msg_len = unat (u16_from_be (data ! 2) (data ! 3)) in
          if length data < 20 + msg_len then Some (Inl (ServerError ''truncated response''))
          else parse_attrs data expected_txn_id msg_len 20)"

section \<open>The probe loop\<close>

definition RETRANSMIT_INITIAL_MS :: u64 where "RETRANSMIT_INITIAL_MS = 500"
definition RETRANSMIT_MAX_MS :: u64 where "RETRANSMIT_MAX_MS = 1600"
definition RETRANSMIT_MAX_COUNT :: u32 where "RETRANSMIT_MAX_COUNT = 7"

text \<open>
  What one wait on the socket yields, and the state of the loop (instants in milliseconds). After a
  timeout the loop may send the request again: \<open>Elapsed\<close> carries the instant after that send, \<open>None\<close> if
  the send fails.
\<close>

datatype wait_result = Received "u8 list" sock_addr | RecvFailed | Elapsed "nat option"

record probe_state =
  next_rto_ms :: u64
  next_retransmit :: nat
  retransmit_count :: u32
  sends :: nat

datatype probe_outcome = Failed stun_error | Response "u8 list" nat

definition sat_mul2 :: "u64 \<Rightarrow> u64" where
  "sat_mul2 w = sat_add w w"

definition remaining :: "nat \<Rightarrow> probe_state \<Rightarrow> nat \<Rightarrow> nat" where
  "remaining deadline st now = min (next_retransmit st) deadline - now"

text \<open>
  The loop over the waits of a run: each wait comes with the instant before and after it. \<open>None\<close>: the
  run has not ended yet.
\<close>

fun probe_loop ::
    "sock_addr \<Rightarrow> nat \<Rightarrow> probe_state \<Rightarrow> (nat \<times> wait_result \<times> nat) list \<Rightarrow> probe_outcome option \<times> probe_state" where
  "probe_loop server deadline st [] = (None, st)"
| "probe_loop server deadline st ((now, w, after) # ws) =
     (if now \<ge> deadline then (Some (Failed Timeout), st)
      else case w of
        Received buf peer \<Rightarrow>
          if peer \<noteq> server then probe_loop server deadline st ws
          else (Some (Response buf after), st)
      | RecvFailed \<Rightarrow> (Some (Failed StunIo), st)
      | Elapsed resent \<Rightarrow>
          if after \<ge> deadline then (Some (Failed Timeout), st)
          else if retransmit_count st \<ge> RETRANSMIT_MAX_COUNT
          then probe_loop server deadline (st\<lparr>next_retransmit := deadline\<rparr>) ws
          else
            let rto = min (sat_mul2 (next_rto_ms st)) RETRANSMIT_MAX_MS;
                st1 = st\<lparr>retransmit_count := retransmit_count st + 1, next_rto_ms := rto, sends := sends st + 1\<rparr>
            in case resent of
                 None \<Rightarrow> (Some (Failed StunIo), st1)
               | Some t \<Rightarrow> probe_loop server deadline (st1\<lparr>next_retransmit := t + unat rto\<rparr>) ws)"

definition probe_start :: "nat \<Rightarrow> probe_state" where
  "probe_start now = \<lparr>next_rto_ms = RETRANSMIT_INITIAL_MS, next_retransmit = now + unat RETRANSMIT_INITIAL_MS,
     retransmit_count = 0, sends = 1\<rparr>"

text \<open>
  What the network provides to a probe: the result of the name lookup (\<open>Inl\<close>: its message), the address
  a socket bound to the given address reports (or a failure), the random transaction, the instants of
  the start, of the deadline's clock and after the first send (\<open>None\<close>: the send fails), and the waits.
\<close>

record probe_env =
  lookup_host :: "string + sock_addr list"
  bind_local :: "sock_addr \<Rightarrow> sock_addr option"
  random_txn :: "u8 list"
  start_ms :: nat
  first_send :: "nat option"
  waits :: "(nat \<times> wait_result \<times> nat) list"

definition bind_addr :: "sock_addr \<Rightarrow> sock_addr" where
  "bind_addr server = (case fst server of V4 _ \<Rightarrow> (V4 0, 0) | V6 _ \<Rightarrow> (V6 0, 0))"

definition stun_result_of :: "sock_addr \<Rightarrow> nat \<Rightarrow> sock_addr \<Rightarrow> stun_result" where
  "stun_result_of local_addr rtt mapped =
     \<lparr>mapped_address = mapped, local_address = local_addr,
      nat_type_of = (if fst mapped = fst local_addr then NatNone else UnknownNat), rtt_ms = of_nat rtt\<rparr>"

text \<open>The whole probe. Outer \<open>None\<close>: it is still waiting; inner \<open>None\<close>: it panicked.\<close>

definition stun_binding_request :: "probe_env \<Rightarrow> nat \<Rightarrow> (stun_error + stun_result) option option" where
  "stun_binding_request env timeout =
     (case lookup_host env of
        Inl e \<Rightarrow> Some (Some (Inl (ServerError (''DNS lookup failed: '' @ e))))
      | Inr [] \<Rightarrow> Some (Some (Inl (ServerError ''no address for STUN server'')))
      | Inr (server # _) \<Rightarrow>
          (case bind_local env (bind_addr server) of
             None \<Rightarrow> Some (Some (Inl StunIo))
           | Some local_addr \<Rightarrow>
               let txn_id = snd (build_binding_request (random_txn env)) in
               (case first_send env of
                  None \<Rightarrow> Some (Some (Inl StunIo))
                | Some now \<Rightarrow>
                    (case fst (probe_loop server (start_ms env + timeout) (probe_start now) (waits env)) of
                       None \<Rightarrow> None
                     | Some (Failed e) \<Rightarrow> Some (Some (Inl e))
                     | Some (Response buf at_ms) \<Rightarrow>
                         Some (map_option (\<lambda>r. rbind r (\<lambda>mapped.
                           Inr (stun_result_of local_addr (at_ms - start_ms env) mapped)))
                           (parse_binding_response (take 1024 buf) txn_id))))))"

section \<open>The parser never reads out of range\<close>

lemma u16_at_Some: "i + 1 < length data \<Longrightarrow> u16_at data i = Some (u16_from_be (data ! i) (data ! (i + 1)))"
  by (simp add: u16_at_def byte_at_def)

lemma parse_attrs_total:
  "20 + msg_len \<le> length data \<Longrightarrow> \<exists>r. parse_attrs data txn_id msg_len offset = Some r"
proof (induction data txn_id msg_len offset rule: parse_attrs.induct)
  case (1 data txn_id msg_len offset)
  show ?case
  proof (cases "offset + 4 \<le> 20 + msg_len")
    case True
    with 1(2) obtain a b where "u16_at data offset = Some a" "u16_at data (offset + 2) = Some b"
      by (simp add: u16_at_Some)
    then show ?thesis
      using 1 True by (subst parse_attrs.simps) (simp add: Let_def)
  next
    case False
    then show ?thesis by (simp add: parse_attrs.simps [of data txn_id msg_len offset])
  qed
qed

text \<open>
  Whatever bytes a server sends, the response parser returns: it never indexes out of range and its
  attribute walk ends.
\<close>

theorem parse_binding_response_no_panic:
  "\<exists>r. parse_binding_response data txn_id = Some r"
  using parse_attrs_total by (simp add: parse_binding_response_def Let_def)

section \<open>Responses of a server\<close>

text \<open>
  The encoding of RFC 5389: an attribute is its type, the length of its value and the value padded to
  a multiple of four; XOR-MAPPED-ADDRESS carries the port and the address xor-ed with the cookie and,
  for IPv6, the transaction id.
\<close>

definition encode_attr :: "u16 \<times> u8 list \<Rightarrow> u8 list" where
  "encode_attr a = u16_to_be (fst a) @ u16_to_be (of_nat (length (snd a))) @ snd a @
     replicate (padded (length (snd a)) - length (snd a)) 0"

definition encode_xor_addr :: "u8 list \<Rightarrow> sock_addr \<Rightarrow> u8 list" where
  "encode_xor_addr txn_id a =
     (case a of
        (V4 ip, port) \<Rightarrow>
          [0, 1] @ u16_to_be (xor port (ucast (drop_bit 16 MAGIC_COOKIE))) @ u32_to_be (xor ip MAGIC_COOKIE)
      | (V6 ip, port) \<Rightarrow>
          [0, 2] @ u16_to_be (xor port (ucast (drop_bit 16 MAGIC_COOKIE))) @
            map2 xor (u128_to_be ip) (u32_to_be MAGIC_COOKIE @ txn_id))"

definition binding_response :: "u8 list \<Rightarrow> (u16 \<times> u8 list) list \<Rightarrow> u8 list" where
  "binding_response txn_id attrs =
     (let body = concat (map encode_attr attrs) in
      u16_to_be BINDING_RESPONSE @ u16_to_be (of_nat (length body)) @ u32_to_be MAGIC_COOKIE @ txn_id @ body)"

lemma padded_ge: "n \<le> padded n"
  unfolding padded_def by presburger

lemma length_encode_attr [simp]: "length (encode_attr a) = 4 + padded (length (snd a))"
  using padded_ge [of "length (snd a)"] by (simp add: encode_attr_def)

lemma xor_addr_roundtrip:
  assumes "length txn_id = 12"
  shows "parse_xor_mapped_address (encode_xor_addr txn_id a) txn_id = Inr a"
proof (cases a)
  case (Pair ip port)
  show ?thesis
  proof (cases ip)
    case (V4 w)
    then show ?thesis
      by (simp add: Pair encode_xor_addr_def parse_xor_mapped_address_def u16_to_be_def u32_to_be_def
          Let_def xor.assoc del: drop_bit_xor)
  next
    case (V6 w)
    let ?m = "u32_to_be MAGIC_COOKIE @ txn_id"
    have m: "length ?m = 16" using assms by simp
    have "map (\<lambda>i. xor (map2 xor (u128_to_be w) ?m ! i) (?m ! i)) [0..<16] = map (\<lambda>i. u128_to_be w ! i) [0..<16]"
      by (rule map_cong) (use m in \<open>auto simp: xor.assoc\<close>)
    also have "\<dots> = u128_to_be w" by (metis length_u128_to_be map_nth)
    finally have o: "map (\<lambda>i. xor (map2 xor (u128_to_be w) ?m ! i) (?m ! i)) [0..<16] = u128_to_be w" .
    show ?thesis
      using m o
      by (simp add: Pair V6 encode_xor_addr_def parse_xor_mapped_address_def u16_to_be_def Let_def
          xor.assoc del: drop_bit_xor)
  qed
qed

lemma attr_at:
  assumes d: "drop offset data = encode_attr (t, v) @ rest" and v: "length v < 65536"
  shows "u16_at data offset = Some t" "u16_at data (offset + 2) = Some (of_nat (length v))"
    "unat (of_nat (length v) :: u16) = length v" "take (length v) (drop (offset + 4) data) = v"
    "offset + 4 + padded (length v) \<le> length data"
proof -
  have len: "offset + 4 + padded (length v) \<le> length data"
    using arg_cong [OF d, of length] by (simp split: nat_diff_split_asm)
  have nth: "data ! (offset + i) = (encode_attr (t, v) @ rest) ! i" if "i < 4" for i
    using that len d by (metis nth_drop add_lessD1 le_add1 le_trans less_imp_le_nat)
  have e: "(encode_attr (t, v) @ rest) ! 0 = ucast (drop_bit 8 t)" "(encode_attr (t, v) @ rest) ! 1 = ucast t"
    "(encode_attr (t, v) @ rest) ! 2 = ucast (drop_bit 8 (of_nat (length v) :: u16))"
    "(encode_attr (t, v) @ rest) ! 3 = ucast (of_nat (length v) :: u16)"
    by (simp_all add: encode_attr_def u16_to_be_def)
  show "u16_at data offset = Some t"
    using nth [of 0] nth [of 1] e len by (simp add: u16_at_Some)
  have "offset + 2 + 1 = offset + 3" by simp
  then show "u16_at data (offset + 2) = Some (of_nat (length v))"
    using nth [of 2] nth [of 3] e(3,4) len u16_at_Some [of "offset + 2" data]
    by (simp add: numeral_3_eq_3)
  show "unat (of_nat (length v) :: u16) = length v" using v by (simp add: unat_of_nat_small)
  have "drop (offset + 4) data = drop 4 (encode_attr (t, v) @ rest)"
    using d by (metis add.commute drop_drop)
  then show "take (length v) (drop (offset + 4) data) = v"
    by (simp add: encode_attr_def u16_to_be_def)
  show "offset + 4 + padded (length v) \<le> length data" by (rule len)
qed

lemma parse_attrs_skip:
  assumes "drop offset data = encode_attr (t, v) @ rest" "length v < 65536"
    and "t \<noteq> ATTR_XOR_MAPPED_ADDRESS" "t \<noteq> ATTR_MAPPED_ADDRESS" "offset + 4 \<le> 20 + msg_len"
  shows "parse_attrs data txn_id msg_len offset = parse_attrs data txn_id msg_len (offset + length (encode_attr (t, v)))"
  using attr_at [OF assms(1,2)] assms(3-5) padded_ge [of "length v"]
  by (subst parse_attrs.simps) (simp add: Let_def add.assoc)

lemma parse_attrs_hit:
  assumes "drop offset data = encode_attr (ATTR_XOR_MAPPED_ADDRESS, v) @ rest" "length v < 65536"
    and "offset + 4 \<le> 20 + msg_len"
  shows "parse_attrs data txn_id msg_len offset = Some (parse_xor_mapped_address v txn_id)"
  using attr_at [OF assms(1,2)] assms(3) padded_ge [of "length v"]
  by (subst parse_attrs.simps) (simp add: Let_def)

definition foreign_attr :: "u16 \<times> u8 list \<Rightarrow> bool" where
  "foreign_attr a = (fst a \<noteq> ATTR_XOR_MAPPED_ADDRESS \<and> fst a \<noteq> ATTR_MAPPED_ADDRESS \<and> length (snd a) < 65536)"

lemma parse_attrs_walk:
  assumes "list_all foreign_attr pre" "length v < 65536"
    and "drop offset data = concat (map encode_attr pre) @ encode_attr (ATTR_XOR_MAPPED_ADDRESS, v) @ rest"
    and "offset + length (concat (map encode_attr pre)) + 4 \<le> 20 + msg_len"
  shows "parse_attrs data txn_id msg_len offset = Some (parse_xor_mapped_address v txn_id)"
  using assms(1,3,4)
proof (induction pre arbitrary: offset)
  case Nil
  then show ?case using parse_attrs_hit assms(2) by simp
next
  case (Cons a pre)
  obtain t w where a: "a = (t, w)" by (cases a)
  let ?n = "length (encode_attr a)"
  have d: "drop offset data = encode_attr (t, w) @ concat (map encode_attr pre) @
      encode_attr (ATTR_XOR_MAPPED_ADDRESS, v) @ rest"
    using Cons.prems(2) a by simp
  then have "drop (offset + ?n) data = concat (map encode_attr pre) @ encode_attr (ATTR_XOR_MAPPED_ADDRESS, v) @ rest"
    by (metis a add.commute append_eq_conv_conj drop_drop)
  moreover have "parse_attrs data txn_id msg_len offset = parse_attrs data txn_id msg_len (offset + ?n)"
    unfolding a by (rule parse_attrs_skip [OF d]) (use Cons.prems a in \<open>auto simp: foreign_attr_def\<close>)
  ultimately show ?case using Cons.IH [of "offset + ?n"] Cons.prems by (simp add: add.assoc)
qed



section \<open>Retransmission\<close>

lemma probe_start_simps [simp]:
  "sends (probe_start now) = 1"
  "retransmit_count (probe_start now) = 0"
  "next_rto_ms (probe_start now) \<le> 1600"
  by (simp_all add: probe_start_def RETRANSMIT_INITIAL_MS_def word_le_nat_alt)

lemma probe_loop_inv:
  assumes "probe_loop server deadline s ws = (r, st)" and "sends s \<le> 1 + unat (retransmit_count s)"
    and "unat (retransmit_count s) \<le> 7" and "next_rto_ms s \<le> 1600"
  shows "sends st \<le> 8 \<and> next_rto_ms st \<le> 1600 \<and>
    (\<forall>buf t. r = Some (Response buf t) \<longrightarrow> (\<exists>t0. (t0, Received buf server, t) \<in> set ws \<and> t0 < deadline))"
  using assms
proof (induction ws arbitrary: s)
  case (Cons x ws)
  obtain now w after where x: "x = (now, w, after)" by (cases x)
  show ?case
  proof (cases "now < deadline \<and> after < deadline \<and> retransmit_count s < RETRANSMIT_MAX_COUNT \<and> (\<exists>e. w = Elapsed e)")
    case True
    then obtain e where e: "w = Elapsed e" by blast
    let ?rto = "min (sat_mul2 (next_rto_ms s)) RETRANSMIT_MAX_MS"
    have c: "unat (retransmit_count s + 1) = unat (retransmit_count s) + 1"
      using unat_inc_less [of "retransmit_count s" RETRANSMIT_MAX_COUNT] True by blast
    moreover have l: "unat (retransmit_count s) < 7"
      using True by (simp add: RETRANSMIT_MAX_COUNT_def word_less_nat_alt)
    show ?thesis
    proof (cases e)
      case None
      then show ?thesis
        using Cons.prems True e l by (auto simp: x Let_def RETRANSMIT_MAX_MS_def simp flip: not_less)
    next
      case (Some t)
      let ?s = "s\<lparr>retransmit_count := retransmit_count s + 1, next_rto_ms := ?rto, sends := sends s + 1,
          next_retransmit := t + unat ?rto\<rparr>"
      have "probe_loop server deadline ?s ws = (r, st)"
        using Cons.prems(1) True e Some by (simp add: x Let_def flip: not_less)
      then show ?thesis
        using Cons.IH [of ?s] Cons.prems(2,4) c l by (auto simp: x RETRANSMIT_MAX_MS_def)
    qed
  next
    case False
    then show ?thesis
      using Cons.IH [of s] Cons.IH [of "s\<lparr>next_retransmit := deadline\<rparr>"] Cons.prems
      by (cases w) (auto simp: x not_le split: if_splits)
  qed
qed auto

text \<open>
  A wait respects the timer when it times out no earlier than the loop asked for; the first send of the
  run does too. The timer itself is the runtime's.
\<close>

fun timely :: "sock_addr \<Rightarrow> nat \<Rightarrow> probe_state \<Rightarrow> (nat \<times> wait_result \<times> nat) list \<Rightarrow> bool" where
  "timely server deadline st [] = True"
| "timely server deadline st ((now, w, after) # ws) =
     ((case w of Elapsed _ \<Rightarrow> now + remaining deadline st now \<le> after | _ \<Rightarrow> True) \<and>
      timely server deadline (snd (probe_loop server deadline st [(now, w, after)])) ws)"

definition elapsed_count :: "(nat \<times> wait_result \<times> nat) list \<Rightarrow> nat" where
  "elapsed_count ws = length (filter (\<lambda>(now, w, after). case w of Elapsed _ \<Rightarrow> True | _ \<Rightarrow> False) ws)"

lemma elapsed_count_simps [simp]:
  "elapsed_count [] = 0"
  "elapsed_count ((now, Received b p, after) # ws) = elapsed_count ws"
  "elapsed_count ((now, RecvFailed, after) # ws) = elapsed_count ws"
  "elapsed_count ((now, Elapsed e, after) # ws) = Suc (elapsed_count ws)"
  by (simp_all add: elapsed_count_def)

lemma probe_loop_progress:
  "timely server deadline s ws \<Longrightarrow> fst (probe_loop server deadline s ws) = None \<Longrightarrow>
     unat (retransmit_count s) \<le> 7 \<Longrightarrow>
     elapsed_count ws + unat (retransmit_count s) \<le> (if deadline \<le> next_retransmit s then 7 else 8)"
proof (induction ws arbitrary: s)
  case (Cons x ws)
  obtain now w after where x: "x = (now, w, after)" by (cases x)
  show ?case
  proof (cases w)
    case (Elapsed e)
    have n: "now < deadline" "after < deadline" using Cons.prems(2) by (auto simp: x Elapsed split: if_splits)
    have a: "now + remaining deadline s now \<le> after" using Cons.prems(1) by (simp add: x Elapsed)
    with n have nr: "\<not> deadline \<le> next_retransmit s" by (auto simp: remaining_def)
    show ?thesis
    proof (cases "retransmit_count s \<ge> RETRANSMIT_MAX_COUNT")
      case True
      then have "unat (retransmit_count s) = 7"
        using Cons.prems(3) by (simp add: RETRANSMIT_MAX_COUNT_def word_le_nat_alt)
      then show ?thesis
        using Cons.IH [of "s\<lparr>next_retransmit := deadline\<rparr>"] Cons.prems n nr True
        by (simp add: x Elapsed flip: not_less)
    next
      case False
      then have c: "unat (retransmit_count s + 1) = unat (retransmit_count s) + 1" "unat (retransmit_count s) < 7"
        using unat_inc_less [of "retransmit_count s" RETRANSMIT_MAX_COUNT]
        by (simp_all add: RETRANSMIT_MAX_COUNT_def word_le_nat_alt word_less_nat_alt not_le)
      let ?rto = "min (sat_mul2 (next_rto_ms s)) RETRANSMIT_MAX_MS"
      obtain t where t: "e = Some t"
        using Cons.prems(2) n False by (cases e) (auto simp: x Elapsed Let_def)
      let ?s = "s\<lparr>retransmit_count := retransmit_count s + 1, next_rto_ms := ?rto, sends := sends s + 1,
          next_retransmit := t + unat ?rto\<rparr>"
      have "timely server deadline ?s ws" "fst (probe_loop server deadline ?s ws) = None"
        using Cons.prems n False by (auto simp: x Elapsed t Let_def)
      then have "elapsed_count ws + unat (retransmit_count s + 1) \<le> 8"
        using Cons.IH [of ?s] c by (simp split: if_splits)
      then show ?thesis using c nr by (simp add: x Elapsed)
    qed
  qed (use Cons.prems Cons.IH [of s] in \<open>auto simp: x split: if_splits\<close>)
qed simp

text \<open>
  Whatever arrives and whenever, the probe sends at most eight requests, never sets a wait longer
  than 1.6 s between them, and takes an answer only from the server it asked, in a wait begun before the
  deadline.
\<close>

theorem probe_loop_bounded:
  "probe_loop server deadline (probe_start now) ws = (r, st) \<Longrightarrow>
     sends st \<le> 8 \<and> next_rto_ms st \<le> 1600 \<and>
     (\<forall>buf t. r = Some (Response buf t) \<longrightarrow> (\<exists>t0. (t0, Received buf server, t) \<in> set ws \<and> t0 < deadline))"
  by (erule probe_loop_inv) simp_all

theorem probe_loop_bounded_witness:
  "sends (snd (probe_loop (V4 1, 3478) 1000 (probe_start 0)
     [(0, Elapsed (Some 501), 500), (501, Received [1] (V4 1, 3478), 600)])) \<le> 8"
  using probe_loop_bounded [of "(V4 1, 3478)" 1000 0 "[(0, Elapsed (Some 501), 500), (501, Received [1] (V4 1, 3478), 600)]"]
  by (metis prod.collapse)

text \<open>
  C38. The probe ends: when waits do not time out before the loop's timer, then after nine timed-out
  waits it has returned, whatever packets arrive in between.
\<close>

theorem probe_loop_ends:
  assumes "timely server deadline (probe_start now) ws" and "9 \<le> elapsed_count ws"
  shows "\<exists>outcome. fst (probe_loop server deadline (probe_start now) ws) = Some outcome"
  using probe_loop_progress [OF assms(1)] assms(2) by (fastforce split: if_splits)

theorem probe_loop_ends_witness:
  "\<exists>outcome. fst (probe_loop (V4 1, 3478) 600 (probe_start 0)
     [(0, Elapsed (Some 501), 500), (501, Elapsed None, 600), (501, Elapsed None, 600), (501, Elapsed None, 600), (501, Elapsed None, 600), (501, Elapsed None, 600), (501, Elapsed None, 600), (501, Elapsed None, 600), (501, Elapsed None, 600)]) = Some outcome"
  by (rule probe_loop_ends)
    (simp_all add: probe_start_def remaining_def RETRANSMIT_INITIAL_MS_def RETRANSMIT_MAX_COUNT_def
      RETRANSMIT_MAX_MS_def sat_mul2_def sat_add_def Let_def)

section \<open>NAT detection\<close>

text \<open>
  The socket is bound to the wildcard address, and a socket bound there reports the wildcard as its
  local address. Hence a probe reports that there is no NAT only when the server claims to have seen the
  wildcard address itself: for a host with a public address the probe never detects it.
\<close>

theorem stun_nat_never_none:
  assumes "\<And>a l. bind_local env a = Some l \<Longrightarrow> fst l = fst a"
    and "stun_binding_request env timeout = Some (Some (Inr r))"
  shows "nat_type_of r = (if fst (mapped_address r) \<in> {V4 0, V6 0} \<and> fst (mapped_address r) = fst (local_address r)
    then NatNone else UnknownNat)"
proof -
  obtain server l rtt mapped where "bind_local env (bind_addr server) = Some l" "r = stun_result_of l rtt mapped"
    using assms(2) unfolding stun_binding_request_def Let_def
    by (auto simp: rbind_eq_Inr split: sum.splits list.splits option.splits probe_outcome.splits)
  with assms(1) [of "bind_addr server" l] show ?thesis
    by (auto simp: stun_result_of_def bind_addr_def split: ip_addr.splits)
qed

definition ex_env :: probe_env where
  "ex_env = \<lparr>lookup_host = Inr [(V4 9, 3478)], bind_local = (\<lambda>a. Some (fst a, 5000)), random_txn = replicate 12 5,
     start_ms = 0, first_send = Some 1,
     waits = [(1, Received (binding_response (replicate 12 5)
       [(ATTR_XOR_MAPPED_ADDRESS, encode_xor_addr (replicate 12 5) (V4 0xC0000201, 5000))]) (V4 9, 3478), 20)]\<rparr>"

definition ex_result :: stun_result where
  "ex_result = \<lparr>mapped_address = (V4 0xC0000201, 5000), local_address = (V4 0, 5000), nat_type_of = UnknownNat, rtt_ms = 20\<rparr>"

lemma ex_env_result: "stun_binding_request ex_env 1000 = Some (Some (Inr ex_result))"
  by code_simp

theorem stun_nat_never_none_witness:
  "nat_type_of ex_result = (if fst (mapped_address ex_result) \<in> {V4 0, V6 0} \<and>
     fst (mapped_address ex_result) = fst (local_address ex_result) then NatNone else UnknownNat)"
  by (rule stun_nat_never_none [OF _ ex_env_result]) (auto simp: ex_env_def)

end
