(* ===== verification/Flow.thy ===== *)
theory Flow
  imports Ipnet
begin

text \<open>
  The flow collector (\<open>crates/runesh-flow/src/lib.rs\<close>, \<open>netflow.rs\<close>): the NetFlow v5 parser, the UDP
  collector with its source allowlist, the top-N aggregations and the bounded running aggregator.

  The chrono crate is a parameter: \<open>from_timestamp\<close> (\<open>DateTime::from_timestamp\<close>) and the current time.
  Counters are machine words: the one-shot aggregations add with wrap-around (the release build), the
  running aggregator saturates. Slices are read through list indexing after the parser's length checks.
\<close>

section \<open>Records\<close>

definition DEFAULT_MAX_ENTRIES :: nat where "DEFAULT_MAX_ENTRIES = 100000"

record 'time flow_record =
  src_ip :: u32
  dst_ip :: u32
  src_port :: u16
  dst_port :: u16
  protocol :: u8
  bytes :: u64
  packets :: u64
  start_time :: 'time
  end_time :: 'time
  src_name :: "string option"
  dst_name :: "string option"

datatype flow_protocol = NetflowV5 | NetflowV9 | Ipfix | Sflow

record top_n_entry =
  key :: string
  top_bytes :: u64
  top_packets :: u64
  flow_count :: nat

record netflow_v5_header =
  version :: u16
  count_of :: u16
  sys_uptime_ms :: u32
  unix_secs :: u32
  unix_nsecs :: u32
  flow_sequence :: u32
  engine_type :: u8
  engine_id :: u8
  sampling_interval :: u16

section \<open>The NetFlow v5 parser\<close>

definition be16 :: "u8 list \<Rightarrow> nat \<Rightarrow> u16" where
  "be16 data i = u16_from_be (data ! i) (data ! (i + 1))"

definition be32 :: "u8 list \<Rightarrow> nat \<Rightarrow> u32" where
  "be32 data i = u32_from_be (data ! i) (data ! (i + 1)) (data ! (i + 2)) (data ! (i + 3))"

definition parse_header :: "u8 list \<Rightarrow> netflow_v5_header" where
  "parse_header data = \<lparr>version = be16 data 0, count_of = be16 data 2, sys_uptime_ms = be32 data 4,
     unix_secs = be32 data 8, unix_nsecs = be32 data 12, flow_sequence = be32 data 16,
     engine_type = data ! 20, engine_id = data ! 21, sampling_interval = be16 data 22\<rparr>"

definition parse_record :: "'time \<Rightarrow> u8 list \<Rightarrow> 'time flow_record" where
  "parse_record base_time r = \<lparr>src_ip = be32 r 0, dst_ip = be32 r 4, src_port = be16 r 32, dst_port = be16 r 34,
     protocol = r ! 38, bytes = ucast (be32 r 20), packets = ucast (be32 r 16),
     start_time = base_time, end_time = base_time, src_name = None, dst_name = None\<rparr>"

definition parse_netflow_v5 ::
    "(u32 \<Rightarrow> u32 \<Rightarrow> 'time option) \<Rightarrow> 'time \<Rightarrow> u8 list \<Rightarrow> string + (netflow_v5_header \<times> 'time flow_record list)" where
  "parse_netflow_v5 from_timestamp utc_now data =
     (if length data < 24
      then Inl (''packet too short: '' @ show_nat (length data) @ '' bytes (need 24)'')
      else
        let version = be16 data 0 in
        if version \<noteq> 5 then Inl (''not NetFlow v5: version '' @ show_nat (unat version))
        else
          let count = be16 data 2 in
          if count > 30 then Inl (''invalid record count: '' @ show_nat (unat count) @ '' (max 30)'')
          else
            let expected_len = 24 + unat count * 48 in
            if length data < expected_len
            then Inl (''packet truncated: '' @ show_nat (length data) @ '' bytes (need '' @ show_nat expected_len @ '')'')
            else
              let base_time = (case from_timestamp (be32 data 8) (be32 data 12) of Some t \<Rightarrow> t | None \<Rightarrow> utc_now)
              in Inr (parse_header data,
                   map (\<lambda>i. parse_record base_time (take 48 (drop (24 + i * 48) data))) [0..<unat count]))"

section \<open>The collector\<close>

definition ip_in_allowlist :: "'net ipnet_api \<Rightarrow> ip_addr \<Rightarrow> 'net list \<Rightarrow> bool" where
  "ip_in_allowlist api ip allowed = list_ex (\<lambda>net. net_contains api net ip) allowed"

text \<open>
  The receive loop over the datagrams of a run (\<open>None\<close>: the socket fails, which ends the collector). The
  result is the sequence of calls of \<open>on_flows\<close>.
\<close>

fun listen_netflow_v5 ::
    "'net ipnet_api \<Rightarrow> (u8 list \<Rightarrow> string + 'batch) \<Rightarrow> 'net list option \<Rightarrow> (u8 list \<times> ip_addr) option list \<Rightarrow> 'batch list" where
  "listen_netflow_v5 api parse allowed_sources [] = []"
| "listen_netflow_v5 api parse allowed_sources (None # rest) = []"
| "listen_netflow_v5 api parse allowed_sources (Some (datagram, src) # rest) =
     (if (case allowed_sources of Some lst \<Rightarrow> \<not> ip_in_allowlist api src lst | None \<Rightarrow> False)
      then listen_netflow_v5 api parse allowed_sources rest
      else case parse (take 2048 datagram) of
             Inr batch \<Rightarrow> batch # listen_netflow_v5 api parse allowed_sources rest
           | Inl e \<Rightarrow> listen_netflow_v5 api parse allowed_sources rest)"

section \<open>Aggregation\<close>

type_synonym counters = "u64 \<times> u64 \<times> nat"

definition or_default :: "counters option \<Rightarrow> counters" where
  "or_default e = (case e of Some c \<Rightarrow> c | None \<Rightarrow> (0, 0, 0))"

definition count_flow :: "('time flow_record \<Rightarrow> 'k) \<Rightarrow> ('k, counters) hash_map \<Rightarrow> 'time flow_record \<Rightarrow> ('k, counters) hash_map" where
  "count_flow key_of m f =
     (case or_default (hm_get m (key_of f)) of
        (b, p, c) \<Rightarrow> hm_insert (key_of f) (b + bytes f, p + packets f, c + 1) m)"

text \<open>\<open>sort_by\<close> with the operands swapped is a stable sort with the largest byte count first.\<close>

definition sort_by_bytes :: "top_n_entry list \<Rightarrow> top_n_entry list" where
  "sort_by_bytes es = sort_key (\<lambda>e. - uint (top_bytes e)) es"

definition entry_of :: "('k \<Rightarrow> string) \<Rightarrow> 'k \<times> counters \<Rightarrow> top_n_entry" where
  "entry_of name e = (case e of (k, b, p, c) \<Rightarrow> \<lparr>key = name k, top_bytes = b, top_packets = p, flow_count = c\<rparr>)"

definition top_talkers :: "'time flow_record list \<Rightarrow> nat \<Rightarrow> top_n_entry list" where
  "top_talkers flows n =
     (let by_src = foldl (count_flow src_ip) [] flows
      in take n (sort_by_bytes (map (entry_of ipv4_to_string) by_src)))"

definition top_destinations :: "'time flow_record list \<Rightarrow> nat \<Rightarrow> top_n_entry list" where
  "top_destinations flows n =
     (let by_dst = foldl (count_flow dst_ip) [] flows
      in take n (sort_by_bytes (map (entry_of ipv4_to_string) by_dst)))"

definition proto_name :: "u8 \<Rightarrow> string" where
  "proto_name proto =
     (let name = (if proto = 6 then ''TCP'' else if proto = 17 then ''UDP'' else if proto = 1 then ''ICMP'' else ''other'')
      in name @ '' ('' @ show_nat (unat proto) @ '')'')"

definition by_protocol :: "'time flow_record list \<Rightarrow> top_n_entry list" where
  "by_protocol flows =
     (let by_proto = foldl (count_flow protocol) [] flows
      in sort_by_bytes (map (entry_of proto_name) by_proto))"

record aggregator =
  max_entries :: nat
  by_src :: "(u32, u64 \<times> u64 \<times> u64) hash_map"
  resets :: u64

definition aggregator_new :: "nat \<Rightarrow> aggregator" where
  "aggregator_new n = \<lparr>max_entries = (if n = 0 then DEFAULT_MAX_ENTRIES else n),
     by_src = [], resets = 0\<rparr>"

definition default_sized :: aggregator where
  "default_sized = aggregator_new DEFAULT_MAX_ENTRIES"

definition record_flow :: "aggregator \<Rightarrow> 'time flow_record \<Rightarrow> aggregator" where
  "record_flow self flow =
     (let self = (if length (by_src self) \<ge> max_entries self \<and> \<not> hm_contains (by_src self) (src_ip flow)
                  then self\<lparr>resets := sat_add (resets self) 1, by_src := []\<rparr> else self)
      in case (case hm_get (by_src self) (src_ip flow) of Some c \<Rightarrow> c | None \<Rightarrow> (0, 0, 0)) of
           (b, p, c) \<Rightarrow> self\<lparr>by_src := hm_insert (src_ip flow)
             (sat_add b (bytes flow), sat_add p (packets flow), sat_add c 1) (by_src self)\<rparr>)"

definition aggregator_len :: "aggregator \<Rightarrow> nat" where
  "aggregator_len self = length (by_src self)"

definition aggregator_is_empty :: "aggregator \<Rightarrow> bool" where
  "aggregator_is_empty self = (by_src self = [])"

definition top_n :: "aggregator \<Rightarrow> nat \<Rightarrow> top_n_entry list" where
  "top_n self n =
     take n (sort_by_bytes (map (\<lambda>(ip, b, p, c). entry_of ipv4_to_string (ip, b, p, unat c)) (by_src self)))"

section \<open>The parser reads what an exporter writes\<close>

text \<open>
  The NetFlow v5 wire format: a header of 24 bytes, then records of 48 bytes. The fields the parser skips
  are given as raw bytes: next hop and interfaces (8), uptimes (8), pad and TCP flags (2), type of
  service, AS numbers, masks and pad (9).
\<close>

record wire_record =
  w_src :: u32
  w_dst :: u32
  w_hop :: "u8 list"
  w_packets :: u32
  w_bytes :: u32
  w_uptimes :: "u8 list"
  w_sport :: u16
  w_dport :: u16
  w_flags :: "u8 list"
  w_proto :: u8
  w_rest :: "u8 list"

definition wire_ok :: "wire_record \<Rightarrow> bool" where
  "wire_ok w = (length (w_hop w) = 8 \<and> length (w_uptimes w) = 8 \<and> length (w_flags w) = 2 \<and> length (w_rest w) = 9)"

definition encode_record :: "wire_record \<Rightarrow> u8 list" where
  "encode_record w = u32_to_be (w_src w) @ u32_to_be (w_dst w) @ w_hop w @ u32_to_be (w_packets w) @ u32_to_be (w_bytes w) @
     w_uptimes w @ u16_to_be (w_sport w) @ u16_to_be (w_dport w) @ w_flags w @ [w_proto w] @ w_rest w"

definition encode_header :: "netflow_v5_header \<Rightarrow> u8 list" where
  "encode_header h = u16_to_be (version h) @ u16_to_be (count_of h) @ u32_to_be (sys_uptime_ms h) @ u32_to_be (unix_secs h) @
     u32_to_be (unix_nsecs h) @ u32_to_be (flow_sequence h) @ [engine_type h, engine_id h] @ u16_to_be (sampling_interval h)"

definition flow_of :: "'time \<Rightarrow> wire_record \<Rightarrow> 'time flow_record" where
  "flow_of t w = \<lparr>src_ip = w_src w, dst_ip = w_dst w, src_port = w_sport w, dst_port = w_dport w, protocol = w_proto w,
     bytes = ucast (w_bytes w), packets = ucast (w_packets w), start_time = t, end_time = t, src_name = None, dst_name = None\<rparr>"

lemma length_encode_header [simp]: "length (encode_header h) = 24"
  by (simp add: encode_header_def)

lemma length_encode_record [simp]: "wire_ok w \<Longrightarrow> length (encode_record w) = 48"
  by (simp add: encode_record_def wire_ok_def)

lemma nth_skip: "length xs \<le> i \<Longrightarrow> (xs @ ys) ! i = ys ! (i - length xs)"
  by (simp add: nth_append)

lemma be16_skip: "length xs \<le> i \<Longrightarrow> be16 (xs @ ys) i = be16 ys (i - length xs)"
  by (simp add: be16_def nth_skip Suc_diff_le)

lemma be32_skip: "length xs \<le> i \<Longrightarrow> be32 (xs @ ys) i = be32 ys (i - length xs)"
  by (simp add: be32_def nth_skip Suc_diff_le)

lemma be_read [simp]: "be16 (u16_to_be w @ ys) 0 = w" "be32 (u32_to_be v @ ys) 0 = v"
  by (simp_all add: be16_def be32_def u16_to_be_def u32_to_be_def)

lemma be16_Cons2: "be16 (a # b # xs) 2 = be16 xs 0"
  by (simp add: be16_def numeral_2_eq_2)

lemmas be_skip = be16_Cons2 be16_skip be32_skip nth_skip

lemma parse_header_encode: "parse_header (encode_header h @ rest) = h"
  by (simp add: parse_header_def encode_header_def be_skip)

lemma parse_record_encode: "wire_ok w \<Longrightarrow> parse_record t (encode_record w @ rest) = flow_of t w"
  by (simp add: parse_record_def encode_record_def flow_of_def wire_ok_def be_skip)

lemma nth_chunk:
  assumes "list_all wire_ok ws" "i < length ws"
  shows "take 48 (drop (i * 48) (concat (map encode_record ws) @ rest)) = encode_record (ws ! i)"
  using assms
proof (induction ws arbitrary: i)
  case (Cons w ws)
  then show ?case by (cases i) simp_all
qed simp

lemma length_records: "list_all wire_ok ws \<Longrightarrow> length (concat (map encode_record ws)) = length ws * 48"
  by (induction ws) simp_all

text \<open>
  C32. From every datagram of the NetFlow v5 format with at most thirty records, with any bytes after
  them, the parser recovers the header and each record's addresses, ports, protocol and counters, in
  order; a datagram cut short anywhere is an error.
\<close>

theorem parse_netflow_roundtrip:
  assumes "version h = 5" and "count_of h = of_nat (length ws)" and "length ws \<le> 30" and "list_all wire_ok ws"
  shows "parse_netflow_v5 from_ts now (encode_header h @ concat (map encode_record ws) @ rest) =
      Inr (h, map (flow_of (case from_ts (unix_secs h) (unix_nsecs h) of Some t \<Rightarrow> t | None \<Rightarrow> now)) ws) \<and>
    (n < 24 + length ws * 48 \<longrightarrow>
      \<not> is_ok (parse_netflow_v5 from_ts now (take n (encode_header h @ concat (map encode_record ws)))))"
proof -
  let ?body = "concat (map encode_record ws)"
  have c: "unat (count_of h) = length ws" using assms(2,3) unat_of_nat_small [where 'a = 16] by simp
  have le: "\<not> 30 < count_of h" using c assms(3) by (simp add: word_less_nat_alt)
  have hd: "be16 (encode_header h @ xs) 0 = 5" "be16 (encode_header h @ xs) 2 = count_of h"
    "be32 (encode_header h @ xs) 8 = unix_secs h" "be32 (encode_header h @ xs) 12 = unix_nsecs h" for xs
    using assms(1) by (simp_all add: encode_header_def be_skip)
  have recs: "map (\<lambda>i. parse_record t (take 48 (drop (24 + i * 48) (encode_header h @ ?body @ rest)))) [0..<length ws] =
      map (flow_of t) ws" for t
  proof (rule nth_equalityI)
    fix i assume "i < length (map (\<lambda>i. parse_record t (take 48 (drop (24 + i * 48) (encode_header h @ ?body @ rest)))) [0..<length ws])"
    then have i: "i < length ws" by simp
    have "wire_ok (ws ! i)" using assms(4) i by (simp add: list_all_length)
    then show "map (\<lambda>i. parse_record t (take 48 (drop (24 + i * 48) (encode_header h @ ?body @ rest)))) [0..<length ws] ! i =
        map (flow_of t) ws ! i"
      using i nth_chunk [OF assms(4) i] parse_record_encode [of "ws ! i" t "[]"] by simp
  qed simp
  have "parse_netflow_v5 from_ts now (encode_header h @ ?body @ rest) =
      Inr (h, map (flow_of (case from_ts (unix_secs h) (unix_nsecs h) of Some t \<Rightarrow> t | None \<Rightarrow> now)) ws)"
    using c le length_records [OF assms(4)]
    by (simp add: parse_netflow_v5_def hd parse_header_encode Let_def recs del: take_append drop_append)
  moreover have "\<not> is_ok (parse_netflow_v5 from_ts now (take n (encode_header h @ ?body)))" if n: "n < 24 + length ws * 48"
  proof (cases "n < 24")
    case True
    then show ?thesis by (simp add: parse_netflow_v5_def)
  next
    case False
    then have "take n (encode_header h @ ?body) = encode_header h @ take (n - 24) ?body" by simp
    then show ?thesis
      using n False c le length_records [OF assms(4)] by (simp add: parse_netflow_v5_def hd Let_def)
  qed
  ultimately show ?thesis by blast
qed

definition ex_wire :: wire_record where
  "ex_wire = \<lparr>w_src = 0x0A000001, w_dst = 0x08080808, w_hop = replicate 8 0, w_packets = 3, w_bytes = 1500,
     w_uptimes = replicate 8 0, w_sport = 40000, w_dport = 53, w_flags = [0, 0], w_proto = 17, w_rest = replicate 9 0\<rparr>"

definition ex_header :: netflow_v5_header where
  "ex_header = \<lparr>version = 5, count_of = 1, sys_uptime_ms = 7, unix_secs = 100, unix_nsecs = 0, flow_sequence = 1,
     engine_type = 0, engine_id = 0, sampling_interval = 0\<rparr>"

theorem parse_netflow_roundtrip_witness:
  "parse_netflow_v5 (\<lambda>s n. Some (unat s)) 0 (encode_header ex_header @ concat (map encode_record [ex_wire]) @ [1, 2]) =
     Inr (ex_header, [flow_of 100 ex_wire]) \<and>
   \<not> is_ok (parse_netflow_v5 (\<lambda>s n. Some (unat s)) 0 (take 71 (encode_header ex_header @ concat (map encode_record [ex_wire]))))"
  using parse_netflow_roundtrip [of ex_header "[ex_wire]" "\<lambda>s n. Some (unat s)" 0 "[1, 2]" 71]
  by (simp add: ex_header_def ex_wire_def wire_ok_def)

section \<open>The collector delivers what the allowlist admits\<close>

text \<open>
  The collector calls back once for each well-formed datagram received before a socket error from an
  address some prefix of the allowlist contains (from any address without an allowlist), in the order
  of arrival, and for nothing else.
\<close>

theorem listen_delivers:
  "listen_netflow_v5 api parse allowed rs =
     List.map_filter (\<lambda>r. case r of
         Some (d, src) \<Rightarrow> (case parse (take 2048 d) of
             Inr batch \<Rightarrow> if allowed = None \<or> (\<exists>net \<in> set (the allowed). net_contains api net src) then Some batch else None
           | Inl e \<Rightarrow> None)
       | None \<Rightarrow> None)
     (takeWhile (\<lambda>r. r \<noteq> None) rs)"
proof (induction api parse allowed rs rule: listen_netflow_v5.induct)
  case (3 api parse allowed_sources datagram src rest)
  then show ?case
    by (cases allowed_sources; cases "parse (take 2048 datagram)") (auto simp: ip_in_allowlist_def list_ex_iff)
qed simp_all

section \<open>The running aggregator\<close>

definition agg_inv :: "aggregator \<Rightarrow> bool" where
  "agg_inv s = (hm_wf (by_src s) \<and> length (by_src s) \<le> max_entries s \<and> 0 < max_entries s)"

lemma max_entries_record [simp]: "max_entries (record_flow s f) = max_entries s"
  by (simp add: record_flow_def Let_def split: prod.splits)

lemma max_entries_run [simp]: "max_entries (foldl record_flow s fs) = max_entries s"
  by (induction fs arbitrary: s) simp_all

interpretation agg_machine: invariant_machine record_flow agg_inv
proof
  fix s and f :: "'time flow_record"
  assume "agg_inv s"
  then show "agg_inv (record_flow s f)"
    by (auto simp: agg_inv_def record_flow_def hm_contains_def length_hm_insert Let_def intro: hm.wf_insert
        split: prod.splits option.splits)
qed

lemma agg_inv_new: "agg_inv (aggregator_new n)"
  by (simp add: agg_inv_def aggregator_new_def DEFAULT_MAX_ENTRIES_def)

definition saturated :: "nat \<Rightarrow> u64" where
  "saturated n = of_nat (min n (2 ^ 64 - 1))"

definition flows_of :: "u32 \<Rightarrow> 'time flow_record list \<Rightarrow> 'time flow_record list" where
  "flows_of ip flows = filter (\<lambda>f. src_ip f = ip) flows"

definition total :: "('time flow_record \<Rightarrow> u64) \<Rightarrow> 'time flow_record list \<Rightarrow> nat" where
  "total field flows = sum_list (map (\<lambda>f. unat (field f)) flows)"

definition totals :: "'time flow_record list \<Rightarrow> u32 \<Rightarrow> (u64 \<times> u64 \<times> u64) option" where
  "totals flows ip =
     (if flows_of ip flows = [] then None
      else Some (saturated (total bytes (flows_of ip flows)), saturated (total packets (flows_of ip flows)),
        saturated (length (flows_of ip flows))))"

lemma totals_None: "totals flows ip = None \<longleftrightarrow> ip \<notin> src_ip ` set flows"
  by (auto simp: totals_def flows_of_def filter_empty_conv)

lemma unat_saturated: "unat (saturated n) = min n (2 ^ 64 - 1)"
  unfolding saturated_def by (rule unat_of_nat_small) simp

lemma sat_add_saturated: "sat_add (saturated n) w = saturated (n + unat w)"
  by (simp add: word_unat_eq_iff unat_sat_add unat_saturated min_def)

lemma saturated_small: "sat_add 0 w = saturated (unat w)" "sat_add 0 1 = saturated 1"
  using sat_add_saturated [of 0 w] sat_add_saturated [of 0 1] by (simp_all add: saturated_def)

lemma totals_snoc:
  "totals (flows @ [f]) ip =
     (if src_ip f = ip then
        (case (case totals flows ip of Some c \<Rightarrow> c | None \<Rightarrow> (0, 0, 0)) of
           (b, p, c) \<Rightarrow> Some (sat_add b (bytes f), sat_add p (packets f), sat_add c 1))
      else totals flows ip)"
  using sat_add_saturated [of _ 1]
  by (simp add: totals_def flows_of_def total_def sat_add_saturated saturated_small)

lemma record_flow_room:
  assumes "\<not> (max_entries s \<le> length (by_src s) \<and> \<not> hm_contains (by_src s) (src_ip f))"
  shows "resets (record_flow s f) = resets s"
    and "hm_get (by_src (record_flow s f)) ip =
      (if src_ip f = ip then
         (case (case hm_get (by_src s) ip of Some c \<Rightarrow> c | None \<Rightarrow> (0, 0, 0)) of
            (b, p, c) \<Rightarrow> Some (sat_add b (bytes f), sat_add p (packets f), sat_add c 1))
       else hm_get (by_src s) ip)"
  using assms by (auto simp: record_flow_def Let_def hm.get_insert split: prod.splits)

lemma aggregator_exact:
  assumes "card (src_ip ` set flows) \<le> max_entries (aggregator_new n)"
  shows "resets (foldl record_flow (aggregator_new n) flows) = 0 \<and>
    hm_get (by_src (foldl record_flow (aggregator_new n) flows)) = totals flows"
  using assms
proof (induction flows rule: rev_induct)
  case Nil
  then show ?case by (simp add: aggregator_new_def totals_def flows_of_def fun_eq_iff)
next
  case (snoc f flows)
  let ?s = "foldl record_flow (aggregator_new n) flows"
  have "card (src_ip ` set flows) \<le> card (src_ip ` set (flows @ [f]))" by (rule card_mono) auto
  with snoc have IH: "resets ?s = 0" "hm_get (by_src ?s) = totals flows" by auto
  have "hm_wf (by_src ?s)" using agg_machine.run_inv [OF agg_inv_new, of n flows] by (simp add: agg_inv_def)
  moreover have "set (map fst (by_src ?s)) = src_ip ` set flows"
    using hm_keys_get [of _ "by_src ?s"]
    by (simp add: IH hm_keys_def totals_None set_eq_iff)
  ultimately have len: "length (by_src ?s) = card (src_ip ` set flows)"
    using distinct_card [of "map fst (by_src ?s)"] by (simp add: hm_wf_def)
  have room: "\<not> (max_entries ?s \<le> length (by_src ?s) \<and> \<not> hm_contains (by_src ?s) (src_ip f))"
  proof
    assume *: "max_entries ?s \<le> length (by_src ?s) \<and> \<not> hm_contains (by_src ?s) (src_ip f)"
    then have "src_ip f \<notin> src_ip ` set flows"
      by (simp only: hm_contains_def IH totals_None not_not simp_thms)
    with snoc.prems have "card (src_ip ` set flows) < max_entries (aggregator_new n)" by simp
    with * len show False by simp
  qed
  show ?case
    using IH record_flow_room [OF room] by (simp add: totals_snoc fun_eq_iff)
qed

text \<open>
  C33. The aggregator never holds more than its configured number of sources, whatever flows it records;
  and as long as the flows come from no more sources than that, it never resets and holds for each
  source exactly the sums of its bytes, packets and flows, saturated at 64 bits.
\<close>

theorem aggregator_bounded_exact:
  "aggregator_len (foldl record_flow (aggregator_new n) flows) \<le> max_entries (aggregator_new n) \<and>
   (card (src_ip ` set flows) \<le> max_entries (aggregator_new n) \<longrightarrow>
      resets (foldl record_flow (aggregator_new n) flows) = 0 \<and>
      hm_get (by_src (foldl record_flow (aggregator_new n) flows)) ip = totals flows ip)"
  using agg_machine.run_inv [OF agg_inv_new, of n flows] aggregator_exact [of flows n]
  by (simp add: agg_inv_def aggregator_len_def)

definition ex_flow :: "u32 \<Rightarrow> u64 \<Rightarrow> unit flow_record" where
  "ex_flow ip b = \<lparr>src_ip = ip, dst_ip = 0, src_port = 0, dst_port = 0, protocol = 6, bytes = b, packets = 1,
     start_time = (), end_time = (), src_name = None, dst_name = None\<rparr>"

theorem aggregator_bounded_exact_witness:
  "resets (foldl record_flow (aggregator_new 2) [ex_flow 1 10, ex_flow 2 20, ex_flow 1 0xFFFFFFFFFFFFFFFF]) = 0 \<and>
   hm_get (by_src (foldl record_flow (aggregator_new 2) [ex_flow 1 10, ex_flow 2 20, ex_flow 1 0xFFFFFFFFFFFFFFFF])) 1 = Some (0xFFFFFFFFFFFFFFFF, 2, 2)"
proof -
  have "totals [ex_flow 1 10, ex_flow 2 20, ex_flow 1 0xFFFFFFFFFFFFFFFF] 1 = Some (0xFFFFFFFFFFFFFFFF, 2, 2)"
    by (simp add: totals_def flows_of_def total_def ex_flow_def saturated_def)
  moreover have "card (src_ip ` set [ex_flow 1 10, ex_flow 2 20, ex_flow 1 0xFFFFFFFFFFFFFFFF]) \<le> max_entries (aggregator_new 2)"
    by (simp add: ex_flow_def aggregator_new_def card_insert_if)
  ultimately show ?thesis
    using aggregator_bounded_exact [of 2 "[ex_flow 1 10, ex_flow 2 20, ex_flow 1 0xFFFFFFFFFFFFFFFF]" 1] by metis
qed

section \<open>Top N\<close>

lemma take_sort_by_bytes:
  "length (take n (sort_by_bytes es)) = min n (length es) \<and>
   sorted_wrt (\<lambda>a b. top_bytes b \<le> top_bytes a) (take n (sort_by_bytes es)) \<and>
   set (take n (sort_by_bytes es)) \<subseteq> set es \<and>
   (\<forall>e \<in> set es. e \<in> set (take n (sort_by_bytes es)) \<or> (\<forall>t \<in> set (take n (sort_by_bytes es)). top_bytes e \<le> top_bytes t))"
proof -
  let ?s = "sort_by_bytes es"
  have "sorted (map (\<lambda>e. - uint (top_bytes e)) ?s)" by (simp add: sort_by_bytes_def)
  then have sw: "sorted_wrt (\<lambda>a b. top_bytes b \<le> top_bytes a) ?s"
    by (simp add: sorted_map word_le_def)
  have "set ?s = set (take n ?s) \<union> set (drop n ?s)" by (metis append_take_drop_id set_append)
  moreover have "set ?s = set es" by (simp add: sort_by_bytes_def)
  moreover have "top_bytes e \<le> top_bytes t" if "e \<in> set (drop n ?s)" "t \<in> set (take n ?s)" for e t
    using sw that by (subst (asm) append_take_drop_id [of n, symmetric]) (auto simp only: sorted_wrt_append)
  ultimately show ?thesis
    using sorted_wrt_take [OF sw, of n] by (auto simp: sort_by_bytes_def)
qed

text \<open>
  The top-N report of the aggregator has as many entries as it can, largest byte count first, and
  every source left out has no more bytes than any source reported.
\<close>

theorem top_n_largest:
  "length (top_n s n) = min n (aggregator_len s) \<and>
   sorted_wrt (\<lambda>a b. top_bytes b \<le> top_bytes a) (top_n s n) \<and>
   (\<forall>(ip, b, p, c) \<in> set (by_src s).
      \<lparr>key = ipv4_to_string ip, top_bytes = b, top_packets = p, flow_count = unat c\<rparr> \<in> set (top_n s n) \<or>
      (\<forall>t \<in> set (top_n s n). b \<le> top_bytes t))"
  using take_sort_by_bytes [of n "map (\<lambda>(ip, b, p, c). entry_of ipv4_to_string (ip, b, p, unat c)) (by_src s)"]
  unfolding top_n_def aggregator_len_def by (fastforce simp: entry_of_def)

definition ex_agg :: aggregator where
  "ex_agg = \<lparr>max_entries = 2, by_src = [(1, 10, 1, 1), (2, 20, 1, 1)], resets = 0\<rparr>"

theorem top_n_largest_witness:
  "length (top_n ex_agg 1) = 1 \<and> (\<forall>t \<in> set (top_n ex_agg 1). 20 \<le> top_bytes t)"
proof -
  have "top_n ex_agg 1 = [\<lparr>key = ''0.0.0.2'', top_bytes = 20, top_packets = 1, flow_count = 1\<rparr>]" by code_simp
  then show ?thesis using top_n_largest [of ex_agg 1] by (simp add: aggregator_len_def ex_agg_def)
qed

end
