(* ===== verification/Dns.thy ===== *)
theory Dns
  imports Rust_Std
begin

text \<open>
  The DNS component (\<open>crates/runesh-dns/src/lib.rs\<close>): the hostname rules, the MagicDNS table of mesh
  devices and the choice of upstream servers for split DNS. A string is a list of characters below 256;
  the length the code compares is the length in bytes, which is the number of characters for the ASCII
  names that pass the validation, and the character check refuses all others.
\<close>

section \<open>Zones and records\<close>

datatype zone_type = Internal | External | Split

datatype record_type = A | AAAA | CNAME | MX | TXT | SRV | PTR | NS

record dns_record =
  record_name :: string
  record_type_of :: record_type
  record_value :: string
  ttl :: u32

definition default_ttl :: u32 where "default_ttl = 3600"

record zone =
  zone_name :: string
  zone_type_of :: zone_type
  records :: "dns_record list"

datatype dns_error = ZoneNotFound string | RecordNotFound string | DuplicateRecord string | InvalidHostname string

section \<open>Hostnames\<close>

text \<open>
  \<open>{ch:?}\<close> in the message of the last character check quotes and escapes the character; the escaping is
  a parameter \<open>debug_char\<close>. The bytes of the UTF-8 encoding are counted by \<open>utf8_len\<close>: one per
  character below 128, two for the others.
\<close>

definition utf8_len :: "string \<Rightarrow> nat" where
  "utf8_len s = sum_list (map (\<lambda>c. if (of_char c :: nat) < 128 then 1 else 2) s)"

definition ldh_or_dot :: "char \<Rightarrow> bool" where
  "ldh_or_dot ch = (is_ascii_alphanumeric ch \<or> ch = CHR ''-'' \<or> ch = CHR ''.'')"

definition check_char :: "(char \<Rightarrow> string) \<Rightarrow> char \<Rightarrow> dns_error + unit" where
  "check_char debug_char ch =
     (if ch = CHR 0x00 then Inl (InvalidHostname ''contains null byte'')
      else if is_control ch then Inl (InvalidHostname ''contains control character'')
      else if \<not> ldh_or_dot ch then Inl (InvalidHostname (''contains disallowed character: '' @ debug_char ch))
      else Inr ())"

definition check_label :: "string \<Rightarrow> dns_error + unit" where
  "check_label label =
     (if label = [] then Inl (InvalidHostname ''empty label'')
      else if utf8_len label > 63 then Inl (InvalidHostname ''label exceeds 63 chars'')
      else if starts_with ''-'' label \<or> ends_with ''-'' label
      then Inl (InvalidHostname ''label starts or ends with hyphen'')
      else Inr ())"

definition validate_hostname :: "(char \<Rightarrow> string) \<Rightarrow> string \<Rightarrow> dns_error + unit" where
  "validate_hostname debug_char hostname =
     (if hostname = [] then Inl (InvalidHostname ''empty'')
      else if utf8_len hostname > 253
      then Inl (InvalidHostname (show_nat (utf8_len hostname) @ '' chars exceeds max 253''))
      else if starts_with ''.'' hostname \<or> ends_with ''.'' hostname
      then Inl (InvalidHostname ''leading or trailing dot'')
      else rbind (try_each (check_char debug_char) hostname) (\<lambda>_.
           try_each check_label (split_on (CHR ''.'') hostname)))"

section \<open>MagicDNS\<close>

record magic_dns =
  domain :: string
  entries :: "(string, u32) hash_map"

definition magic_new :: "string \<Rightarrow> magic_dns" where
  "magic_new d = \<lparr>domain = d, entries = []\<rparr>"

definition register :: "(char \<Rightarrow> string) \<Rightarrow> magic_dns \<Rightarrow> string \<Rightarrow> u32 \<Rightarrow> (dns_error + string) \<times> magic_dns" where
  "register debug_char self hostname ip =
     (case validate_hostname debug_char hostname of
        Inl e \<Rightarrow> (Inl e, self)
      | Inr _ \<Rightarrow> (Inr (hostname @ ''.'' @ domain self), self\<lparr>entries := hm_insert hostname ip (entries self)\<rparr>))"

definition unregister :: "magic_dns \<Rightarrow> string \<Rightarrow> magic_dns" where
  "unregister self hostname = self\<lparr>entries := hm_remove hostname (entries self)\<rparr>"

definition resolve :: "magic_dns \<Rightarrow> string \<Rightarrow> u32 option" where
  "resolve self query =
     (case hm_get (entries self) query of
        Some ip \<Rightarrow> Some ip
      | None \<Rightarrow>
          (case strip_suffix (''.'' @ domain self) query of
             Some short \<Rightarrow> hm_get (entries self) short
           | None \<Rightarrow> None))"

definition to_records :: "magic_dns \<Rightarrow> dns_record list" where
  "to_records self = map (\<lambda>(name, ip). \<lparr>record_name = name @ ''.'' @ domain self, record_type_of = A,
     record_value = ipv4_to_string ip, ttl = 60\<rparr>) (entries self)"

definition magic_len :: "magic_dns \<Rightarrow> nat" where "magic_len self = length (entries self)"

definition magic_is_empty :: "magic_dns \<Rightarrow> bool" where "magic_is_empty self = (entries self = [])"

section \<open>Split DNS\<close>

record split_dns_config =
  default_servers :: "string list"
  routes :: "(string, string list) hash_map"

text \<open>The loop of \<open>servers_for\<close>; it ends because every round strips at least one character.\<close>

function servers_for :: "split_dns_config \<Rightarrow> string \<Rightarrow> string list" where
  "servers_for self candidate =
     (case hm_get (routes self) candidate of
        Some servers \<Rightarrow> servers
      | None \<Rightarrow>
          (case find_char (CHR ''.'') candidate of
             Some pos \<Rightarrow> servers_for self (drop (pos + 1) candidate)
           | None \<Rightarrow> default_servers self))"
  by pat_completeness auto

lemma find_char_nonempty: "find_char c s = Some i \<Longrightarrow> s \<noteq> []"
  by auto

termination servers_for
  by (relation "measure (\<lambda>(self, c). length c)") (auto dest: find_char_nonempty)

declare servers_for.simps [simp del]

section \<open>Split DNS picks the most specific route\<close>

text \<open>The parent domains of a name: the name itself, then with its first label dropped, and so on.\<close>

function domain_suffixes :: "string \<Rightarrow> string list" where
  "domain_suffixes s = s # (case find_char (CHR ''.'') s of Some p \<Rightarrow> domain_suffixes (drop (p + 1) s) | None \<Rightarrow> [])"
  by pat_completeness auto
termination domain_suffixes
  by (relation "measure length") (auto dest: find_char_nonempty)

declare domain_suffixes.simps [simp del]

lemma servers_for_find:
  "servers_for self d =
     (case find (\<lambda>s. hm_contains (routes self) s) (domain_suffixes d) of
        Some s \<Rightarrow> the (hm_get (routes self) s)
      | None \<Rightarrow> default_servers self)"
proof (induction self d rule: servers_for.induct)
  case (1 self candidate)
  show ?case
  proof (cases "hm_get (routes self) candidate")
    case None
    then show ?thesis
      using 1 by (cases "find_char (CHR ''.'') candidate")
        (simp_all add: servers_for.simps [of self candidate] domain_suffixes.simps [of candidate] hm_contains_def)
  next
    case (Some servers)
    then show ?thesis
      by (simp add: servers_for.simps [of self candidate] domain_suffixes.simps [of candidate] hm_contains_def)
  qed
qed

text \<open>The parent domains are the suffixes that start at a label.\<close>

lemma find_char_Some: "find_char c s = Some p \<longleftrightarrow> p < length s \<and> s ! p = c \<and> c \<notin> set (take p s)"
proof (induction s arbitrary: p)
  case (Cons x s)
  then show ?case by (cases p) auto
qed simp

lemma suffixes_iff: "t \<in> set (domain_suffixes s) \<longleftrightarrow> t = s \<or> suffix (CHR ''.'' # t) s"
proof (induction s rule: domain_suffixes.induct)
  case (1 s)
  show ?case
  proof (cases "find_char (CHR ''.'') s")
    case None
    then have "CHR ''.'' \<notin> set s" by (simp add: find_char_None)
    then have "\<not> suffix (CHR ''.'' # t) s" by (auto simp: suffix_def)
    with None show ?thesis by (simp add: domain_suffixes.simps [of s])
  next
    case (Some p)
    then have p: "p < length s" "s ! p = CHR ''.''" "CHR ''.'' \<notin> set (take p s)" by (simp_all add: find_char_Some)
    then have s: "s = take p s @ CHR ''.'' # drop (p + 1) s" using id_take_nth_drop [OF p(1)] p(2) by simp
    have "suffix (CHR ''.'' # t) s \<longleftrightarrow> t = drop (p + 1) s \<or> suffix (CHR ''.'' # t) (drop (p + 1) s)"
    proof -
      have "suffix (c # t) (xs @ c # ys) \<longleftrightarrow> t = ys \<or> suffix (c # t) ys" if "c \<notin> set xs" for c :: char and xs ys
        using that by (induction xs) (auto simp: suffix_Cons)
      from this [OF p(3), of "drop (p + 1) s"] show ?thesis using s by simp
    qed
    then show ?thesis using 1 [OF Some] Some by (simp add: domain_suffixes.simps [of s])
  qed
qed

definition parent_domain :: "string \<Rightarrow> string \<Rightarrow> bool" where
  "parent_domain t d = (t = d \<or> suffix (CHR ''.'' # t) d)"

lemma suffixes_shrink: "sorted_wrt (\<lambda>a b. length b < length a) (domain_suffixes s)"
proof (induction s rule: domain_suffixes.induct)
  case (1 s)
  show ?case
  proof (cases "find_char (CHR ''.'') s")
    case (Some p)
    then have "p < length s" by (simp add: find_char_Some)
    then have "length t < length s" if "t \<in> set (domain_suffixes (drop (p + 1) s))" for t
      using that suffix_length_le [of "CHR ''.'' # t" "drop (p + 1) s"] by (auto simp: suffixes_iff)
    then show ?thesis using 1 [OF Some] Some by (simp add: domain_suffixes.simps [of s])
  qed (simp add: domain_suffixes.simps [of s])
qed

lemma find_longest:
  assumes "sorted_wrt (\<lambda>a b. length b < length a) xs" "x \<in> set xs" "P x"
    and "\<And>y. y \<in> set xs \<Longrightarrow> P y \<Longrightarrow> length y \<le> length x"
  shows "find P xs = Some x"
  using assms by (induction xs) fastforce+

text \<open>
  Split DNS sends a query to the servers of the longest routed domain that is the queried name or one
  of its parents at a label boundary, and to the default servers exactly when no such domain is routed.
\<close>

theorem servers_for_most_specific:
  "(hm_get (routes cfg) s = Some servers \<longrightarrow> parent_domain s d \<longrightarrow>
      (\<forall>t. hm_contains (routes cfg) t \<longrightarrow> parent_domain t d \<longrightarrow> length t \<le> length s) \<longrightarrow> servers_for cfg d = servers) \<and>
   ((\<forall>t. parent_domain t d \<longrightarrow> \<not> hm_contains (routes cfg) t) \<longrightarrow> servers_for cfg d = default_servers cfg)"
proof (intro conjI impI)
  assume s: "hm_get (routes cfg) s = Some servers" and "parent_domain s d"
    "\<forall>t. hm_contains (routes cfg) t \<longrightarrow> parent_domain t d \<longrightarrow> length t \<le> length s"
  then have "find (hm_contains (routes cfg)) (domain_suffixes d) = Some s"
    by (intro find_longest [OF suffixes_shrink]) (auto simp: suffixes_iff parent_domain_def hm_contains_def)
  with s show "servers_for cfg d = servers" by (simp add: servers_for_find)
next
  assume "\<forall>t. parent_domain t d \<longrightarrow> \<not> hm_contains (routes cfg) t"
  then have "find (hm_contains (routes cfg)) (domain_suffixes d) = None"
    by (auto simp: find_None_iff suffixes_iff parent_domain_def)
  then show "servers_for cfg d = default_servers cfg" by (simp add: servers_for_find)
qed

definition ex_split :: split_dns_config where
  "ex_split = \<lparr>default_servers = [''1.1.1.1''], routes = [(''corp.io'', [''10.0.0.1'']), (''dev.corp.io'', [''10.0.0.2''])]\<rparr>"

theorem servers_for_most_specific_witness:
  "servers_for ex_split ''a.dev.corp.io'' = [''10.0.0.2'']"
  using servers_for_most_specific [of ex_split "''dev.corp.io''" "[''10.0.0.2'']" "''a.dev.corp.io''"]
  by (simp add: ex_split_def hm_contains_def hm_get_def parent_domain_def suffix_Cons)

section \<open>Hostnames the validation accepts\<close>

definition valid_label :: "string \<Rightarrow> bool" where
  "valid_label l = (l \<noteq> [] \<and> length l \<le> 63 \<and> hd l \<noteq> CHR ''-'' \<and> last l \<noteq> CHR ''-'' \<and>
     list_all (\<lambda>c. is_ascii_alphanumeric c \<or> c = CHR ''-'') l)"

lemma split_on_snoc: "split_on c (s @ [c]) = split_on c s @ [[]]"
  by (induction s) (auto split: list.splits)

lemma split_on_chars: "list_all P (filter (\<lambda>x. x \<noteq> c) s) \<longleftrightarrow> list_all (list_all P) (split_on c s)"
  by (induction s) (auto split: list.splits)

lemma utf8_len_ascii: "list_all (\<lambda>c. (of_char c :: nat) < 128) s \<Longrightarrow> utf8_len s = length s"
  by (induction s) (simp_all add: utf8_len_def)

lemma ldh_ascii: "ldh_or_dot c \<Longrightarrow> (of_char c :: nat) < 128"
  by (auto simp: ldh_or_dot_def is_ascii_alphanumeric_def Let_def)

lemma check_char_ok: "check_char dc c = Inr () \<longleftrightarrow> ldh_or_dot c"
  by (auto simp: check_char_def ldh_or_dot_def is_control_def is_ascii_alphanumeric_def Let_def)

lemma starts_ends_hyphen: "l \<noteq> [] \<Longrightarrow> starts_with [c] l \<longleftrightarrow> hd l = c" "l \<noteq> [] \<Longrightarrow> ends_with [c] l \<longleftrightarrow> last l = c"
  by (cases l; auto simp: starts_with_def) (cases l rule: rev_cases; auto simp: ends_with_def)

lemma edge_dot_empty_label:
  assumes "h \<noteq> []" "starts_with [c] h \<or> ends_with [c] h"
  shows "[] \<in> set (split_on c h)"
proof (cases "hd h = c")
  case True
  with assms(1) show ?thesis by (cases h) simp_all
next
  case False
  with assms have "last h = c" by (simp add: starts_ends_hyphen)
  with assms(1) have "h = butlast h @ [c]" by (metis append_butlast_last_id)
  then show ?thesis using split_on_snoc [of c "butlast h"] by (metis in_set_conv_decomp)
qed

lemma ldh_labels: "list_all ldh_or_dot h \<longleftrightarrow>
  list_all (list_all (\<lambda>c. is_ascii_alphanumeric c \<or> c = CHR ''-'')) (split_on (CHR ''.'') h)"
  unfolding split_on_chars [symmetric] by (auto simp: list_all_iff ldh_or_dot_def)

lemma check_label_ok:
  "list_all (\<lambda>c. is_ascii_alphanumeric c \<or> c = CHR ''-'') l \<Longrightarrow> check_label l = Inr () \<longleftrightarrow> valid_label l"
proof -
  assume l: "list_all (\<lambda>c. is_ascii_alphanumeric c \<or> c = CHR ''-'') l"
  then have "list_all (\<lambda>c. (of_char c :: nat) < 128) l" using ldh_ascii by (auto simp: list_all_iff ldh_or_dot_def)
  then show ?thesis
    using l utf8_len_ascii [of l] by (auto simp: check_label_def valid_label_def starts_ends_hyphen)
qed

text \<open>
  A hostname is accepted exactly when it has at most 253 characters and each of its dot-separated
  labels has 1 to 63 letters, digits and hyphens and neither starts nor ends with a hyphen.
\<close>

theorem validate_hostname_iff:
  "validate_hostname debug_char h = Inr () \<longleftrightarrow> length h \<le> 253 \<and> list_all valid_label (split_on (CHR ''.'') h)"
proof -
  have v: "validate_hostname debug_char h = Inr () \<longleftrightarrow> h \<noteq> [] \<and> utf8_len h \<le> 253 \<and>
      \<not> (starts_with ''.'' h \<or> ends_with ''.'' h) \<and> list_all ldh_or_dot h \<and>
      list_all (\<lambda>l. check_label l = Inr ()) (split_on (CHR ''.'') h)"
    unfolding validate_hostname_def list_all_iff
    by (simp add: rbind_eq_Inr try_each_eq_Inr check_char_ok not_less)
  show ?thesis
  proof (cases "list_all ldh_or_dot h")
    case True
    then have len: "utf8_len h = length h" using utf8_len_ascii ldh_ascii by (auto simp: list_all_iff)
    have lab: "list_all (\<lambda>l. check_label l = Inr ()) (split_on (CHR ''.'') h) \<longleftrightarrow> list_all valid_label (split_on (CHR ''.'') h)"
    proof (rule list_all_cong [OF refl])
      fix l assume "l \<in> set (split_on (CHR ''.'') h)"
      with list_all_iff [THEN iffD1, OF True [unfolded ldh_labels]]
      have "list_all (\<lambda>c. is_ascii_alphanumeric c \<or> c = CHR ''-'') l" by (rule bspec)
      then show "check_label l = Inr () \<longleftrightarrow> valid_label l" by (rule check_label_ok)
    qed
    have "list_all valid_label (split_on (CHR ''.'') h) \<Longrightarrow> h \<noteq> [] \<and> \<not> (starts_with ''.'' h \<or> ends_with ''.'' h)"
      using edge_dot_empty_label [of h "CHR ''.''"] by (cases "h = []") (auto simp: list_all_iff valid_label_def)
    then show ?thesis unfolding v len lab using True by blast
  next
    case False
    have "list_all valid_label (split_on (CHR ''.'') h) \<Longrightarrow> list_all ldh_or_dot h"
      unfolding ldh_labels by (erule list.pred_mono_strong) (simp add: valid_label_def)
    with False v show ?thesis by blast
  qed
qed

section \<open>Registration and resolution\<close>

text \<open>
  After a device registers, its short name resolves to its address, and so does its full name unless
  another device registered that full name as its hostname; every other query resolves as before.
  A refused registration changes nothing.
\<close>

theorem register_resolve:
  "(case register dc m h ip of
      (Inl e, m') \<Rightarrow> m' = m \<and> validate_hostname dc h = Inl e
    | (Inr fqdn, m') \<Rightarrow> fqdn = h @ ''.'' @ domain m \<and> resolve m' h = Some ip \<and>
        resolve m' fqdn = Some (case hm_get (entries m) fqdn of Some ip' \<Rightarrow> ip' | None \<Rightarrow> ip) \<and>
        (\<forall>q. q = h \<or> q = fqdn \<or> resolve m' q = resolve m q))"
  by (auto simp: register_def resolve_def hm.get_insert strip_suffix_def suffix_def split: sum.splits option.splits)

end
