(* ===== verification/Proxy.thy ===== *)
theory Proxy
  imports Ipnet
begin

text \<open>
  The reverse proxy (\<open>crates/runesh-proxy/src/config.rs\<close>, \<open>router.rs\<close>): the resources a tenant publishes,
  the validation of their backends and headers, the normalisation of host names and the router with its
  round-robin counters.

  The ipnet crate is the parameter \<open>api\<close>; the escaping of the debug format \<open>{:?}\<close> is the parameter
  \<open>debug_str\<close>. The router's atomic counters are part of its state; \<open>None\<close> as the outcome of a routing
  decision is the panic of \<open>expect("counter should exist")\<close>.
\<close>

section \<open>Configuration\<close>

datatype proxy_error = NoRoute string | BackendUnreachable string | AccessDenied string | Certificate string
  | InvalidConfig string | ProxyIo string

definition BLOCKED_HEADER_NAMES :: "string list" where
  "BLOCKED_HEADER_NAMES = [''connection'', ''content-length'', ''transfer-encoding'', ''upgrade'', ''host'',
     ''x-forwarded-for'', ''x-forwarded-proto'', ''x-real-ip'', ''authorization'']"

definition SSRF_DENY_CIDRS :: "string list" where
  "SSRF_DENY_CIDRS = [''127.0.0.0/8'', ''::1/128'', ''169.254.0.0/16'', ''fe80::/10'']"

datatype 'net host_spec = Exact string | Suffix string | Cidr 'net

definition host_spec_matches :: "'net ipnet_api \<Rightarrow> 'net host_spec \<Rightarrow> string \<Rightarrow> bool" where
  "host_spec_matches api self address =
     (case self of
        Exact s \<Rightarrow> eq_ignore_ascii_case s address
      | Suffix sfx \<Rightarrow> ends_with (to_ascii_lowercase sfx) (to_ascii_lowercase address)
      | Cidr net \<Rightarrow> (case parse_ip_addr address of Some ip \<Rightarrow> net_contains api net ip | None \<Rightarrow> False))"

record 'net backend_validation =
  allowed_backend_schemes :: "string list"
  allowed_backend_hosts :: "'net host_spec list option"

definition default_validation :: "'net backend_validation" where
  "default_validation = \<lparr>allowed_backend_schemes = [''http'', ''https''], allowed_backend_hosts = None\<rparr>"

datatype protocol = Https | Http | Tcp | Udp | Grpc

record backend =
  address :: string
  port :: u16
  tls_on :: bool
  weight :: u32
  healthy :: bool

datatype load_balance = RoundRobin | LeastConn | Random | IpHash

datatype acme_challenge = Dns01 | TlsAlpn01

record tls_config =
  acme :: bool
  acme_challenge_of :: acme_challenge
  cert_pem :: "string option"
  key_pem :: "string option"

record network_filter =
  allow_ips :: "string list"
  deny_ips :: "string list"
  allow_geo :: "string list"
  deny_geo :: "string list"
  rate_limit_rps :: u32

record time_filter =
  windows :: "string list"
  maintenance :: bool

datatype auth_mode = Public | Sso | Group | Mtls | Psk | OneTime | MeshOnly

record identity_gate =
  mode :: auth_mode

record authz_filter =
  authz_groups :: "string list"
  authz_methods :: "string list"
  paths :: "string list"
  require_mfa :: bool
  posture :: "string list"

record access_config =
  network :: network_filter
  time :: "time_filter option"
  identity :: identity_gate
  authz :: "authz_filter option"

record path_rewrite =
  match_prefix :: string
  replace_prefix :: string

record http_config =
  path_rewrites :: "path_rewrite list"
  request_headers :: "(string, string) hash_map"
  response_headers :: "(string, string) hash_map"
  hsts :: bool
  force_https :: bool

record resource =
  res_id :: string
  tenant_id :: string
  hostname :: string
  public_port :: u16
  res_protocol :: protocol
  backends :: "backend list"
  load_balance_of :: load_balance
  tls :: tls_config
  access :: access_config
  http :: "http_config option"
  enabled :: bool

definition default_public_port :: u16 where "default_public_port = 443"
definition default_weight :: u32 where "default_weight = 1"
definition default_true :: bool where "default_true = True"

record proxy_config =
  resources :: "(string, resource) hash_map"

definition route :: "proxy_config \<Rightarrow> string \<Rightarrow> resource option" where
  "route self h = hm_get (resources self) h"

definition upsert_resource :: "proxy_config \<Rightarrow> resource \<Rightarrow> proxy_config" where
  "upsert_resource self r = self\<lparr>resources := hm_insert (hostname r) r (resources self)\<rparr>"

definition remove_resource :: "proxy_config \<Rightarrow> string \<Rightarrow> resource option \<times> proxy_config" where
  "remove_resource self h = (hm_get (resources self) h, self\<lparr>resources := hm_remove h (resources self)\<rparr>)"

definition tenant_resources :: "proxy_config \<Rightarrow> string \<Rightarrow> resource list" where
  "tenant_resources self t = filter (\<lambda>r. tenant_id r = t) (hm_values (resources self))"

definition hostnames :: "proxy_config \<Rightarrow> string list" where
  "hostnames self = map hostname (filter enabled (hm_values (resources self)))"

section \<open>Validation\<close>

text \<open>\<open>str::split_once\<close> with a string pattern: the first occurrence.\<close>

fun split_once_str :: "string \<Rightarrow> string \<Rightarrow> (string \<times> string) option" where
  "split_once_str p [] = (if p = [] then Some ([], []) else None)"
| "split_once_str p (x # xs) =
     (if prefix p (x # xs) then Some ([], drop (length p) (x # xs))
      else map_option (\<lambda>(a, b). (x # a, b)) (split_once_str p xs))"

definition is_ssrf_sensitive :: "'net ipnet_api \<Rightarrow> string \<Rightarrow> bool" where
  "is_ssrf_sensitive api host =
     (if host = ''169.254.169.254'' \<or> eq_ignore_ascii_case host ''metadata.google.internal'' then True
      else if (case parse_ip_addr host of
                 Some ip \<Rightarrow> list_ex (\<lambda>cidr. case net_from_str api cidr of Some net \<Rightarrow> net_contains api net ip | None \<Rightarrow> False)
                   SSRF_DENY_CIDRS
               | None \<Rightarrow> False) then True
      else if eq_ignore_ascii_case host ''localhost'' then True
      else False)"

definition allowlist_permits :: "'net ipnet_api \<Rightarrow> string \<Rightarrow> 'net backend_validation \<Rightarrow> bool" where
  "allowlist_permits api host validation =
     (case allowed_backend_hosts validation of
        Some es \<Rightarrow> list_ex (\<lambda>spec. host_spec_matches api spec host) es
      | None \<Rightarrow> False)"

text \<open>The scheme and the host of a backend address, as the validation extracts them.\<close>

definition scheme_of :: "string \<Rightarrow> string option \<times> string" where
  "scheme_of addr =
     (case split_once_str ''://'' addr of
        Some (s, rest) \<Rightarrow> (Some (to_ascii_lowercase s), rest)
      | None \<Rightarrow> (None, addr))"

definition host_of :: "string \<Rightarrow> string" where
  "host_of rest =
     (let host = hd (split_on (CHR ''/'') rest);
          host = (case rsplit_once (CHR ''@'') host of Some (_, h) \<Rightarrow> h | None \<Rightarrow> host);
          bare = trim_end_matches (\<lambda>c. c = CHR '']'') (trim_start_matches (\<lambda>c. c = CHR ''['') host)
      in case rsplit_once (CHR '':'') host of
           Some (h, _) \<Rightarrow> if h \<noteq> [] \<and> CHR '':'' \<notin> set h then h else bare
         | None \<Rightarrow> bare)"

definition validate_backend_address :: "'net ipnet_api \<Rightarrow> string \<Rightarrow> 'net backend_validation \<Rightarrow> string + unit" where
  "validate_backend_address api addr validation =
     (if addr = [] then Inl ''empty address''
      else if CHR 0x00 \<in> set addr then Inl ''address contains null byte''
      else
        case scheme_of addr of (scheme, rest) \<Rightarrow>
          let host = host_of rest in
          case (case scheme of
                  Some s \<Rightarrow> if s \<in> set (allowed_backend_schemes validation) then None
                    else Some (''scheme '' @ [CHR 0x27] @ s @ [CHR 0x27] @ '' not allowed'')
                | None \<Rightarrow> None) of
            Some e \<Rightarrow> Inl e
          | None \<Rightarrow>
              if is_ssrf_sensitive api host \<and> \<not> allowlist_permits api host validation
              then Inl (''host '' @ [CHR 0x27] @ host @ [CHR 0x27] @ '' resolves to a loopback, link-local, or metadata endpoint'')
              else if (case allowed_backend_hosts validation of
                         Some allowed \<Rightarrow> \<not> list_ex (\<lambda>spec. host_spec_matches api spec host) allowed
                       | None \<Rightarrow> False)
              then Inl (''host '' @ [CHR 0x27] @ host @ [CHR 0x27] @ '' not in allowlist'')
              else Inr ())"

definition is_token_char :: "char \<Rightarrow> bool" where
  "is_token_char b = (b \<in> set ''!#$%&*+-.^_|~'' \<or> b = CHR 0x27 \<or> b = CHR 0x60 \<or> is_ascii_alphanumeric b)"

definition validate_header :: "string \<Rightarrow> string \<Rightarrow> string + unit" where
  "validate_header name val =
     (if name = [] then Inl ''empty header name''
      else if \<not> list_all is_token_char name then Inl ''header name contains invalid characters''
      else if list_ex (\<lambda>blocked. eq_ignore_ascii_case name blocked) BLOCKED_HEADER_NAMES then Inl ''header name is blocked''
      else if list_ex (\<lambda>b. b = CHR 0x00 \<or> b = CHR 0x0D \<or> b = CHR 0x0A) val
      then Inl ''header value contains CR, LF, or NUL''
      else Inr ())"

definition map_err :: "('e \<Rightarrow> 'f) \<Rightarrow> 'e + 'a \<Rightarrow> 'f + 'a" where
  "map_err f r = (case r of Inl e \<Rightarrow> Inl (f e) | Inr a \<Rightarrow> Inr a)"

definition validate_resource ::
    "'net ipnet_api \<Rightarrow> (string \<Rightarrow> string) \<Rightarrow> 'net backend_validation \<Rightarrow> resource \<Rightarrow> proxy_error + unit" where
  "validate_resource api debug_str validation r =
     rbind (try_each (\<lambda>b. map_err (\<lambda>msg. InvalidConfig (''resource '' @ res_id r @ '': backend '' @ address b @ '': '' @ msg))
              (validate_backend_address api (address b) validation)) (backends r)) (\<lambda>_.
     case http r of
       None \<Rightarrow> Inr ()
     | Some h \<Rightarrow>
         try_each (\<lambda>(name, val). map_err (\<lambda>msg. InvalidConfig (''resource '' @ res_id r @ '': header '' @ debug_str name @ '': '' @ msg))
           (validate_header name val)) (request_headers h @ response_headers h))"

definition validate_config ::
    "'net ipnet_api \<Rightarrow> (string \<Rightarrow> string) \<Rightarrow> proxy_config \<Rightarrow> 'net backend_validation \<Rightarrow> proxy_error + unit" where
  "validate_config api debug_str self validation =
     try_each (validate_resource api debug_str validation) (hm_values (resources self))"

section \<open>Requests\<close>

definition normalize_hostname :: "string \<Rightarrow> string" where
  "normalize_hostname input =
     (let trimmed = to_ascii_lowercase (trim_end_matches (\<lambda>c. c = CHR ''.'') (trim input));
          bracketed = (if starts_with ''['' trimmed then rfind_char (CHR '']'') trimmed else None)
      in case bracketed of
           Some e \<Rightarrow> take (e + 1) trimmed
         | None \<Rightarrow>
             (case rsplit_once (CHR '':'') trimmed of
                Some (host, prt) \<Rightarrow> if list_all is_ascii_digit prt then host else trimmed
              | None \<Rightarrow> trimmed))"

definition healthy_backends :: "resource \<Rightarrow> backend list" where
  "healthy_backends self = filter healthy (backends self)"

definition requires_auth :: "resource \<Rightarrow> bool" where
  "requires_auth self = (mode (identity (access self)) \<noteq> Public)"

definition is_mesh_only :: "resource \<Rightarrow> bool" where
  "is_mesh_only self = (mode (identity (access self)) = MeshOnly)"

definition ip_matches :: "'net ipnet_api \<Rightarrow> string \<Rightarrow> ip_addr \<Rightarrow> bool" where
  "ip_matches api entry ip =
     (case net_from_str api entry of
        Some net \<Rightarrow> net_contains api net ip
      | None \<Rightarrow>
          (case parse_ip_addr entry of
             Some entry_ip \<Rightarrow> entry_ip = ip
           | None \<Rightarrow> False))"

definition check_ip :: "'net ipnet_api \<Rightarrow> resource \<Rightarrow> string \<Rightarrow> bool" where
  "check_ip api self ip =
     (let nf = network (access self) in
      case parse_ip_addr ip of
        None \<Rightarrow> False
      | Some parsed \<Rightarrow>
          if deny_ips nf \<noteq> [] \<and> list_ex (\<lambda>d. ip_matches api d parsed) (deny_ips nf) then False
          else if allow_ips nf \<noteq> [] then list_ex (\<lambda>a. ip_matches api a parsed) (allow_ips nf)
          else True)"

section \<open>The router\<close>

record resolved_route =
  resource_id :: string
  route_tenant :: string
  backend_addr :: string
  backend_port :: u16
  backend_tls :: bool

datatype route_decision = Forward resolved_route | AuthRequired | Denied string

record router =
  config :: proxy_config
  rr_counters :: "(string, u64) hash_map"

definition router_new :: "proxy_config \<Rightarrow> router" where
  "router_new cfg = \<lparr>config = cfg, rr_counters = foldl (\<lambda>m h. hm_insert h 0 m) [] (hm_keys (resources cfg))\<rparr>"

definition update_config :: "router \<Rightarrow> proxy_config \<Rightarrow> router" where
  "update_config self cfg =
     (let added = foldl (\<lambda>m h. if hm_contains m h then m else hm_insert h 0 m) (rr_counters self) (hm_keys (resources cfg))
      in \<lparr>config = cfg, rr_counters = filter (\<lambda>(k, _). hm_contains (resources cfg) k) added\<rparr>)"

text \<open>Every strategy takes the next backend in turn and bumps the counter, which wraps at 64 bits.\<close>

definition pick_backend :: "router \<Rightarrow> string \<Rightarrow> backend list \<Rightarrow> load_balance \<Rightarrow> (backend \<times> router) option" where
  "pick_backend self h bs strategy =
     (case hm_get (rr_counters self) h of
        None \<Rightarrow> None
      | Some counter \<Rightarrow>
          (case strategy of _ \<Rightarrow>
             Some (bs ! (unat counter mod length bs), self\<lparr>rr_counters := hm_insert h (counter + 1) (rr_counters self)\<rparr>)))"

definition resolve_with_context ::
    "'net ipnet_api \<Rightarrow> router \<Rightarrow> string \<Rightarrow> string option \<Rightarrow> bool \<Rightarrow> (route_decision \<times> router) option" where
  "resolve_with_context api self host source_ip is_mesh =
     (let normalized = normalize_hostname host in
      case route (config self) normalized of
        None \<Rightarrow> Some (Denied (''no route for '' @ [CHR 0x27] @ normalized @ [CHR 0x27]), self)
      | Some r \<Rightarrow>
          if \<not> enabled r then Some (Denied (normalized @ '' (disabled)''), self)
          else if is_mesh_only r \<and> \<not> is_mesh then Some (Denied ''mesh-only resource, public access blocked'', self)
          else
            case (case source_ip of Some ip \<Rightarrow> if check_ip api r ip then None else Some ip | None \<Rightarrow> None) of
              Some ip \<Rightarrow> Some (Denied (''source ip '' @ ip @ '' denied''), self)
            | None \<Rightarrow>
                if requires_auth r then Some (AuthRequired, self)
                else
                  let bs = healthy_backends r in
                  if bs = [] then Some (Denied (''no healthy backends for '' @ normalized), self)
                  else
                    case pick_backend self normalized bs (load_balance_of r) of
                      None \<Rightarrow> None
                    | Some (b, self') \<Rightarrow>
                        Some (Forward \<lparr>resource_id = res_id r, route_tenant = tenant_id r, backend_addr = address b,
                                backend_port = port b, backend_tls = tls_on b\<rparr>, self'))"

definition resolve_host :: "'net ipnet_api \<Rightarrow> router \<Rightarrow> string \<Rightarrow> ((proxy_error + resolved_route) \<times> router) option" where
  "resolve_host api self host =
     map_option (\<lambda>(d, self'). (case d of
         Forward r \<Rightarrow> Inr r
       | AuthRequired \<Rightarrow> Inl (AccessDenied ''authentication required'')
       | Denied reason \<Rightarrow> Inl (AccessDenied reason), self'))
     (resolve_with_context api self host None False)"

section \<open>The router never panics and forwards only what the layers admit\<close>

text \<open>The operations a running proxy performs on its router.\<close>

datatype router_op = UpdateConfig proxy_config | Request string "string option" bool

definition router_step :: "'net ipnet_api \<Rightarrow> router \<Rightarrow> router_op \<Rightarrow> router" where
  "router_step api r op =
     (case op of
        UpdateConfig cfg \<Rightarrow> update_config r cfg
      | Request host source mesh \<Rightarrow>
          (case resolve_with_context api r host source mesh of Some (_, r') \<Rightarrow> r' | None \<Rightarrow> r))"

definition router_inv :: "router \<Rightarrow> bool" where
  "router_inv r = (\<forall>h. hm_contains (resources (config r)) h \<longrightarrow> hm_contains (rr_counters r) h)"

lemma hm_contains_insert [simp]: "hm_contains (hm_insert k v m) h \<longleftrightarrow> h = k \<or> hm_contains m h"
  by (simp add: hm_contains_def hm.get_insert)

lemma hm_contains_keys: "hm_contains m h \<longleftrightarrow> h \<in> set (hm_keys m)"
  by (simp add: hm_contains_def hm_keys_get)

lemma hm_contains_filter: "hm_contains (filter (\<lambda>(k, _). P k) m) h \<longleftrightarrow> P h \<and> hm_contains m h"
  unfolding hm_contains_keys hm_keys_def by auto

lemma counters_new: "hm_contains (foldl (\<lambda>m h. hm_insert h 0 m) m0 hs) h \<longleftrightarrow> h \<in> set hs \<or> hm_contains m0 h"
  by (induction hs arbitrary: m0) auto

lemma counters_added:
  "hm_contains (foldl (\<lambda>m h. if hm_contains m h then m else hm_insert h 0 m) m0 hs) h \<longleftrightarrow> h \<in> set hs \<or> hm_contains m0 h"
  by (induction hs arbitrary: m0) auto

lemma router_inv_new: "router_inv (router_new cfg)"
  by (simp add: router_inv_def router_new_def counters_new flip: hm_contains_keys)

lemma router_inv_update: "router_inv (update_config r cfg)"
  by (simp add: router_inv_def update_config_def Let_def hm_contains_filter counters_added flip: hm_contains_keys)

definition route_of :: "resource \<Rightarrow> backend \<Rightarrow> resolved_route" where
  "route_of r b = \<lparr>resource_id = res_id r, route_tenant = tenant_id r, backend_addr = address b,
     backend_port = port b, backend_tls = tls_on b\<rparr>"

text \<open>The conditions of the layers, and the effect of a forwarded request.\<close>

definition admitted :: "'net ipnet_api \<Rightarrow> router \<Rightarrow> string \<Rightarrow> string option \<Rightarrow> resource \<Rightarrow> bool" where
  "admitted api r host source res =
     (route (config r) (normalize_hostname host) = Some res \<and> enabled res \<and> mode (identity (access res)) = Public \<and>
      (case source of Some ip \<Rightarrow> check_ip api res ip | None \<Rightarrow> True) \<and> (\<exists>b \<in> set (backends res). healthy b))"

lemma resolve_admitted:
  assumes "admitted api r host source res" "hm_get (rr_counters r) (normalize_hostname host) = Some c"
  shows "resolve_with_context api r host source mesh =
    Some (Forward (route_of res (healthy_backends res ! (unat c mod length (healthy_backends res)))),
      r\<lparr>rr_counters := hm_insert (normalize_hostname host) (c + 1) (rr_counters r)\<rparr>)"
proof -
  have "healthy_backends res \<noteq> []" using assms(1) by (auto simp: admitted_def healthy_backends_def filter_empty_conv)
  then show ?thesis
    using assms
    by (auto simp: resolve_with_context_def admitted_def is_mesh_only_def requires_auth_def pick_backend_def route_of_def
        Let_def split: option.splits load_balance.splits)
qed

lemma resolve_not_admitted:
  "\<forall>res. \<not> admitted api r host source res \<Longrightarrow> \<exists>d. resolve_with_context api r host source mesh = Some (d, r) \<and> (\<forall>rt. d \<noteq> Forward rt)"
  by (auto simp: resolve_with_context_def admitted_def requires_auth_def healthy_backends_def filter_empty_conv Let_def
      split: option.splits)

lemma admitted_counter: "router_inv r \<Longrightarrow> admitted api r host source res \<Longrightarrow>
    \<exists>c. hm_get (rr_counters r) (normalize_hostname host) = Some c"
  by (auto simp: router_inv_def admitted_def route_def hm_contains_def)

interpretation router_machine: invariant_machine "router_step api" router_inv for api
proof
  fix r op
  assume inv: "router_inv r"
  show "router_inv (router_step api r op)"
  proof (cases op)
    case (UpdateConfig cfg)
    then show ?thesis by (simp add: router_step_def router_inv_update)
  next
    case (Request host source mesh)
    show ?thesis
    proof (cases "\<exists>res. admitted api r host source res")
      case True
      then obtain res c where "admitted api r host source res" "hm_get (rr_counters r) (normalize_hostname host) = Some c"
        using admitted_counter [OF inv] by blast
      then show ?thesis
        using inv resolve_admitted by (fastforce simp: router_step_def Request router_inv_def)
    next
      case False
      then obtain d where "resolve_with_context api r host source mesh = Some (d, r)"
        using resolve_not_admitted by blast
      then show ?thesis using inv by (simp add: router_step_def Request)
    qed
  qed
qed

text \<open>
  C8. Over every sequence of requests and configuration updates the router never panics for want of a
  counter, and it forwards a request exactly when its normalised host names an enabled resource that is
  public, whose network filter admits the source address, and that has a healthy backend. In particular
  a resource that is not public, mesh-only ones included, is never forwarded.
\<close>

theorem router_forward_iff:
  "\<exists>d r'. resolve_with_context api (foldl (router_step api) (router_new cfg) ops) host source mesh = Some (d, r') \<and>
     ((\<exists>rt. d = Forward rt) \<longleftrightarrow> (\<exists>res. admitted api (foldl (router_step api) (router_new cfg) ops) host source res))"
proof -
  let ?r = "foldl (router_step api) (router_new cfg) ops"
  have inv: "router_inv ?r" by (rule router_machine.run_inv [OF router_inv_new])
  show ?thesis
  proof (cases "\<exists>res. admitted api ?r host source res")
    case True
    then obtain res c where "admitted api ?r host source res" "hm_get (rr_counters ?r) (normalize_hostname host) = Some c"
      using admitted_counter [OF inv] by blast
    then show ?thesis using resolve_admitted True by fastforce
  next
    case False
    then show ?thesis using resolve_not_admitted [of api ?r host source mesh] by blast
  qed
qed

section \<open>Round robin\<close>

fun route_times :: "'net ipnet_api \<Rightarrow> string \<Rightarrow> string option \<Rightarrow> bool \<Rightarrow> nat \<Rightarrow> router \<Rightarrow> route_decision list" where
  "route_times api host source mesh 0 r = []"
| "route_times api host source mesh (Suc n) r =
     (case resolve_with_context api r host source mesh of
        None \<Rightarrow> []
      | Some (d, r') \<Rightarrow> d # route_times api host source mesh n r')"

text \<open>
  Successive requests for a resource take its healthy backends in turn, starting from the counter,
  until the 64-bit counter wraps: any window as long as the list of healthy backends uses each once.
\<close>

theorem round_robin:
  assumes "admitted api r host source res" and "hm_get (rr_counters r) (normalize_hostname host) = Some c"
    and "unat c + n < 2 ^ 64"
  shows "route_times api host source mesh n r =
    map (\<lambda>k. Forward (route_of res (healthy_backends res ! (k mod length (healthy_backends res))))) [unat c..<unat c + n]"
  using assms
proof (induction n arbitrary: r c)
  case (Suc n)
  let ?r = "r\<lparr>rr_counters := hm_insert (normalize_hostname host) (c + 1) (rr_counters r)\<rparr>"
  have c: "unat (c + 1) = Suc (unat c)"
    using Suc.prems(3) by (simp add: unat_word_ariths)
  have "admitted api ?r host source res" using Suc.prems(1) by (simp add: admitted_def)
  moreover have "hm_get (rr_counters ?r) (normalize_hostname host) = Some (c + 1)" by (simp add: hm.get_insert)
  ultimately have "route_times api host source mesh n ?r =
      map (\<lambda>k. Forward (route_of res (healthy_backends res ! (k mod length (healthy_backends res))))) [Suc (unat c)..<Suc (unat c) + n]"
    using Suc.IH [of ?r "c + 1"] Suc.prems(3) c by simp
  then show ?case
    using resolve_admitted [OF Suc.prems(1,2)] by (simp add: upt_rec [of "unat c"])
qed simp

definition ex_backend :: "string \<Rightarrow> bool \<Rightarrow> backend" where
  "ex_backend a h = \<lparr>address = a, port = 8080, tls_on = False, weight = 1, healthy = h\<rparr>"

definition ex_resource :: "auth_mode \<Rightarrow> backend list \<Rightarrow> resource" where
  "ex_resource m bs = \<lparr>res_id = ''r1'', tenant_id = ''t1'', hostname = ''app.io'', public_port = 443, res_protocol = Https,
     backends = bs, load_balance_of = RoundRobin,
     tls = \<lparr>acme = True, acme_challenge_of = Dns01, cert_pem = None, key_pem = None\<rparr>,
     access = \<lparr>network = \<lparr>allow_ips = [], deny_ips = [], allow_geo = [], deny_geo = [], rate_limit_rps = 0\<rparr>, time = None,
       identity = \<lparr>mode = m\<rparr>, authz = None\<rparr>, http = None, enabled = True\<rparr>"

definition ex_router :: router where
  "ex_router = router_new \<lparr>resources = [(''app.io'', ex_resource Public
     [ex_backend ''10.0.0.1'' True, ex_backend ''10.0.0.2'' False, ex_backend ''10.0.0.3'' True])]\<rparr>"

lemma ex_normalize: "normalize_hostname ''App.io:443'' = ''app.io''"
  by code_simp

theorem round_robin_witness:
  "map (\<lambda>d. case d of Forward rt \<Rightarrow> backend_addr rt | _ \<Rightarrow> []) (route_times ex_api ''App.io:443'' None False 3 ex_router) =
     [''10.0.0.1'', ''10.0.0.3'', ''10.0.0.1'']"
proof -
  let ?res = "ex_resource Public [ex_backend ''10.0.0.1'' True, ex_backend ''10.0.0.2'' False, ex_backend ''10.0.0.3'' True]"
  have "route_times ex_api ''App.io:443'' None False 3 ex_router =
    map (\<lambda>k. Forward (route_of ?res (healthy_backends ?res ! (k mod length (healthy_backends ?res))))) [unat (0 :: u64)..<unat (0 :: u64) + 3]"
    by (rule round_robin)
      (simp_all add: admitted_def ex_normalize ex_router_def router_new_def route_def ex_resource_def ex_backend_def
        hm_get_def hm_keys_def hm_insert_def)
  then show ?thesis
    by (simp add: ex_resource_def ex_backend_def healthy_backends_def route_of_def upt_rec)
qed

section \<open>Validated configurations\<close>

lemma map_err_Inr [simp]: "map_err f r = Inr a \<longleftrightarrow> r = Inr a"
  by (simp add: map_err_def split: sum.splits)

definition safe_header :: "string \<times> string \<Rightarrow> bool" where
  "safe_header nv = (fst nv \<noteq> [] \<and> list_all is_token_char (fst nv) \<and>
     to_ascii_lowercase (fst nv) \<notin> set BLOCKED_HEADER_NAMES \<and> CHR 0x00 \<notin> set (snd nv) \<and> CHR 0x0D \<notin> set (snd nv) \<and> CHR 0x0A \<notin> set (snd nv))"

lemma blocked_lower: "map to_ascii_lowercase BLOCKED_HEADER_NAMES = BLOCKED_HEADER_NAMES"
  by code_simp

lemma validate_header_iff: "validate_header name val = Inr () \<longleftrightarrow> safe_header (name, val)"
proof -
  have "list_ex (\<lambda>blocked. eq_ignore_ascii_case name blocked) BLOCKED_HEADER_NAMES \<longleftrightarrow>
      to_ascii_lowercase name \<in> set (map to_ascii_lowercase BLOCKED_HEADER_NAMES)"
    by (auto simp: list_ex_iff eq_ignore_ascii_case_def)
  then show ?thesis
    by (auto simp: validate_header_def safe_header_def blocked_lower list_ex_iff)
qed

lemma validate_config_iff:
  "validate_config api dbg cfg v = Inr () \<longleftrightarrow>
     (\<forall>r \<in> set (hm_values (resources cfg)).
        (\<forall>b \<in> set (backends r). validate_backend_address api (address b) v = Inr ()) \<and>
        (\<forall>h. http r = Some h \<longrightarrow> (\<forall>nv \<in> set (request_headers h @ response_headers h). safe_header nv)))"
  unfolding validate_config_def try_each_eq_Inr validate_resource_def rbind_eq_Inr
  by (intro ball_cong refl) (simp add: try_each_eq_Inr validate_header_iff case_prod_unfold split: option.split)

lemma validate_backend_address_ok:
  assumes "validate_backend_address api addr v = Inr ()" "allowed_backend_hosts v = None"
  shows "\<not> is_ssrf_sensitive api (host_of (snd (scheme_of addr)))"
  using assms by (auto simp: validate_backend_address_def allowlist_permits_def Let_def split: if_splits prod.splits option.splits)

text \<open>An IPv4 literal consists of digits and dots.\<close>

definition v4_char :: "char \<Rightarrow> bool" where
  "v4_char c = (is_ascii_digit c \<or> c = CHR ''.'')"

lemma to_digit_10: "to_digit 10 c = Some d \<Longrightarrow> is_ascii_digit c"
  by (auto simp: to_digit_def is_ascii_digit_def Let_def split: if_splits)

lemma read_digits_chars:
  "read_digits 10 m l cnt v s = Some (cnt', v', rest) \<Longrightarrow> \<exists>p. s = p @ rest \<and> list_all is_ascii_digit p"
proof (induction "10 :: nat" m l cnt v s rule: read_digits.induct)
  case (2 m l cnt v c cs)
  show ?case
  proof (cases "to_digit 10 c")
    case (Some d)
    then obtain p where "cs = p @ rest" "list_all is_ascii_digit p" using 2 by (auto split: if_splits)
    then have "c # cs = (c # p) @ rest" "list_all is_ascii_digit (c # p)" using to_digit_10 [OF Some] by auto
    then show ?thesis by blast
  qed (use 2 in simp)
qed simp

lemma read_octets_chars: "read_octets k i acc s = Some (a, rest) \<Longrightarrow> \<exists>p. s = p @ rest \<and> list_all v4_char p"
proof (induction k i acc s rule: read_octets.induct)
  case (2 k i acc s)
  then obtain v r where o: "read_separator (CHR ''.'') i (read_number 10 3 False 255) s = Some (v, r)"
    and "read_octets k (Suc i) (acc * 256 + of_nat v) r = Some (a, rest)" by (auto split: option.splits)
  with 2(1) obtain q where q: "r = q @ rest" "list_all v4_char q" by blast
  from o obtain t where "s = t \<or> s = CHR ''.'' # t" "read_number 10 3 False 255 t = Some (v, r)"
    by (auto simp: read_separator_def split: if_splits list.splits)
  moreover from this(2) obtain p where "t = p @ r" "list_all v4_char p"
    by (auto simp: read_number_def v4_char_def list_all_iff split: option.splits if_splits dest!: read_digits_chars)
  ultimately have "s = (p @ q) @ rest \<and> list_all v4_char (p @ q) \<or> s = (CHR ''.'' # p @ q) @ rest \<and> list_all v4_char (CHR ''.'' # p @ q)"
    using q by (auto simp: v4_char_def)
  then show ?case by blast
qed simp

lemma v4_literal_chars: "parse_ip_addr s = Some (V4 a) \<Longrightarrow> list_all v4_char s \<and> s \<noteq> []"
proof -
  assume "parse_ip_addr s = Some (V4 a)"
  then have r: "read_octets 4 0 0 s = Some (a, [])"
    by (auto simp: parse_ip_addr_def read_ipv4_addr_def split: option.splits if_splits)
  then have "s \<noteq> []" by (auto simp: numeral_eq_Suc read_separator_def read_number_def)
  with read_octets_chars [OF r] show ?thesis by auto
qed

text \<open>The addresses that carry a literal: alone, with a port, or in a URL.\<close>

definition port_part :: "string \<Rightarrow> bool" where
  "port_part p = (case p of [] \<Rightarrow> True | c # ds \<Rightarrow> c = CHR '':'' \<and> list_all is_ascii_digit ds)"

definition path_part :: "string \<Rightarrow> bool" where
  "path_part p = (case p of [] \<Rightarrow> True | c # _ \<Rightarrow> c = CHR ''/'')"

lemma split_once_str_hit:
  "hd p \<notin> set xs \<Longrightarrow> p \<noteq> [] \<Longrightarrow> split_once_str p (xs @ p @ ys) = Some (xs, ys)"
proof (induction xs)
  case Nil
  then show ?case by (cases p) auto
next
  case (Cons x xs)
  then have "\<not> prefix p (x # xs @ p @ ys)" by (cases p) auto
  with Cons show ?case by simp
qed

lemma split_once_str_miss: "c \<in> set p \<Longrightarrow> c \<notin> set xs \<Longrightarrow> split_once_str p xs = None"
proof (induction xs)
  case (Cons x xs)
  then have "\<not> prefix p (x # xs)" using set_mono_prefix by fastforce
  with Cons show ?case by simp
qed auto

lemma hd_split_on: "c \<notin> set x \<Longrightarrow> path = [] \<or> hd path = c \<Longrightarrow> hd (split_on c (x @ path)) = x"
proof -
  assume "c \<notin> set x" "path = [] \<or> hd path = c"
  then show ?thesis
    by (cases path) (simp_all add: split_on_none split_on_append)
qed

lemma trim_matches_none:
  "\<forall>c \<in> set s. \<not> p c \<Longrightarrow> trim_start_matches p s = s"
  "\<forall>c \<in> set s. \<not> p c \<Longrightarrow> trim_end_matches p s = s"
  by (auto simp: trim_start_matches_def trim_end_matches_def dropWhile_eq_self_iff hd_rev rev_swap)

lemma host_of_literal:
  assumes "list_all v4_char ip" "ip \<noteq> []" "port_part prt" "path_part path"
  shows "host_of (ip @ prt @ path) = ip"
proof -
  have n: "c \<notin> set ip" if "c \<in> {CHR ''/'', CHR ''@'', CHR '':'', CHR ''['', CHR '']''}" for c
    using assms(1) that by (auto simp: list_all_iff v4_char_def is_ascii_digit_def)
  have m: "CHR ''/'' \<notin> set prt" "CHR ''@'' \<notin> set prt"
    using assms(3) by (auto simp: port_part_def list_all_iff is_ascii_digit_def split: list.splits)
  have h: "hd (split_on (CHR ''/'') ((ip @ prt) @ path)) = ip @ prt"
    using n m assms(4) by (intro hd_split_on) (auto simp: path_part_def split: list.splits)
  have a: "rsplit_once (CHR ''@'') (ip @ prt) = None" using n m by (simp add: rsplit_once_None)
  show ?thesis
  proof (cases prt)
    case Nil
    have "trim_start_matches (\<lambda>c. c = CHR ''['') ip = ip" "trim_end_matches (\<lambda>c. c = CHR '']'') ip = ip"
      using n by (intro trim_matches_none; auto)+
    moreover have "rsplit_once (CHR '':'') ip = None" using n by (simp add: rsplit_once_None)
    ultimately show ?thesis using h a Nil by (simp add: host_of_def Let_def)
  next
    case (Cons c ds)
    then have "c = CHR '':''" "CHR '':'' \<notin> set ds"
      using assms(3) by (auto simp: port_part_def list_all_iff is_ascii_digit_def)
    then have "rsplit_once (CHR '':'') (ip @ prt) = Some (ip, ds)" using Cons by (simp add: rsplit_once_append)
    then show ?thesis using h a assms(2) n by (simp add: host_of_def Let_def)
  qed
qed

definition carries_literal :: "string \<Rightarrow> string \<Rightarrow> bool" where
  "carries_literal ip addr =
     (\<exists>sch prt path. port_part prt \<and> path_part path \<and> CHR '':'' \<notin> set sch \<and>
        (addr = ip @ prt \<or> addr = sch @ ''://'' @ ip @ prt @ path))"

lemma host_of_carried:
  assumes "carries_literal ip addr" "parse_ip_addr ip = Some (V4 a)"
  shows "host_of (snd (scheme_of addr)) = ip"
proof -
  from assms obtain sch prt path where p: "port_part prt" "path_part path" "CHR '':'' \<notin> set sch"
    and addr: "addr = ip @ prt \<or> addr = sch @ ''://'' @ ip @ prt @ path" by (auto simp: carries_literal_def)
  note ip = v4_literal_chars [OF assms(2)]
  from addr show ?thesis
  proof
    assume a: "addr = ip @ prt"
    have "CHR ''/'' \<notin> set addr"
      using ip p(1) a by (auto simp: port_part_def v4_char_def list_all_iff is_ascii_digit_def split: list.splits)
    then have "scheme_of addr = (None, addr)"
      using split_once_str_miss [of "CHR ''/''" "''://''"] by (simp add: scheme_of_def)
    then show ?thesis using host_of_literal [of ip prt "[]"] ip p a by (simp add: path_part_def)
  next
    assume "addr = sch @ ''://'' @ ip @ prt @ path"
    then have "snd (scheme_of addr) = ip @ prt @ path"
      using split_once_str_hit [of "''://''" sch "ip @ prt @ path"] p(3) by (simp add: scheme_of_def)
    then show ?thesis using host_of_literal ip p by simp
  qed
qed

text \<open>
  A configuration that passes validation without a host allowlist has no backend whose address
  carries an IPv4 literal (alone, with a port, or inside a URL) of a loopback or link-local block, and
  none of its injected headers is blocked or can split a message.
\<close>

theorem validated_config_safe:
  assumes "validate_config api debug_str cfg v = Inr ()" and "r \<in> set (hm_values (resources cfg))"
  shows "(allowed_backend_hosts v = None \<longrightarrow> b \<in> set (backends r) \<longrightarrow> carries_literal ip (address b) \<longrightarrow>
      parse_ip_addr ip = Some (V4 a) \<longrightarrow> cidr \<in> set SSRF_DENY_CIDRS \<longrightarrow> net_from_str api cidr = Some net \<longrightarrow>
      \<not> net_contains api net (V4 a)) \<and>
    (http r = Some h \<longrightarrow> nv \<in> set (request_headers h @ response_headers h) \<longrightarrow> safe_header nv)"
proof (intro conjI impI)
  assume *: "allowed_backend_hosts v = None" "b \<in> set (backends r)" "carries_literal ip (address b)"
    "parse_ip_addr ip = Some (V4 a)" "cidr \<in> set SSRF_DENY_CIDRS" "net_from_str api cidr = Some net"
  have "validate_backend_address api (address b) v = Inr ()"
    using assms *(2) by (simp add: validate_config_iff)
  then have "\<not> is_ssrf_sensitive api ip"
    using validate_backend_address_ok *(1) host_of_carried [OF *(3,4)] by fastforce
  then show "\<not> net_contains api net (V4 a)"
    using *(4-6) by (auto simp: is_ssrf_sensitive_def list_ex_iff split: if_splits)
next
  assume "http r = Some h" "nv \<in> set (request_headers h @ response_headers h)"
  then show "safe_header nv" using assms by (simp add: validate_config_iff)
qed

definition ex_safe :: proxy_config where
  "ex_safe = \<lparr>resources = [(''app.io'', ex_resource Public [ex_backend ''http://10.0.0.1:80/x'' True])
     , (''b.io'', (ex_resource Public [])\<lparr>http := Some \<lparr>path_rewrites = [], request_headers = [(''X-App'', ''1'')],
          response_headers = [], hsts = True, force_https = True\<rparr>\<rparr>)]\<rparr>"

theorem validated_config_safe_witness:
  "\<not> net_contains ex_api (0x7F000000, 8) (V4 0x0A000001) \<and> safe_header (''X-App'', ''1'')"
proof -
  have v: "validate_config ex_api (\<lambda>s. s) ex_safe default_validation = Inr ()" by code_simp
  have "carries_literal ''10.0.0.1'' ''http://10.0.0.1:80/x''"
    unfolding carries_literal_def port_part_def path_part_def
    by (rule exI [of _ "''http''"], rule exI [of _ "'':80''"], rule exI [of _ "''/x''"]) (simp add: is_ascii_digit_def)
  moreover have "parse_ip_addr ''10.0.0.1'' = Some (V4 0x0A000001)" "net_from_str ex_api ''127.0.0.0/8'' = Some (0x7F000000, 8)"
    by code_simp+
  ultimately show ?thesis
    using validated_config_safe [OF v, of "ex_resource Public [ex_backend ''http://10.0.0.1:80/x'' True]"
        "ex_backend ''http://10.0.0.1:80/x'' True" "''10.0.0.1''" "0x0A000001" "''127.0.0.0/8''" "(0x7F000000, 8)"]
      validated_config_safe [OF v, of "(ex_resource Public [])\<lparr>http := Some \<lparr>path_rewrites = [],
          request_headers = [(''X-App'', ''1'')], response_headers = [], hsts = True, force_https = True\<rparr>\<rparr>" _ _ _ _ _
        "\<lparr>path_rewrites = [], request_headers = [(''X-App'', ''1'')], response_headers = [], hsts = True, force_https = True\<rparr>" "(''X-App'', ''1'')"]
    by (simp add: ex_safe_def hm_values_def default_validation_def ex_resource_def ex_backend_def SSRF_DENY_CIDRS_def)
qed

lemma nat_4: "(4 :: nat) = Suc (Suc (Suc (Suc 0)))"
  by simp

lemma nat_8: "(8 :: nat) = Suc (Suc (Suc (Suc 4)))"
  by simp

text \<open>
  An IPv6 literal with a port escapes the validation: the brackets are stripped only when no port
  follows, so the host of \<open>[::1]:8080\<close> does not parse as an address and the loopback check is skipped,
  while the same literal without a port is refused.
\<close>

theorem bracketed_loopback_accepted:
  "validate_backend_address api ''[::1]:8080'' default_validation = Inr ()"
proof -
  have "scheme_of ''[::1]:8080'' = (None, ''[::1]:8080'')" by code_simp
  moreover have "host_of ''[::1]:8080'' = ''::1]:8080''" by code_simp
  moreover have "parse_ip_addr ''::1]:8080'' = None"
    by (simp add: parse_ip_addr_def read_ipv4_addr_def read_ipv6_addr_def read_separator_def read_number_def to_digit_def
        strip_prefix_def nat_4 nat_8)
  ultimately show ?thesis
    by (simp add: validate_backend_address_def default_validation_def is_ssrf_sensitive_def eq_ignore_ascii_case_def
        to_ascii_lowercase_def ascii_lower_def Let_def)
qed

definition is_upper :: "char \<Rightarrow> bool" where
  "is_upper c = (ascii_lower c \<noteq> c)"

lemma lower_no_upper: "c \<in> set (to_ascii_lowercase s) \<Longrightarrow> \<not> is_upper c"
  by (auto simp: to_ascii_lowercase_def is_upper_def ascii_lower_def Let_def)

lemma rsplit_once_chars: "rsplit_once c s = Some (a, b) \<Longrightarrow> set a \<subseteq> set s"
  by (auto simp: rsplit_once_def dest: in_set_takeD)

lemma normalize_no_upper: "c \<in> set (normalize_hostname h) \<Longrightarrow> \<not> is_upper c"
  by (auto simp: normalize_hostname_def Let_def dest!: rsplit_once_chars in_set_takeD lower_no_upper
      split: option.splits prod.splits if_splits)

lemma counters_new_get:
  "hm_get (foldl (\<lambda>m h. hm_insert h 0 m) m0 hs) h = (if h \<in> set hs then Some 0 else hm_get m0 h)"
  by (induction hs arbitrary: m0) (auto simp: hm.get_insert)

text \<open>
  Host names are looked up in normalised form, while resources are stored under the name as
  configured: a resource whose configured name is not in normalised form is never reached.
\<close>

theorem unnormalized_resource_unreachable:
  assumes "list_ex is_upper (hostname res)"
  shows "map_option fst (resolve_with_context api (router_new (upsert_resource cfg res)) h source mesh) =
    map_option fst (resolve_with_context api (router_new cfg) h source mesh)"
proof -
  have n: "normalize_hostname h \<noteq> hostname res"
    using assms normalize_no_upper [of _ h] by (auto simp: list_ex_iff)
  have c: "hm_get (rr_counters (router_new x)) k = (if hm_contains (resources x) k then Some 0 else None)" for x k
    by (simp add: router_new_def counters_new_get flip: hm_contains_keys)
  have g: "hm_get (resources (upsert_resource cfg res)) (normalize_hostname h) = hm_get (resources cfg) (normalize_hostname h)"
    using n by (simp add: upsert_resource_def hm.get_insert)
  have conf: "config (router_new x) = x" for x by (simp add: router_new_def)
  show ?thesis
    by (simp add: resolve_with_context_def pick_backend_def route_def conf g c hm_contains_def Let_def split: option.split load_balance.split)
qed

theorem unnormalized_resource_unreachable_witness:
  "map_option fst (resolve_with_context ex_api
     (router_new (upsert_resource \<lparr>resources = []\<rparr> ((ex_resource Public [ex_backend ''10.0.0.1'' True])\<lparr>hostname := ''App.io''\<rparr>)))
     ''App.io'' None False) =
   map_option fst (resolve_with_context ex_api (router_new \<lparr>resources = []\<rparr>) ''App.io'' None False)"
  by (rule unnormalized_resource_unreachable) code_simp

end
