(* ===== verification/Monitor.thy ===== *)
theory Monitor
  imports Rust_Std
begin

text \<open>
  The monitor (\<open>crates/runesh-monitor/src/alert.rs\<close>, \<open>scheduler.rs\<close> and the data of \<open>check.rs\<close>): the
  alert state machine with its thresholds, the alert table and the scheduler that feeds it.

  Executing a check (HTTP, TCP, ping, disk, process, command) is I/O: a run of the scheduler takes the
  results in the order in which the checks complete. Time stamps are values of an arbitrary type; \<open>now\<close>
  is what \<open>Utc::now()\<close> returns. The counters are 32-bit and wrap. The alert store keeps a snapshot, as
  \<open>InMemoryAlertStore\<close> does; \<open>None\<close> stands for a load that fails.
\<close>

section \<open>Checks\<close>

datatype check_status = Ok | Warning | Critical | Unknown

datatype check_type =
    HttpCheck string u16 "string option"
  | TcpCheck string u16
  | Ping string
  | Disk string rat
  | Process string
  | Command string "string list"

record check =
  chk_id :: string
  chk_name :: string
  chk_type :: check_type
  interval_secs :: u64
  timeout_secs :: u64
  chk_failure_threshold :: u32
  chk_recovery_threshold :: u32

record 'time check_result =
  res_check_id :: string
  status :: check_status
  res_message :: string
  duration_ms :: u64
  timestamp :: 'time

section \<open>Alerts\<close>

datatype alert_state = AlertOk | Pending | Firing | Resolved

record 'time alert =
  check_id :: string
  check_name :: string
  state :: alert_state
  message :: string
  consecutive_failures :: u32
  consecutive_successes :: u32
  failure_threshold :: u32
  recovery_threshold :: u32
  last_check :: "'time option"
  fired_at :: "'time option"
  resolved_at :: "'time option"

record 'time alert_event =
  ev_check_id :: string
  ev_check_name :: string
  from_state :: alert_state
  to_state :: alert_state
  ev_message :: string
  ev_timestamp :: 'time

definition alert_new :: "string \<Rightarrow> string \<Rightarrow> u32 \<Rightarrow> u32 \<Rightarrow> 'time alert" where
  "alert_new cid cname ft rt = \<lparr>check_id = cid, check_name = cname, state = AlertOk, message = [],
     consecutive_failures = 0, consecutive_successes = 0, failure_threshold = ft, recovery_threshold = rt,
     last_check = None, fired_at = None, resolved_at = None\<rparr>"

definition on_success :: "'time \<Rightarrow> 'time alert \<Rightarrow> 'time alert" where
  "on_success now self =
     (let self = self\<lparr>consecutive_failures := 0, consecutive_successes := consecutive_successes self + 1\<rparr> in
      case state self of
        Pending \<Rightarrow> self\<lparr>state := AlertOk, message := []\<rparr>
      | Firing \<Rightarrow>
          if consecutive_successes self \<ge> recovery_threshold self
          then self\<lparr>state := Resolved, resolved_at := Some now\<rparr> else self
      | Resolved \<Rightarrow> self\<lparr>state := AlertOk\<rparr>
      | AlertOk \<Rightarrow> self)"

definition on_failure :: "'time \<Rightarrow> string \<Rightarrow> 'time alert \<Rightarrow> 'time alert" where
  "on_failure now msg self =
     (let self = self\<lparr>consecutive_successes := 0, consecutive_failures := consecutive_failures self + 1, message := msg\<rparr> in
      case state self of
        AlertOk \<Rightarrow> self\<lparr>state := Pending\<rparr>
      | Pending \<Rightarrow>
          if consecutive_failures self \<ge> failure_threshold self
          then self\<lparr>state := Firing, fired_at := Some now\<rparr> else self
      | Firing \<Rightarrow> self
      | Resolved \<Rightarrow> self)"

definition process :: "'time \<Rightarrow> 'time check_result \<Rightarrow> 'time alert \<Rightarrow> 'time alert_event option \<times> 'time alert" where
  "process now result self =
     (let self0 = self\<lparr>last_check := Some (timestamp result)\<rparr>;
          prev_state = state self0;
          self1 = (case status result of
              Ok \<Rightarrow> on_success now self0
            | Critical \<Rightarrow> on_failure now (res_message result) self0
            | Warning \<Rightarrow> on_failure now (res_message result) self0
            | Unknown \<Rightarrow> self0)
      in (if state self1 \<noteq> prev_state
          then Some \<lparr>ev_check_id = check_id self1, ev_check_name = check_name self1, from_state = prev_state,
                 to_state = state self1, ev_message = message self1, ev_timestamp = now\<rparr>
          else None, self1))"

section \<open>The alert table and the scheduler\<close>

type_synonym 'time alert_manager = "(string, 'time alert) hash_map"

definition register :: "string \<Rightarrow> string \<Rightarrow> u32 \<Rightarrow> u32 \<Rightarrow> 'time alert_manager \<Rightarrow> 'time alert_manager" where
  "register cid cname ft rt mgr =
     (case hm_get mgr cid of
        Some existing \<Rightarrow>
          hm_insert cid (existing\<lparr>check_name := cname, failure_threshold := ft, recovery_threshold := rt\<rparr>) mgr
      | None \<Rightarrow> hm_insert cid (alert_new cid cname ft rt) mgr)"

definition mgr_process ::
    "'time \<Rightarrow> 'time check_result \<Rightarrow> 'time alert_manager \<Rightarrow> 'time alert_event option \<times> 'time alert_manager" where
  "mgr_process now result mgr =
     (case hm_get mgr (res_check_id result) of
        Some alert \<Rightarrow> (case process now result alert of (ev, alert') \<Rightarrow> (ev, hm_insert (res_check_id result) alert' mgr))
      | None \<Rightarrow> (None, mgr))"

definition firing :: "'time alert_manager \<Rightarrow> 'time alert list" where
  "firing mgr = filter (\<lambda>a. state a = Firing) (hm_values mgr)"

definition all_alerts :: "'time alert_manager \<Rightarrow> 'time alert list" where
  "all_alerts mgr = hm_values mgr"

definition get_alert :: "'time alert_manager \<Rightarrow> string \<Rightarrow> 'time alert option" where
  "get_alert mgr cid = hm_get mgr cid"

record 'time scheduler =
  checks :: "check list"
  manager :: "'time alert_manager"
  last_results :: "(string, 'time check_result) hash_map"
  store :: "'time alert_manager option"

definition scheduler_new :: "'time scheduler" where
  "scheduler_new = \<lparr>checks = [], manager = [], last_results = [], store = None\<rparr>"

text \<open>\<open>loaded\<close> is what the store returns, \<open>None\<close> when loading fails; \<open>kept\<close> is what it holds.\<close>

definition with_store :: "'time scheduler \<Rightarrow> 'time alert_manager option \<Rightarrow> 'time alert_manager \<Rightarrow> 'time scheduler" where
  "with_store self loaded kept =
     (case loaded of Some snap \<Rightarrow> self\<lparr>manager := snap\<rparr> | None \<Rightarrow> self)\<lparr>store := Some kept\<rparr>"

definition add_check :: "'time scheduler \<Rightarrow> check \<Rightarrow> 'time scheduler" where
  "add_check self c =
     self\<lparr>manager := register (chk_id c) (chk_name c) (chk_failure_threshold c) (chk_recovery_threshold c) (manager self),
          checks := checks self @ [c]\<rparr>"

definition remove_check :: "'time scheduler \<Rightarrow> string \<Rightarrow> 'time scheduler" where
  "remove_check self cid = self\<lparr>checks := filter (\<lambda>c. chk_id c \<noteq> cid) (checks self)\<rparr>"

text \<open>One result of a cycle, with the time at which it is processed.\<close>

definition take_result ::
    "'time scheduler \<times> 'time alert_event list \<Rightarrow> 'time \<times> 'time check_result \<Rightarrow> 'time scheduler \<times> 'time alert_event list" where
  "take_result st nr =
     (case (st, nr) of ((self, events), (now, result)) \<Rightarrow>
        (case mgr_process now result (manager self) of (ev, mgr) \<Rightarrow>
           (self\<lparr>last_results := hm_insert (res_check_id result) result (last_results self), manager := mgr\<rparr>,
            events @ (case ev of Some e \<Rightarrow> [e] | None \<Rightarrow> []))))"

definition run_all :: "'time scheduler \<Rightarrow> ('time \<times> 'time check_result) list \<Rightarrow> 'time alert_event list \<times> 'time scheduler" where
  "run_all self completed =
     (case foldl take_result (self, []) completed of (self1, events) \<Rightarrow>
        (events, case store self1 of Some _ \<Rightarrow> self1\<lparr>store := Some (manager self1)\<rparr> | None \<Rightarrow> self1))"

definition last_result :: "'time scheduler \<Rightarrow> string \<Rightarrow> 'time check_result option" where
  "last_result self cid = hm_get (last_results self) cid"

definition firing_alerts :: "'time scheduler \<Rightarrow> 'time alert list" where
  "firing_alerts self = firing (manager self)"

definition check_count :: "'time scheduler \<Rightarrow> nat" where
  "check_count self = length (checks self)"

section \<open>An alert fires only on a sustained failure\<close>

definition run_alert :: "'time alert \<Rightarrow> ('time \<times> 'time check_result) list \<Rightarrow> 'time alert" where
  "run_alert a rs = foldl (\<lambda>a (now, r). snd (process now r a)) a rs"

definition is_failure :: "'time \<times> 'time check_result \<Rightarrow> bool" where
  "is_failure r = (status (snd r) = Critical \<or> status (snd r) = Warning)"

definition failures :: "('time \<times> 'time check_result) list \<Rightarrow> nat" where
  "failures rs = length (filter is_failure rs)"

text \<open>The results after the last success.\<close>

definition since_ok :: "('time \<times> 'time check_result) list \<Rightarrow> ('time \<times> 'time check_result) list" where
  "since_ok rs = rev (takeWhile (\<lambda>r. status (snd r) \<noteq> Ok) (rev rs))"

lemma run_alert_simps [simp]:
  "run_alert a [] = a"
  "run_alert a (rs @ [r]) = snd (process (fst r) (snd r) (run_alert a rs))"
  by (simp_all add: run_alert_def case_prod_unfold)

lemma since_ok_simps [simp]:
  "since_ok [] = []"
  "since_ok (rs @ [r]) = (if status (snd r) = Ok then [] else since_ok rs @ [r])"
  by (simp_all add: since_ok_def)

lemma failures_simps [simp]:
  "failures [] = 0" "failures (rs @ [r]) = failures rs + (if is_failure r then 1 else 0)"
  by (simp_all add: failures_def)

lemma process_thresholds [simp]:
  "failure_threshold (snd (process now r a)) = failure_threshold a"
  "recovery_threshold (snd (process now r a)) = recovery_threshold a"
  by (auto simp: process_def on_success_def on_failure_def Let_def split: check_status.splits alert_state.splits)

lemma run_thresholds [simp]:
  "failure_threshold (run_alert a rs) = failure_threshold a"
  "recovery_threshold (run_alert a rs) = recovery_threshold a"
  by (induction rs rule: rev_induct) simp_all

text \<open>The failures counted never exceed those since the last success, and a pending alert has seen one.\<close>

definition sustained :: "nat \<Rightarrow> ('time \<times> 'time check_result) list \<Rightarrow> bool" where
  "sustained n rs = (\<exists>pre outage post. rs = pre @ outage @ post \<and> n \<le> failures outage \<and>
     list_all (\<lambda>r. status (snd r) \<noteq> Ok) outage)"

lemma sustained_snoc: "sustained n rs \<Longrightarrow> sustained n (rs @ [r])"
  unfolding sustained_def by (metis append.assoc)

lemma since_ok_suffix: "\<exists>pre. rs = pre @ since_ok rs"
  unfolding since_ok_def by (metis rev_append rev_rev_ident takeWhile_dropWhile_id)

lemma since_ok_no_ok: "list_all (\<lambda>r. status (snd r) \<noteq> Ok) (since_ok rs)"
  by (auto simp: since_ok_def list_all_iff dest: set_takeWhileD)

lemma sustained_since_ok: "n \<le> failures (since_ok rs) \<Longrightarrow> sustained n rs"
  unfolding sustained_def using since_ok_suffix [of rs] since_ok_no_ok [of rs] by (metis append_Nil2)

definition alert_inv :: "'time alert \<Rightarrow> ('time \<times> 'time check_result) list \<Rightarrow> bool" where
  "alert_inv a rs = (unat (consecutive_failures a) \<le> failures (since_ok rs) \<and>
     (state a = Pending \<longrightarrow> 1 \<le> failures (since_ok rs)) \<and>
     (state a = Firing \<longrightarrow> sustained (max 2 (unat (failure_threshold a))) rs))"

lemma unat_inc_le: "unat (w + 1) \<le> Suc (unat w)" for w :: "'a::len word"
  by (simp add: unat_word_ariths)

lemma alert_inv_step:
  assumes "alert_inv a rs"
  shows "alert_inv (snd (process (fst r) (snd r) a)) (rs @ [r])"
proof (cases "is_failure r")
  case True
  have c: "unat (consecutive_failures a + 1) \<le> Suc (failures (since_ok rs))"
    using unat_inc_le [of "consecutive_failures a"] assms by (simp add: alert_inv_def)
  have f: "failures (since_ok (rs @ [r])) = Suc (failures (since_ok rs))"
    using True by (auto simp: is_failure_def)
  have "sustained n (rs @ [r])" if "n \<le> Suc (failures (since_ok rs))" for n
    using sustained_since_ok [of n "rs @ [r]"] f that by simp
  then show ?thesis
    using assms c f True sustained_snoc [of _ rs r]
    by (auto simp: alert_inv_def process_def on_failure_def is_failure_def Let_def word_le_nat_alt
        split: check_status.splits alert_state.splits)
next
  case False
  then show ?thesis
    using assms sustained_snoc [of _ rs r]
    by (cases "status (snd r)"; cases "state a")
      (auto simp: alert_inv_def process_def on_success_def is_failure_def Let_def)
qed

lemma alert_inv_run: "alert_inv (run_alert (alert_new cid cname ft rt) rs) rs"
  by (induction rs rule: rev_induct) (simp add: alert_inv_def alert_new_def, simp add: alert_inv_step)

text \<open>
  C34. No flapping: whatever sequence of results arrives, an alert is firing only if some stretch of
  results without a success holds at least two failures and at least as many as the failure threshold.
\<close>

theorem firing_needs_sustained_failure:
  assumes "state (run_alert (alert_new cid cname ft rt) rs) = Firing"
  shows "\<exists>pre outage post. rs = pre @ outage @ post \<and> max 2 (unat ft) \<le> failures outage \<and>
    list_all (\<lambda>r. status (snd r) \<noteq> Ok) outage"
  using alert_inv_run [of cid cname ft rt rs] assms by (simp add: alert_inv_def sustained_def alert_new_def)

definition ex_result :: "check_status \<Rightarrow> unit check_result" where
  "ex_result st = \<lparr>res_check_id = ''c'', status = st, res_message = ''m'', duration_ms = 5, timestamp = ()\<rparr>"

lemmas ex_simps = ex_result_def process_def on_success_def on_failure_def alert_new_def run_alert_def Let_def

theorem firing_needs_sustained_failure_witness:
  "\<exists>pre outage post. [((), ex_result Ok), ((), ex_result Critical), ((), ex_result Warning)] = pre @ outage @ post \<and>
     max 2 (unat (2 :: u32)) \<le> failures outage \<and> list_all (\<lambda>r. status (snd r) \<noteq> Ok) outage"
  by (rule firing_needs_sustained_failure [where cid = "''c''" and cname = "''n''" and rt = 1]) (simp add: ex_simps)

section \<open>A sustained failure fires\<close>

text \<open>
  From a fresh alert, results without a success bring the alert to pending at the first failure and
  to firing at failure number \<open>max 2 threshold\<close>, not before and not after: with a threshold of 0 or 1 it
  still takes two failures.
\<close>

theorem fires_at_threshold:
  assumes "list_all (\<lambda>r. status (snd r) \<noteq> Ok) rs" and "failures rs < 2 ^ 32"
  shows "state (run_alert (alert_new cid cname ft rt) rs) =
    (if failures rs = 0 then AlertOk else if failures rs < max 2 (unat ft) then Pending else Firing)"
proof -
  let ?a = "alert_new cid cname ft rt"
  have "unat (consecutive_failures (run_alert ?a rs)) = failures rs \<and> state (run_alert ?a rs) =
      (if failures rs = 0 then AlertOk else if failures rs < max 2 (unat ft) then Pending else Firing)"
    using assms
  proof (induction rs rule: rev_induct)
    case Nil
    then show ?case by (simp add: alert_new_def)
  next
    case (snoc r rs)
    have "failures rs < 2 ^ 32" using snoc.prems(2) by simp
    with snoc have IH: "unat (consecutive_failures (run_alert ?a rs)) = failures rs" "state (run_alert ?a rs) =
      (if failures rs = 0 then AlertOk else if failures rs < max 2 (unat ft) then Pending else Firing)" by auto
    have ft: "failure_threshold (run_alert ?a rs) = ft" by (simp add: alert_new_def)
    show ?case
    proof (cases "is_failure r")
      case True
      have c: "unat (consecutive_failures (run_alert ?a rs) + 1) = Suc (failures rs)"
        using IH(1) snoc.prems(2) True by (simp add: unat_word_ariths)
      show ?thesis
        using True IH ft c
        by (auto simp: process_def on_failure_def is_failure_def Let_def word_le_nat_alt
            split: check_status.splits if_splits)
    next
      case False
      then show ?thesis
        using IH snoc.prems(1) by (cases "status (snd r)") (auto simp: process_def is_failure_def Let_def)
    qed
  qed
  then show ?thesis by simp
qed

theorem fires_at_threshold_witness:
  "state (run_alert (alert_new ''c'' ''n'' 1 1) [((), ex_result Critical)]) = Pending \<and>
   state (run_alert (alert_new ''c'' ''n'' 1 1) [((), ex_result Critical), ((), ex_result Unknown), ((), ex_result Warning)]) = Firing"
  using fires_at_threshold [of "[((), ex_result Critical)]" "''c''" "''n''" 1 1]
    fires_at_threshold [of "[((), ex_result Critical), ((), ex_result Unknown), ((), ex_result Warning)]" "''c''" "''n''" 1 1]
  by (simp add: ex_result_def failures_def is_failure_def)

text \<open>
  A resolved alert ignores failures: until the next success arrives, an outage of any length changes
  no state and raises no event, although the thresholds are long exceeded.
\<close>

theorem resolved_ignores_failures:
  assumes "state a = Resolved" and "list_all (\<lambda>r. status (snd r) \<noteq> Ok) rs"
  shows "state (run_alert a rs) = Resolved \<and>
    (\<forall>now r. status r \<noteq> Ok \<longrightarrow> fst (process now r (run_alert a rs)) = None)"
proof -
  have "state (run_alert a rs) = Resolved"
    using assms
  proof (induction rs rule: rev_induct)
    case (snoc r rs)
    then show ?case
      by (cases "status (snd r)") (auto simp: process_def on_failure_def Let_def)
  qed simp
  then show ?thesis by (auto simp: process_def on_failure_def Let_def split: check_status.splits)
qed

theorem resolved_ignores_failures_witness:
  "state (run_alert ((alert_new ''c'' ''n'' 1 1)\<lparr>state := Resolved\<rparr>) [((), ex_result Critical), ((), ex_result Warning), ((), ex_result Critical)]) = Resolved"
  using resolved_ignores_failures [of "(alert_new ''c'' ''n'' 1 1)\<lparr>state := Resolved\<rparr>" "[((), ex_result Critical), ((), ex_result Warning), ((), ex_result Critical)]"]
  by (simp add: ex_result_def)

section \<open>The scheduler runs one alert per check, across restarts\<close>

definition results_of :: "string \<Rightarrow> ('time \<times> 'time check_result) list \<Rightarrow> ('time \<times> 'time check_result) list" where
  "results_of cid rs = filter (\<lambda>r. res_check_id (snd r) = cid) rs"

lemma mgr_process_get:
  "hm_get (snd (mgr_process now r mgr)) cid =
     (if res_check_id r = cid then map_option (\<lambda>a. snd (process now r a)) (hm_get mgr cid) else hm_get mgr cid)"
  by (auto simp: mgr_process_def hm.get_insert split: option.splits prod.splits)

lemma take_result_manager: "manager (fst (take_result st nr)) = snd (mgr_process (fst nr) (snd nr) (manager (fst st)))"
  by (simp add: take_result_def split: prod.splits)

lemma take_results_get:
  "hm_get (manager (fst (foldl take_result st rs))) cid =
     map_option (\<lambda>a. run_alert a (results_of cid rs)) (hm_get (manager (fst st)) cid)"
proof (induction rs rule: rev_induct)
  case Nil
  then show ?case by (simp add: results_of_def option.map_ident)
next
  case (snoc r rs)
  then show ?case
    by (simp add: take_result_manager mgr_process_get results_of_def option.map_comp comp_def)
qed

lemma run_all_get:
  "hm_get (manager (snd (run_all s rs))) cid = map_option (\<lambda>a. run_alert a (results_of cid rs)) (hm_get (manager s) cid)"
  using take_results_get [of "(s, [])" rs cid]
  by (cases "foldl take_result (s, []) rs") (auto simp: run_all_def split: option.splits)

lemma store_take_result: "store (fst (foldl take_result st rs)) = store (fst st)"
  by (induction rs rule: rev_induct) (auto simp: take_result_def split: prod.splits)

lemma run_all_store: "store s \<noteq> None \<Longrightarrow> store (snd (run_all s rs)) = Some (manager (snd (run_all s rs)))"
  using store_take_result [of "(s, [])" rs]
  by (cases "foldl take_result (s, []) rs") (auto simp: run_all_def split: option.splits)

definition progress :: "'time alert \<Rightarrow> alert_state \<times> u32 \<times> u32" where
  "progress a = (state a, consecutive_failures a, consecutive_successes a)"

lemma register_progress:
  "hm_get mgr cid = Some a \<Longrightarrow> \<exists>a'. hm_get (register c n ft rt mgr) cid = Some a' \<and> progress a' = progress a"
  by (auto simp: register_def hm.get_insert progress_def split: option.splits)

lemma add_checks_progress:
  "hm_get (manager s) cid = Some a \<Longrightarrow>
     \<exists>a'. hm_get (manager (foldl add_check s cs)) cid = Some a' \<and> progress a' = progress a"
proof (induction cs arbitrary: s a)
  case (Cons c cs)
  obtain a1 where "hm_get (manager (add_check s c)) cid = Some a1" "progress a1 = progress a"
    using register_progress [OF Cons.prems, of "chk_id c" "chk_name c" "chk_failure_threshold c" "chk_recovery_threshold c"]
    by (auto simp: add_check_def)
  with Cons.IH [of "add_check s c" a1] show ?case by auto
qed simp

text \<open>
  A cycle of the scheduler advances each check's alert by exactly its own results, in their order of
  completion; and when a store is attached, a scheduler started from it, after registering any checks
  again with whatever thresholds, continues from the same state and counters.
\<close>

theorem scheduler_survives_restart:
  assumes "hm_get (manager s) cid = Some a"
  shows "hm_get (manager (snd (run_all s rs))) cid = Some (run_alert a (results_of cid rs)) \<and>
    (store s \<noteq> None \<longrightarrow>
      (\<exists>kept a'. store (snd (run_all s rs)) = Some kept \<and>
        hm_get (manager (foldl add_check (with_store scheduler_new (Some kept) kept) cs)) cid = Some a' \<and>
        progress a' = progress (run_alert a (results_of cid rs))))"
proof -
  let ?m = "manager (snd (run_all s rs))"
  have g: "hm_get ?m cid = Some (run_alert a (results_of cid rs))" using assms by (simp add: run_all_get)
  then have "\<exists>a'. hm_get (manager (foldl add_check (with_store scheduler_new (Some ?m) ?m) cs)) cid = Some a' \<and>
      progress a' = progress (run_alert a (results_of cid rs))"
    by (intro add_checks_progress) (simp add: with_store_def)
  then show ?thesis using g run_all_store [of s rs] by blast
qed

theorem scheduler_survives_restart_witness:
  "hm_get (manager (snd (run_all (add_check scheduler_new \<lparr>chk_id = ''c'', chk_name = ''n'', chk_type = Ping ''h'', interval_secs = 1,
       timeout_secs = 1, chk_failure_threshold = 2, chk_recovery_threshold = 1\<rparr>) [((), ex_result Critical)]))) ''c'' =
     Some (run_alert (alert_new ''c'' ''n'' 2 1) (results_of ''c'' [((), ex_result Critical)]))"
  using scheduler_survives_restart [of "add_check scheduler_new \<lparr>chk_id = ''c'', chk_name = ''n'', chk_type = Ping ''h'', interval_secs = 1,
       timeout_secs = 1, chk_failure_threshold = 2, chk_recovery_threshold = 1\<rparr>" "''c''" "alert_new ''c'' ''n'' 2 1"]
  by (simp add: add_check_def scheduler_new_def register_def hm.get_insert)

end
