(* ===== verification/Remote_Fs.thy ===== *)
theory Remote_Fs
  imports Rust_Std
begin

text \<open>
  The sandbox of the remote file service (\<open>crates/runesh-remote/src/fs/security.rs\<close>) and the reading
  and writing of files through it (\<open>fs/explorer.rs\<close>), on a Unix host.

  The operating system's file tree is a map from absolute paths (lists of names) to nodes; a symbolic
  link holds the absolute path it points to. \<open>canonicalize\<close> follows links as \<open>realpath(3)\<close> does, at
  most \<open>MAX_SYMLINKS\<close> of them, so its recursion ends. The root directory \<open>[]\<close> always exists. A path that
  ends in a slash or in \<open>/.\<close> names a directory for the kernel, while \<open>Path::components\<close>, \<open>parent\<close> and
  \<open>file_name\<close> ignore the ending; the model keeps this difference. The SHA-256 of the result is a
  parameter.
\<close>

section \<open>The file tree\<close>

type_synonym path = "string list"

datatype node = File "u8 list" | Dir | Symlink path

type_synonym file_tree = "path \<Rightarrow> node option"

datatype io_error = NoEntry | NotADirectory | TooManyLinks | IsADirectory | UnexpectedEof

definition show_io :: "io_error \<Rightarrow> string" where
  "show_io e =
     (case e of
        NoEntry \<Rightarrow> ''No such file or directory (os error 2)''
      | NotADirectory \<Rightarrow> ''Not a directory (os error 20)''
      | TooManyLinks \<Rightarrow> ''Too many levels of symbolic links (os error 40)''
      | IsADirectory \<Rightarrow> ''Is a directory (os error 21)''
      | UnexpectedEof \<Rightarrow> ''early eof'')"

definition MAX_SYMLINKS :: nat where "MAX_SYMLINKS = 40"

function realpath :: "file_tree \<Rightarrow> nat \<Rightarrow> path \<Rightarrow> path \<Rightarrow> io_error + path" where
  "realpath fs n acc [] = Inr acc"
| "realpath fs n acc (c # cs) =
     (case fs (acc @ [c]) of
        None \<Rightarrow> Inl NoEntry
      | Some Dir \<Rightarrow> realpath fs n (acc @ [c]) cs
      | Some (File _) \<Rightarrow> if cs = [] then Inr (acc @ [c]) else Inl NotADirectory
      | Some (Symlink t) \<Rightarrow>
          (case n of 0 \<Rightarrow> Inl TooManyLinks | Suc n' \<Rightarrow> realpath fs n' [] (t @ cs)))"
  by pat_completeness auto
termination realpath
  by (relation "measures [\<lambda>(fs, n, acc, cs). n, \<lambda>(fs, n, acc, cs). length cs]") auto

definition is_dir_node :: "file_tree \<Rightarrow> path \<Rightarrow> bool" where
  "is_dir_node fs p = (p = [] \<or> fs p = Some Dir)"

text \<open>\<open>must_be_dir\<close>: the path text ends in a slash or in \<open>/.\<close>.\<close>

definition canonicalize :: "file_tree \<Rightarrow> path \<Rightarrow> bool \<Rightarrow> io_error + path" where
  "canonicalize fs p must_be_dir =
     rbind (realpath fs MAX_SYMLINKS [] p) (\<lambda>q.
       if must_be_dir \<and> \<not> is_dir_node fs q then Inl NotADirectory else Inr q)"

definition exists_path :: "file_tree \<Rightarrow> path \<Rightarrow> bool \<Rightarrow> bool" where
  "exists_path fs p must_be_dir = is_ok (canonicalize fs p must_be_dir)"

section \<open>The policy\<close>

datatype remote_error = NotFound string | AccessDenied string | PathTraversal string | NotAllowed string
  | RemoteIo io_error | SessionNotFound string | MaxSessions | SessionTimeout | BadRequest string
  | Serialization string | Internal string | Pty

record fs_policy =
  root :: path
  allow_write :: bool
  allow_delete :: bool
  allow_execute :: bool
  max_upload_size :: u64
  max_read_bytes :: u64
  max_depth :: nat
  blocked_extensions :: "string list"
  blocked_patterns :: "string list"

text \<open>The default policy, given the current directory (or the temporary one when it is unavailable).\<close>

definition default_policy :: "path \<Rightarrow> fs_policy" where
  "default_policy cwd = \<lparr>root = cwd, allow_write = True, allow_delete = True, allow_execute = False,
     max_upload_size = 104857600, max_read_bytes = 104857600, max_depth = 50, blocked_extensions = [],
     blocked_patterns = [''.git'', ''.env'']\<rparr>"

definition read_only :: "path \<Rightarrow> path \<Rightarrow> fs_policy" where
  "read_only cwd r = (default_policy cwd)\<lparr>root := r, allow_write := False, allow_delete := False, allow_execute := False\<rparr>"

definition normals :: "component list \<Rightarrow> path" where
  "normals cs = concat (map (\<lambda>c. case c of Normal s \<Rightarrow> [s] | _ \<Rightarrow> []) cs)"

definition needs_dir :: "string \<Rightarrow> bool" where
  "needs_dir s = (ends_with ''/'' s \<or> ends_with ''/.'' s)"

definition check_component :: "component \<Rightarrow> remote_error + unit" where
  "check_component cmp =
     (case cmp of
        RootDir \<Rightarrow> Inl (PathTraversal ''Absolute or drive-qualified paths are not allowed'')
      | ParentDir \<Rightarrow> Inl (PathTraversal (''Path must not contain '' @ [CHR 0x27] @ ''..'' @ [CHR 0x27]))
      | _ \<Rightarrow> Inr ())"

fun path_string :: "path \<Rightarrow> string" where
  "path_string [] = ''/''"
| "path_string [c] = CHR ''/'' # c"
| "path_string (c # cs) = CHR ''/'' # c @ path_string cs"

definition extension :: "path \<Rightarrow> string option" where
  "extension p =
     (if p = [] then None else name_extension (last p))"

definition map_io :: "(string \<Rightarrow> remote_error) \<Rightarrow> io_error + 'a \<Rightarrow> remote_error + 'a" where
  "map_io f r = (case r of Inl e \<Rightarrow> Inl (f (show_io e)) | Inr a \<Rightarrow> Inr a)"

definition canonical_target :: "file_tree \<Rightarrow> path \<Rightarrow> bool \<Rightarrow> remote_error + path" where
  "canonical_target fs full_path must_be_dir =
     (if exists_path fs full_path must_be_dir
      then map_io (\<lambda>e. Internal (''Failed to canonicalize path: '' @ e)) (canonicalize fs full_path must_be_dir)
      else if full_path = [] then Inl (BadRequest ''Invalid path: no parent directory'')
      else rbind (map_io (\<lambda>e. NotFound (''Parent directory not found: '' @ e)) (canonicalize fs (butlast full_path) False))
             (\<lambda>canonical_parent. Inr (canonical_parent @ [last full_path])))"

definition check_patterns :: "fs_policy \<Rightarrow> path \<Rightarrow> remote_error + unit" where
  "check_patterns self canonical =
     try_each (\<lambda>pattern.
       if sublist pattern (path_string canonical)
       then Inl (NotAllowed (''Access to '' @ [CHR 0x27] @ pattern @ [CHR 0x27] @ '' paths is blocked''))
       else Inr ()) (blocked_patterns self)"

definition check_extension :: "fs_policy \<Rightarrow> path \<Rightarrow> remote_error + unit" where
  "check_extension self canonical =
     (case extension canonical of
        None \<Rightarrow> Inr ()
      | Some ext \<Rightarrow>
          let ext_str = ''.'' @ ext in
          try_each (\<lambda>blocked.
            if eq_ignore_ascii_case ext_str blocked
            then Inl (NotAllowed (''File extension '' @ [CHR 0x27] @ ext_str @ [CHR 0x27] @ '' is blocked''))
            else Inr ()) (blocked_extensions self))"

definition canonical_root :: "file_tree \<Rightarrow> fs_policy \<Rightarrow> remote_error + path" where
  "canonical_root fs self = map_io (\<lambda>e. Internal (''Failed to canonicalize root: '' @ e)) (canonicalize fs (root self) False)"

definition resolve_path :: "file_tree \<Rightarrow> fs_policy \<Rightarrow> string \<Rightarrow> remote_error + path" where
  "resolve_path fs self requested =
     (if requested = [] then canonical_root fs self
      else if CHR 0x00 \<in> set requested then Inl (PathTraversal ''Path must not contain null bytes'')
      else if starts_with [CHR 0x5C, CHR 0x5C] requested \<or> starts_with ''//'' requested \<or>
              starts_with [CHR 0x5C, CHR ''?'', CHR 0x5C] requested \<or> starts_with [CHR 0x5C, CHR ''.'', CHR 0x5C] requested
      then Inl (PathTraversal ''UNC, device, and NT namespace paths are not allowed'')
      else if starts_with ''/'' requested then Inl (PathTraversal ''Absolute paths are not allowed'')
      else
        rbind (try_each check_component (components requested)) (\<lambda>_.
        rbind (canonical_root fs self) (\<lambda>croot.
        rbind (canonical_target fs (croot @ normals (components requested)) (needs_dir requested)) (\<lambda>canonical.
        if \<not> prefix croot canonical then Inl (PathTraversal ''Path escapes sandbox root'')
        else rbind (check_patterns self canonical) (\<lambda>_.
             rbind (check_extension self canonical) (\<lambda>_. Inr canonical))))))"

definition check_write :: "fs_policy \<Rightarrow> remote_error + unit" where
  "check_write self = (if \<not> allow_write self then Inl (NotAllowed ''Write operations are disabled'') else Inr ())"

definition check_delete :: "fs_policy \<Rightarrow> remote_error + unit" where
  "check_delete self = (if \<not> allow_delete self then Inl (NotAllowed ''Delete operations are disabled'') else Inr ())"

section \<open>Reading and writing\<close>

text \<open>What the kernel opens: the path with its links followed.\<close>

definition file_content :: "file_tree \<Rightarrow> path \<Rightarrow> (path \<times> u8 list) option" where
  "file_content fs p =
     (case canonicalize fs p False of
        Inr q \<Rightarrow> (case fs q of Some (File content) \<Rightarrow> Some (q, content) | _ \<Rightarrow> None)
      | Inl _ \<Rightarrow> None)"

definition read_file ::
    "(u8 list \<Rightarrow> string) \<Rightarrow> file_tree \<Rightarrow> fs_policy \<Rightarrow> string \<Rightarrow> u64 \<Rightarrow> u64 \<Rightarrow> remote_error + (u8 list \<times> u64 \<times> string)" where
  "read_file sha256_hex fs policy req offset len =
     rbind (resolve_path fs policy req) (\<lambda>resolved.
     case file_content fs resolved of
       None \<Rightarrow> Inl (BadRequest (''Not a file: '' @ req))
     | Some (_, content) \<Rightarrow>
         let total_size = of_nat (length content) :: u64;
             max_read = max_read_bytes policy;
             requested = (if len = 0 then sat_sub total_size offset else len)
         in if requested > max_read
            then Inl (NotAllowed (''read size '' @ show_nat (unat requested) @ '' exceeds max_read_bytes '' @
                   show_nat (unat max_read) @ ''; use chunked download''))
            else if offset = 0 \<and> (len = 0 \<or> len \<ge> total_size)
            then Inr (content, total_size, sha256_hex content)
            else
              let buf = take (unat requested) (drop (unat offset) content) in
              if length buf < unat requested then Inl (RemoteIo UnexpectedEof)
              else Inr (buf, total_size, sha256_hex buf))"

text \<open>Where the kernel creates or opens a file for writing: a final link is followed even if it dangles.\<close>

fun create_target :: "file_tree \<Rightarrow> nat \<Rightarrow> path \<Rightarrow> io_error + path" where
  "create_target fs n p =
     (if p = [] then Inl IsADirectory
      else rbind (canonicalize fs (butlast p) True) (\<lambda>d.
        case fs (d @ [last p]) of
          Some (Symlink t) \<Rightarrow> (case n of 0 \<Rightarrow> Inl TooManyLinks | Suc n' \<Rightarrow> create_target fs n' t)
        | Some Dir \<Rightarrow> Inl IsADirectory
        | _ \<Rightarrow> Inr (d @ [last p])))"

declare create_target.simps [simp del]

definition write_file ::
    "file_tree \<Rightarrow> fs_policy \<Rightarrow> string \<Rightarrow> u8 list \<Rightarrow> bool \<Rightarrow> (remote_error + u64) \<times> file_tree" where
  "write_file fs policy req data append_mode =
     (case rbind (check_write policy) (\<lambda>_. resolve_path fs policy req) of
        Inl e \<Rightarrow> (Inl e, fs)
      | Inr resolved \<Rightarrow>
          (case create_target fs MAX_SYMLINKS resolved of
             Inl e \<Rightarrow> (Inl (RemoteIo e), fs)
           | Inr t \<Rightarrow>
               let old = (case fs t of Some (File c) \<Rightarrow> c | _ \<Rightarrow> [])
               in (Inr (of_nat (length data)), fs(t \<mapsto> File (if append_mode then old @ data else data)))))"

section \<open>Canonical paths\<close>

text \<open>A path whose every prefix is a directory (a file may come last): no link on the way.\<close>

fun plain :: "file_tree \<Rightarrow> path \<Rightarrow> path \<Rightarrow> bool" where
  "plain fs acc [] = True"
| "plain fs acc (c # cs) =
     (case fs (acc @ [c]) of
        Some Dir \<Rightarrow> plain fs (acc @ [c]) cs
      | Some (File _) \<Rightarrow> cs = []
      | _ \<Rightarrow> False)"

definition plain_dir :: "file_tree \<Rightarrow> path \<Rightarrow> bool" where
  "plain_dir fs p = (\<forall>k < length p. fs (take (Suc k) p) = Some Dir)"

lemma plain_dir_snoc: "plain_dir fs (p @ [c]) \<longleftrightarrow> plain_dir fs p \<and> fs (p @ [c]) = Some Dir"
proof -
  have "(\<forall>k < Suc (length p). fs (take (Suc k) (p @ [c])) = Some Dir) \<longleftrightarrow>
      (\<forall>k < length p. fs (take (Suc k) p) = Some Dir) \<and> fs (p @ [c]) = Some Dir"
    by (auto simp: less_Suc_eq all_conj_distrib)
  then show ?thesis by (simp add: plain_dir_def)
qed

lemma plain_dir_realpath: "plain_dir fs (acc @ cs) \<Longrightarrow> realpath fs n acc (cs @ ds) = realpath fs n (acc @ cs) ds"
proof (induction cs arbitrary: acc)
  case (Cons c cs)
  have "fs (take (Suc (length acc)) (acc @ c # cs)) = Some Dir"
    using Cons.prems by (simp add: plain_dir_def del: take_append)
  then have "fs (acc @ [c]) = Some Dir" by simp
  then show ?case using Cons.IH [of "acc @ [c]"] Cons.prems by simp
qed simp

text \<open>What canonicalisation returns is reached through directories only.\<close>

lemma realpath_plain:
  "realpath fs n acc cs = Inr q \<Longrightarrow> plain_dir fs acc \<Longrightarrow>
     plain_dir fs q \<or> (\<exists>d f content. q = d @ [f] \<and> plain_dir fs d \<and> fs q = Some (File content))"
proof (induction fs n acc cs rule: realpath.induct)
  case (2 fs n acc c cs)
  show ?case
  proof (cases "fs (acc @ [c])")
    case (Some nd)
    show ?thesis
    proof (cases nd)
      case (File content)
      then show ?thesis using 2 Some by (auto split: if_splits)
    next
      case Dir
      then show ?thesis using 2 Some by (simp add: plain_dir_snoc)
    next
      case (Symlink t)
      then show ?thesis using 2 Some by (auto simp: plain_dir_def split: nat.splits)
    qed
  qed (use 2 in simp)
qed auto

lemma canonicalize_plain:
  "canonicalize fs p b = Inr q \<Longrightarrow>
     plain_dir fs q \<or> (\<exists>d f content. q = d @ [f] \<and> plain_dir fs d \<and> fs q = Some (File content))"
  using realpath_plain [of fs MAX_SYMLINKS "[]" p q]
  by (auto simp: canonicalize_def rbind_eq_Inr plain_dir_def split: if_splits)

lemma realpath_plain_dir: "plain_dir fs d \<Longrightarrow> realpath fs n [] d = Inr d"
  using plain_dir_realpath [of fs "[]" d n "[]"] by simp

lemma realpath_snoc: "plain_dir fs d \<Longrightarrow> realpath fs n [] (d @ [f]) = realpath fs n d [f]"
  using plain_dir_realpath [of fs "[]" d n "[f]"] by simp

lemma realpath_last:
  "plain_dir fs d \<Longrightarrow> fs (d @ [f]) \<noteq> None \<Longrightarrow> (\<And>t. fs (d @ [f]) \<noteq> Some (Symlink t)) \<Longrightarrow>
     realpath fs n [] (d @ [f]) = Inr (d @ [f])"
  by (auto simp: realpath_snoc split: option.splits node.splits)

text \<open>What the sandbox hands out: a canonical path, or a name in a canonical directory.\<close>

lemma canonical_target_plain:
  assumes "canonical_target fs full b = Inr p"
  shows "plain_dir fs p \<or> (\<exists>d f. p = d @ [f] \<and> plain_dir fs d)
    \<or> (\<exists>d f. p = d @ [f] \<and> (\<exists>d' g content. d = d' @ [g] \<and> plain_dir fs d' \<and> fs d = Some (File content)))"
  using assms canonicalize_plain [of fs full b p] canonicalize_plain [of fs "butlast full" False]
  by (auto simp: canonical_target_def map_io_def rbind_eq_Inr split: if_splits sum.splits)

lemma resolve_path_cases:
  assumes "resolve_path fs pol req = Inr p"
  shows "\<exists>croot. canonical_root fs pol = Inr croot \<and> prefix croot p \<and>
    (p = croot \<or> canonical_target fs (croot @ normals (components req)) (needs_dir req) = Inr p)"
  using assms by (auto simp: resolve_path_def rbind_eq_Inr split: if_splits)

lemma canonical_root_plain:
  "canonical_root fs pol = Inr r \<Longrightarrow>
     plain_dir fs r \<or> (\<exists>d f content. r = d @ [f] \<and> plain_dir fs d \<and> fs r = Some (File content))"
  using canonicalize_plain [of fs "root pol" False r]
  by (auto simp: canonical_root_def map_io_def split: sum.splits)

lemma canonicalize_resolved:
  assumes "resolve_path fs pol req = Inr p" and "\<And>t. fs p \<noteq> Some (Symlink t)" and "canonicalize fs p b = Inr q"
  shows "q = p"
proof -
  have rp: "realpath fs MAX_SYMLINKS [] p = Inr q"
    using assms(3) by (auto simp: canonicalize_def rbind_eq_Inr split: if_splits)
  from resolve_path_cases [OF assms(1)] canonical_root_plain canonical_target_plain
  consider "plain_dir fs p" | d f where "p = d @ [f]" "plain_dir fs d"
    | d f d' g content where "p = d @ [f]" "d = d' @ [g]" "plain_dir fs d'" "fs d = Some (File content)"
    by metis
  then show ?thesis
  proof cases
    case 1
    then show ?thesis using rp by (simp add: realpath_plain_dir)
  next
    case 2
    then have "fs p \<noteq> None" using rp by (auto simp: realpath_snoc split: option.splits)
    then show ?thesis using 2 rp assms(2) realpath_last [of fs d f MAX_SYMLINKS] by simp
  next
    case 3
    then have "realpath fs MAX_SYMLINKS [] p = realpath fs MAX_SYMLINKS d' [g, f]"
      using plain_dir_realpath [of fs "[]" d' MAX_SYMLINKS "[g, f]"] by simp
    then show ?thesis using rp 3 by simp
  qed
qed

section \<open>The sandbox\<close>

text \<open>
  C4. Every path the sandbox hands out lies under the canonical root; and unless that path itself names a
  symbolic link, opening it reaches exactly that path, so a read returns the content of a file under the
  root and never of one outside.
\<close>

theorem sandbox_confines_reads:
  assumes "resolve_path fs pol req = Inr p" and "\<And>t. fs p \<noteq> Some (Symlink t)"
  shows "\<exists>croot. canonical_root fs pol = Inr croot \<and> prefix croot p \<and>
    (\<forall>q content. file_content fs p = Some (q, content) \<longrightarrow> q = p \<and> fs p = Some (File content))"
proof -
  have "q = p \<and> fs p = Some (File content)" if "file_content fs p = Some (q, content)" for q content
  proof -
    have c: "canonicalize fs p False = Inr q" "fs q = Some (File content)"
      using that by (auto simp: file_content_def split: sum.splits option.splits node.splits)
    with canonicalize_resolved [OF assms c(1)] show ?thesis by simp
  qed
  with resolve_path_cases [OF assms(1)] show ?thesis by blast
qed

definition ex_fs :: file_tree where
  "ex_fs p =
     (if p = [''srv''] then Some Dir
      else if p = [''srv'', ''a.txt''] then Some (File [1, 2, 3])
      else if p = [''srv'', ''link''] then Some (Symlink [''etc'', ''passwd''])
      else if p = [''srv'', ''new''] then Some (Symlink [''etc'', ''cron''])
      else if p = [''etc''] then Some Dir
      else if p = [''etc'', ''passwd''] then Some (File [7, 7])
      else None)"

definition ex_policy :: fs_policy where
  "ex_policy = (default_policy [])\<lparr>root := [''srv'']\<rparr>"

lemma ex_resolve: "resolve_path ex_fs ex_policy ''./a.txt'' = Inr [''srv'', ''a.txt'']"
  by code_simp

theorem sandbox_confines_reads_witness:
  "\<exists>croot. canonical_root ex_fs ex_policy = Inr croot \<and> prefix croot [''srv'', ''a.txt''] \<and>
    (\<forall>q content. file_content ex_fs [''srv'', ''a.txt''] = Some (q, content) \<longrightarrow>
       q = [''srv'', ''a.txt''] \<and> ex_fs [''srv'', ''a.txt''] = Some (File content))"
  by (rule sandbox_confines_reads [OF ex_resolve]) (simp add: ex_fs_def)


text \<open>
  Writing through a dangling link creates a file outside the sandbox: the link's target does not
  exist, so only its parent directory is checked, and the write follows the link.
\<close>

theorem dangling_link_write_escapes:
  "is_ok (fst (write_file ex_fs ex_policy ''new'' [9] False)) \<and>
   snd (write_file ex_fs ex_policy ''new'' [9] False) [''etc'', ''cron''] = Some (File [9]) \<and>
   ex_fs [''etc'', ''cron''] = None"
proof -
  have "resolve_path ex_fs ex_policy ''new'' = Inr [''srv'', ''new'']"
    "create_target ex_fs MAX_SYMLINKS [''srv'', ''new''] = Inr [''etc'', ''cron'']"
    "check_write ex_policy = Inr ()" "ex_fs [''etc'', ''cron''] = None"
    by code_simp+
  then show ?thesis by (simp add: write_file_def Let_def)
qed

text \<open>
  A read never returns more than \<open>max_read_bytes\<close>, returns exactly the requested window of the file,
  and fails instead of returning a short one.
\<close>

theorem read_file_window:
  assumes "read_file h fs pol req offset len = Inr (buf, sz, digest)"
    and "\<And>p content. fs p = Some (File content) \<Longrightarrow> length content < 2 ^ 64"
  shows "length buf \<le> unat (max_read_bytes pol) \<and> digest = h buf \<and>
    (\<exists>p q content. resolve_path fs pol req = Inr p \<and> file_content fs p = Some (q, content) \<and> unat sz = length content \<and>
       buf = (if len = 0 then drop (unat offset) content else take (unat len) (drop (unat offset) content)) \<and>
       (len = 0 \<or> length buf = unat len \<or> offset = 0 \<and> buf = content))"
proof -
  obtain p q content where p: "resolve_path fs pol req = Inr p" and c: "file_content fs p = Some (q, content)"
    using assms(1) by (auto simp: read_file_def rbind_eq_Inr split: option.splits)
  have "fs q = Some (File content)"
    using c by (auto simp: file_content_def split: sum.splits option.splits node.splits)
  then have t: "unat (of_nat (length content) :: u64) = length content"
    using assms(2) unat_of_nat_small [where 'a = 64] by simp
  have le: "w \<le> v \<longleftrightarrow> unat w \<le> unat v" for w v :: u64 by (simp add: word_le_nat_alt)
  have "len = 0 \<longleftrightarrow> unat len = 0" by (simp add: unat_eq_0)
  then show ?thesis
    using assms(1) p c t
    by (auto simp: read_file_def Let_def le unat_sat_sub not_le not_less min_def split: if_splits)
qed

theorem read_file_window_witness:
  "length ([2] :: u8 list) \<le> unat (max_read_bytes ex_policy) \<and> ''x'' = (\<lambda>_. ''x'') ([2] :: u8 list) \<and>
    (\<exists>p q content. resolve_path ex_fs ex_policy ''a.txt'' = Inr p \<and> file_content ex_fs p = Some (q, content) \<and>
       unat (3 :: u64) = length content \<and>
       [2] = (if (1 :: u64) = 0 then drop (unat (1 :: u64)) content else take (unat (1 :: u64)) (drop (unat (1 :: u64)) content)) \<and>
       ((1 :: u64) = 0 \<or> length ([2] :: u8 list) = unat (1 :: u64) \<or> (1 :: u64) = 0 \<and> [2] = content))"
proof (rule read_file_window [of "\<lambda>_. ''x''" ex_fs ex_policy "''a.txt''" 1 1])
  have "resolve_path ex_fs ex_policy ''a.txt'' = Inr [''srv'', ''a.txt'']"
    "file_content ex_fs [''srv'', ''a.txt''] = Some ([''srv'', ''a.txt''], [1, 2, 3])" by code_simp+
  then show "read_file (\<lambda>_. ''x'') ex_fs ex_policy ''a.txt'' 1 1 = Inr ([2], 3, ''x'')"
    by (simp add: read_file_def ex_policy_def default_policy_def Let_def)
qed (auto simp: ex_fs_def split: if_splits)

end
