(* ===== verification/Mesh_Join.thy ===== *)
theory Mesh_Join
  imports Mesh_Ipam Mesh_Peer
begin

text \<open>
  The composition of \<open>Mesh_Ipam\<close> and \<open>Mesh_Peer\<close>: the mesh of one tenant.
\<close>

section \<open>A mesh: addresses from the pool, peers in the map\<close>

text \<open>
  A tenant's mesh joins the address pool and the peer map: a joining peer gets an address from the pool
  and is entered in the map with it; a leaving peer is removed and its address released.
\<close>

datatype 'net mesh_op = Join "'net peer_info" | Leave wg_public_key

definition mesh_step :: "tenant_ip_pool \<times> 'net peer_map \<Rightarrow> 'net mesh_op \<Rightarrow> tenant_ip_pool \<times> 'net peer_map" where
  "mesh_step s op =
     (case (s, op) of
        ((pool, m), Join peer) \<Rightarrow>
          (case Mesh_Ipam.allocate pool of
             Some (Inr (ip, pool')) \<Rightarrow> (pool', Mesh_Peer.upsert (peer\<lparr>mesh_ip := ip\<rparr>) m)
           | _ \<Rightarrow> (pool, m))
      | ((pool, m), Leave key) \<Rightarrow>
          (case Mesh_Peer.remove_peer key m of
             (Some peer, m') \<Rightarrow> (Mesh_Ipam.release pool (mesh_ip peer), m')
           | (None, m') \<Rightarrow> (pool, m')))"

definition mesh_inv :: "tenant_ip_pool \<times> 'net peer_map \<Rightarrow> bool" where
  "mesh_inv s = (case s of (pool, m) \<Rightarrow> Mesh_Ipam.pool_wf pool \<and>
     (\<forall>key p. hm_get (peers m) key = Some p \<longrightarrow>
        public_key p = key \<and> mesh_ip p \<in> Mesh_Ipam.held pool \<and> hm_get (ip_to_key m) (mesh_ip p) = Some key))"

lemma mesh_invD:
  assumes "mesh_inv (pool, m)" "hm_get (peers m) key = Some p"
  shows "public_key p = key" "mesh_ip p \<in> Mesh_Ipam.held pool" "hm_get (ip_to_key m) (mesh_ip p) = Some key"
  using assms by (simp_all add: mesh_inv_def)

lemma mesh_invI:
  assumes "Mesh_Ipam.pool_wf pool"
    and "\<And>key p. hm_get (peers m) key = Some p \<Longrightarrow>
      public_key p = key \<and> mesh_ip p \<in> Mesh_Ipam.held pool \<and> hm_get (ip_to_key m) (mesh_ip p) = Some key"
  shows "mesh_inv (pool, m)"
  using assms by (simp add: mesh_inv_def)

lemma mesh_inv_join:
  assumes inv: "mesh_inv (pool, m)" and ip: "mesh_ip peer \<notin> Mesh_Ipam.held pool" and "Mesh_Ipam.pool_wf pool'"
    and held: "Mesh_Ipam.held pool' = insert (mesh_ip peer) (Mesh_Ipam.held pool)"
  shows "mesh_inv (pool', Mesh_Peer.upsert peer m)"
proof (rule mesh_invI [OF assms(3)])
  fix key p
  assume k: "hm_get (peers (Mesh_Peer.upsert peer m)) key = Some p"
  show "public_key p = key \<and> mesh_ip p \<in> Mesh_Ipam.held pool' \<and>
      hm_get (ip_to_key (Mesh_Peer.upsert peer m)) (mesh_ip p) = Some key"
  proof (cases "key = public_key peer")
    case True
    with k show ?thesis by (simp add: upsert_def Let_def hm_simps held)
  next
    case False
    with k have old: "hm_get (peers m) key = Some p" by (simp add: upsert_def Let_def hm_simps)
    note d = mesh_invD [OF inv old]
    have "mesh_ip p \<noteq> mesh_ip peer" using d(2) ip by auto
    moreover have "mesh_ip q \<noteq> mesh_ip p" if "hm_get (peers m) (public_key peer) = Some q" for q
      using mesh_invD(3) [OF inv that] d(3) False by auto
    ultimately show ?thesis
      using d held by (auto simp: upsert_def Let_def hm_simps split: option.splits)
  qed
qed

lemma allocate_fresh:
  assumes "Mesh_Ipam.pool_wf pool" "Mesh_Ipam.allocate pool = Some (Inr (ip, pool'))"
  shows "ip \<notin> Mesh_Ipam.held pool \<and> Mesh_Ipam.held pool' = insert ip (Mesh_Ipam.held pool) \<and> Mesh_Ipam.pool_wf pool'"
proof -
  have "Mesh_Ipam.pool_wf pool'"
    using pool_step_wf [OF assms(1), of Allocate] assms(2) by (simp add: pool_step_def)
  then show ?thesis
    using allocate_result [OF assms(1)] assms(2) by (auto simp: held_iff held_insert)
qed

lemma release_held:
  assumes "Mesh_Ipam.pool_wf pool"
  shows "Mesh_Ipam.held (Mesh_Ipam.release pool ip) = Mesh_Ipam.held pool - {ip} \<and> Mesh_Ipam.pool_wf (Mesh_Ipam.release pool ip)"
  using pool_machine.step_refines [of pool "base pool" "Release ip"] pool_step_wf [OF assms, of "Release ip"] assms
  by (simp add: pool_step_def)

lemma mesh_inv_leave:
  assumes "mesh_inv (pool, m)" "hm_get (peers m) key = Some peer"
  shows "mesh_inv (Mesh_Ipam.release pool (mesh_ip peer), snd (Mesh_Peer.remove_peer key m))"
proof -
  have "Mesh_Ipam.pool_wf pool" using assms(1) by (simp add: mesh_inv_def)
  note r = release_held [OF this, of "mesh_ip peer"]
  show ?thesis
  proof (rule mesh_invI)
    fix key' p
    assume "hm_get (peers (snd (Mesh_Peer.remove_peer key m))) key' = Some p"
    then have old: "hm_get (peers m) key' = Some p" and ne: "key' \<noteq> key"
      using assms(2) by (auto simp: remove_peer_def hm_simps split: if_splits)
    have "mesh_ip p \<noteq> mesh_ip peer"
      using mesh_invD(3) [OF assms(1) old] mesh_invD(3) [OF assms] ne by auto
    then show "public_key p = key' \<and> mesh_ip p \<in> Mesh_Ipam.held (Mesh_Ipam.release pool (mesh_ip peer)) \<and>
        hm_get (ip_to_key (snd (Mesh_Peer.remove_peer key m))) (mesh_ip p) = Some key'"
      using mesh_invD [OF assms(1) old] r assms(2) by (simp add: remove_peer_def hm_simps)
  qed (use r in simp)
qed

interpretation mesh_machine: invariant_machine mesh_step mesh_inv
proof
  fix s :: "tenant_ip_pool \<times> 'net peer_map" and op
  assume inv: "mesh_inv s"
  obtain pool m where s: "s = (pool, m)" by (cases s)
  have wf: "Mesh_Ipam.pool_wf pool" using inv s by (simp add: mesh_inv_def)
  show "mesh_inv (mesh_step s op)"
  proof (cases op)
    case (Join peer)
    show ?thesis
    proof (cases "\<exists>ip pool'. Mesh_Ipam.allocate pool = Some (Inr (ip, pool'))")
      case True
      then obtain ip pool' where a: "Mesh_Ipam.allocate pool = Some (Inr (ip, pool'))" by blast
      have "mesh_inv (pool', Mesh_Peer.upsert (peer\<lparr>mesh_ip := ip\<rparr>) m)"
        by (rule mesh_inv_join [of pool]) (use inv s allocate_fresh [OF wf a] in simp_all)
      then show ?thesis by (simp add: mesh_step_def s Join a)
    next
      case False
      then show ?thesis
        using inv by (auto simp: mesh_step_def s Join split: option.splits sum.splits)
    qed
  next
    case (Leave key)
    then show ?thesis
      using inv s mesh_inv_leave [of pool m key] by (auto simp: mesh_step_def remove_peer_def split: option.splits)
  qed
qed



end
