(* ===== verification/Audit_Log.thy ===== *)
theory Audit_Log
  imports Rust_Std
begin

text \<open>
  The audit log (\<open>crates/runesh-audit/src/lib.rs\<close>): entries chained by a hash, their verification, and
  the log that appends to memory and to a sink.

  SHA-256 in hexadecimal is the parameter \<open>digest\<close>; \<open>rfc3339\<close> (chrono) and \<open>json_str\<close> (serde_json) print
  time stamps and details. They are the fields of \<open>codec\<close>. No theorem assumes that the digest has no
  collisions: tamper evidence is stated as "equal or here is a collision". A string is the list of its
  UTF-8 bytes. The random id and the clock are arguments of \<open>build_entry\<close>. Lengths are 64-bit; strings
  in memory are shorter than that, which is the hypothesis \<open>fits\<close> of the theorems.
\<close>

section \<open>Entries and their hash\<close>

datatype audit_error = AuditIo | Serde | ChainBroken nat | SeqNotMonotonic nat

datatype severity = Info | SevWarning | SevCritical

definition show_severity :: "severity \<Rightarrow> string" where
  "show_severity s = (case s of Info \<Rightarrow> ''info'' | SevWarning \<Rightarrow> ''warning'' | SevCritical \<Rightarrow> ''critical'')"

record ('time, 'json) audit_entry =
  entry_id :: string
  seq :: u64
  timestamp :: 'time
  prev_hash :: string
  hash :: string
  actor :: string
  action :: string
  resource :: string
  details :: 'json
  severity :: severity
  tenant_id :: "string option"

record ('time, 'json) codec =
  digest :: "u8 list \<Rightarrow> string"
  rfc3339 :: "'time \<Rightarrow> string"
  json_str :: "'json \<Rightarrow> string"

definition u64_to_be :: "u64 \<Rightarrow> u8 list" where
  "u64_to_be w = int_be 8 (uint w)"

definition update_field :: "u8 list \<Rightarrow> string \<Rightarrow> u8 list \<Rightarrow> u8 list" where
  "update_field hasher name val =
     hasher @ u64_to_be (of_nat (length name)) @ as_bytes name @ u64_to_be (of_nat (length val)) @ val"

definition unwrap_or_empty :: "string option \<Rightarrow> string" where
  "unwrap_or_empty t = (case t of Some s \<Rightarrow> s | None \<Rightarrow> [])"

text \<open>The fields that go into the hash, in their order.\<close>

definition hash_fields :: "('time, 'json) codec \<Rightarrow> ('time, 'json) audit_entry \<Rightarrow> (string \<times> u8 list) list" where
  "hash_fields c e =
     [(''id'', as_bytes (entry_id e)), (''seq'', u64_to_be (seq e)), (''timestamp'', as_bytes (rfc3339 c (timestamp e))),
      (''prev_hash'', as_bytes (prev_hash e)), (''actor'', as_bytes (actor e)), (''action'', as_bytes (action e)),
      (''resource'', as_bytes (resource e)), (''details'', as_bytes (json_str c (details e))),
      (''severity'', as_bytes (show_severity (severity e))), (''tenant_id'', as_bytes (unwrap_or_empty (tenant_id e)))]"

definition hash_input :: "('time, 'json) codec \<Rightarrow> ('time, 'json) audit_entry \<Rightarrow> u8 list" where
  "hash_input c e = foldl (\<lambda>h (name, val). update_field h name val) [] (hash_fields c e)"

text \<open>The hash depends on every field except \<open>hash\<close> itself.\<close>

definition compute_hash :: "('time, 'json) codec \<Rightarrow> ('time, 'json) audit_entry \<Rightarrow> string" where
  "compute_hash c e = digest c (hash_input c e)"

definition hash_eq :: "string \<Rightarrow> string \<Rightarrow> bool" where
  "hash_eq a b = (if length a \<noteq> length b then False else list_all2 (=) a b)"

section \<open>Verification\<close>

text \<open>
  The loop of \<open>verify_entries\<close>: \<open>prev\<close> is the hash of the entry before (empty at the start), \<open>last_seq\<close>
  its sequence number.
\<close>

fun verify_loop ::
    "('time, 'json) codec \<Rightarrow> nat \<Rightarrow> string \<Rightarrow> u64 option \<Rightarrow> ('time, 'json) audit_entry list \<Rightarrow> audit_error + unit" where
  "verify_loop c i prev last_seq [] = Inr ()"
| "verify_loop c i prev last_seq (e # es) =
     (if \<not> hash_eq (prev_hash e) prev then Inl (ChainBroken i)
      else if (case last_seq of Some p \<Rightarrow> seq e \<le> p | None \<Rightarrow> False) then Inl (SeqNotMonotonic i)
      else if \<not> hash_eq (hash e) (compute_hash c e) then Inl (ChainBroken i)
      else verify_loop c (Suc i) (hash e) (Some (seq e)) es)"

definition verify_entries :: "('time, 'json) codec \<Rightarrow> ('time, 'json) audit_entry list \<Rightarrow> audit_error + unit" where
  "verify_entries c es = verify_loop c 0 [] None es"

section \<open>The log\<close>

text \<open>A sink holds the entries written to it. An append can fail before or after the entry is written.\<close>

datatype sink_outcome = Persisted | NotWritten | WrittenButFailed

record ('time, 'json) audit_log =
  entries :: "('time, 'json) audit_entry list"
  next_seq :: u64
  sink :: "('time, 'json) audit_entry list option"

definition sink_append ::
    "sink_outcome \<Rightarrow> ('time, 'json) audit_entry \<Rightarrow> ('time, 'json) audit_entry list \<Rightarrow> (audit_error + unit) \<times> ('time, 'json) audit_entry list" where
  "sink_append o' e stored =
     (case o' of
        Persisted \<Rightarrow> (Inr (), stored @ [e])
      | NotWritten \<Rightarrow> (Inl AuditIo, stored)
      | WrittenButFailed \<Rightarrow> (Inl AuditIo, stored @ [e]))"

definition log_new :: "('time, 'json) audit_log" where
  "log_new = \<lparr>entries = [], next_seq = 0, sink = None\<rparr>"

definition with_sink :: "('time, 'json) audit_log \<Rightarrow> ('time, 'json) audit_entry list \<Rightarrow> ('time, 'json) audit_log" where
  "with_sink self stored = self\<lparr>sink := Some stored\<rparr>"

definition from_entries :: "('time, 'json) codec \<Rightarrow> ('time, 'json) audit_entry list \<Rightarrow> audit_error + ('time, 'json) audit_log" where
  "from_entries c es =
     rbind (verify_entries c es) (\<lambda>_.
       Inr \<lparr>entries = es, next_seq = (if es = [] then 0 else seq (last es) + 1), sink = None\<rparr>)"

definition load_log :: "('time, 'json) codec \<Rightarrow> ('time, 'json) audit_entry list \<Rightarrow> audit_error + ('time, 'json) audit_log" where
  "load_log c stored = rbind (from_entries c stored) (\<lambda>al. Inr (al\<lparr>sink := Some stored\<rparr>))"

text \<open>The caller's part of an entry, with the fresh id and the current time.\<close>

record ('time, 'json) event =
  ev_id :: string
  ev_time :: 'time
  ev_actor :: string
  ev_action :: string
  ev_resource :: string
  ev_details :: 'json
  ev_severity :: severity
  ev_tenant :: "string option"

definition build_entry :: "('time, 'json) codec \<Rightarrow> ('time, 'json) audit_log \<Rightarrow> ('time, 'json) event \<Rightarrow> ('time, 'json) audit_entry" where
  "build_entry c self ev =
     (let e = \<lparr>entry_id = ev_id ev, seq = next_seq self, timestamp = ev_time ev,
               prev_hash = (if entries self = [] then [] else hash (last (entries self))), hash = [],
               actor = ev_actor ev, action = ev_action ev, resource = ev_resource ev, details = ev_details ev,
               severity = ev_severity ev, tenant_id = ev_tenant ev\<rparr>
      in e\<lparr>hash := compute_hash c e\<rparr>)"

definition push_entry :: "('time, 'json) audit_log \<Rightarrow> ('time, 'json) audit_entry \<Rightarrow> ('time, 'json) audit_log" where
  "push_entry self e = self\<lparr>next_seq := seq e + 1, entries := entries self @ [e]\<rparr>"

definition append_log ::
    "('time, 'json) codec \<Rightarrow> ('time, 'json) audit_log \<Rightarrow> ('time, 'json) event \<times> sink_outcome \<Rightarrow>
       (audit_error + ('time, 'json) audit_entry) \<times> ('time, 'json) audit_log" where
  "append_log c self evo =
     (let e = build_entry c self (fst evo) in
      case sink self of
        None \<Rightarrow> (Inr e, push_entry self e)
      | Some stored \<Rightarrow>
          (case sink_append (snd evo) e stored of
             (Inl err, stored') \<Rightarrow> (Inl err, self\<lparr>sink := Some stored'\<rparr>)
           | (Inr _, stored') \<Rightarrow> (Inr e, push_entry (self\<lparr>sink := Some stored'\<rparr>) e)))"

text \<open>\<open>None\<close> is the panic of the assertion.\<close>

definition append_in_memory ::
    "('time, 'json) codec \<Rightarrow> ('time, 'json) audit_log \<Rightarrow> ('time, 'json) event \<Rightarrow> (('time, 'json) audit_entry \<times> ('time, 'json) audit_log) option" where
  "append_in_memory c self ev =
     (if sink self \<noteq> None then None
      else let e = build_entry c self ev in Some (e, push_entry self e))"

definition verify_log :: "('time, 'json) codec \<Rightarrow> ('time, 'json) audit_log \<Rightarrow> nat + unit" where
  "verify_log c self =
     (case verify_entries c (entries self) of
        Inr _ \<Rightarrow> Inr ()
      | Inl (ChainBroken i) \<Rightarrow> Inl i
      | Inl (SeqNotMonotonic i) \<Rightarrow> Inl i
      | Inl _ \<Rightarrow> Inl 0)"

definition log_len :: "('time, 'json) audit_log \<Rightarrow> nat" where "log_len self = length (entries self)"

definition log_is_empty :: "('time, 'json) audit_log \<Rightarrow> bool" where "log_is_empty self = (entries self = [])"

definition by_actor :: "('time, 'json) audit_log \<Rightarrow> string \<Rightarrow> ('time, 'json) audit_entry list" where
  "by_actor self a = filter (\<lambda>e. actor e = a) (entries self)"

definition by_action :: "('time, 'json) audit_log \<Rightarrow> string \<Rightarrow> ('time, 'json) audit_entry list" where
  "by_action self a = filter (\<lambda>e. action e = a) (entries self)"

definition by_tenant :: "('time, 'json) audit_log \<Rightarrow> string \<Rightarrow> ('time, 'json) audit_entry list" where
  "by_tenant self t = filter (\<lambda>e. tenant_id e = Some t) (entries self)"

definition by_severity :: "('time, 'json) audit_log \<Rightarrow> severity \<Rightarrow> ('time, 'json) audit_entry list" where
  "by_severity self s = filter (\<lambda>e. severity e = s) (entries self)"

section \<open>The hash input determines the fields\<close>

lemma hash_eq_iff [simp]: "hash_eq a b \<longleftrightarrow> a = b"
  by (auto simp: hash_eq_def list.rel_eq)

lemma length_u64_to_be [simp]: "length (u64_to_be w) = 8"
  by (simp add: u64_to_be_def)

lemma u64_to_be_inj [simp]: "u64_to_be a = u64_to_be b \<longleftrightarrow> a = b"
proof
  assume "u64_to_be a = u64_to_be b"
  then have "be_int (u64_to_be a) = be_int (u64_to_be b)" by simp
  moreover have "uint w mod 256 ^ 8 = uint w" for w :: u64
    using uint_lt2p [of w] by (simp add: uint_idem)
  ultimately show "a = b" by (simp add: u64_to_be_def be_int_int_be word_uint_eq_iff)
qed simp

definition encode_fields :: "(string \<times> u8 list) list \<Rightarrow> u8 list" where
  "encode_fields fs = concat (map (\<lambda>(name, val). update_field [] name val) fs)"

lemma hash_input_encode: "hash_input c e = encode_fields (hash_fields c e)"
proof -
  have "foldl (\<lambda>h (name, val). update_field h name val) h fs = h @ encode_fields fs" for h fs
    by (induction fs arbitrary: h) (auto simp: encode_fields_def update_field_def)
  from this [of "[]"] show ?thesis by (simp add: hash_input_def)
qed

definition field_fits :: "string \<times> u8 list \<Rightarrow> bool" where
  "field_fits f = (length (fst f) < 2 ^ 64 \<and> length (snd f) < 2 ^ 64)"

lemma encode_fields_inj:
  "list_all field_fits fs \<Longrightarrow> list_all field_fits gs \<Longrightarrow> length fs = length gs \<Longrightarrow>
     encode_fields fs = encode_fields gs \<Longrightarrow> fs = gs"
proof (induction fs gs rule: list_induct2')
  case (4 f fs g gs)
  obtain n v m w where f: "f = (n, v)" "g = (m, w)" by (cases f; cases g)
  have len: "(of_nat a :: u64) = of_nat b \<longleftrightarrow> a = b" if "a < 2 ^ 64" "b < 2 ^ 64" for a b
    using that word_of_nat_inj_small [where 'a = 64] by simp
  have fits: "length n < 2 ^ 64" "length v < 2 ^ 64" "length m < 2 ^ 64" "length w < 2 ^ 64"
    using 4(2,3) by (auto simp: f field_fits_def)
  have e: "u64_to_be (of_nat (length n)) @ as_bytes n @ u64_to_be (of_nat (length v)) @ v @ encode_fields fs =
      u64_to_be (of_nat (length m)) @ as_bytes m @ u64_to_be (of_nat (length w)) @ w @ encode_fields gs"
    using 4(5) by (simp add: f encode_fields_def update_field_def)
  then have 1: "length n = length m" using fits len [of "length n" "length m"] by simp
  with e have 2: "n = m" "u64_to_be (of_nat (length v)) @ v @ encode_fields fs = u64_to_be (of_nat (length w)) @ w @ encode_fields gs"
    by auto
  then have "length v = length w" using fits len [of "length v" "length w"] by simp
  with 2 have "v = w" "encode_fields fs = encode_fields gs" by auto
  with 2 4 show ?case by (simp add: f)
qed simp_all

section \<open>Tamper evidence\<close>

definition head_hash :: "('time, 'json) audit_entry list \<Rightarrow> string" where
  "head_hash es = (if es = [] then [] else hash (last es))"

lemma verify_loop_snoc:
  "verify_loop c i prev ls (es @ [e]) = Inr () \<longleftrightarrow>
     verify_loop c i prev ls es = Inr () \<and> prev_hash e = (if es = [] then prev else hash (last es)) \<and>
     (case (if es = [] then ls else Some (seq (last es))) of Some p \<Rightarrow> \<not> seq e \<le> p | None \<Rightarrow> True) \<and>
     hash e = compute_hash c e"
  by (induction es arbitrary: i prev ls) (auto split: option.splits)

lemma verify_snoc:
  "verify_entries c (es @ [e]) = Inr () \<longleftrightarrow>
     verify_entries c es = Inr () \<and> prev_hash e = head_hash es \<and> (es \<noteq> [] \<longrightarrow> seq (last es) < seq e) \<and>
     hash e = compute_hash c e"
  by (auto simp: verify_entries_def verify_loop_snoc head_hash_def not_le split: option.splits)

lemma verify_Nil [simp]: "verify_entries c [] = Inr ()"
  by (simp add: verify_entries_def)

definition entry_fits :: "('time, 'json) codec \<Rightarrow> ('time, 'json) audit_entry \<Rightarrow> bool" where
  "entry_fits c e = list_all field_fits (hash_fields c e)"

text \<open>What the hash protects of an entry: every field as it is printed.\<close>

definition content ::
    "('time, 'json) codec \<Rightarrow> ('time, 'json) audit_entry \<Rightarrow>
       string \<times> u64 \<times> string \<times> string \<times> string \<times> string \<times> string \<times> string \<times> string \<times> severity \<times> string" where
  "content c e = (entry_id e, seq e, rfc3339 c (timestamp e), prev_hash e, hash e, actor e, action e, resource e,
     json_str c (details e), severity e, unwrap_or_empty (tenant_id e))"

lemma show_severity_inj: "show_severity a = show_severity b \<longleftrightarrow> a = b"
  by (cases a; cases b) (simp_all add: show_severity_def)

lemma same_input_same_content:
  assumes "entry_fits c e" "entry_fits c f" "hash_input c e = hash_input c f" "hash e = hash f"
  shows "content c e = content c f" "prev_hash e = prev_hash f"
proof -
  have "hash_fields c e = hash_fields c f"
    using assms(1-3) by (intro encode_fields_inj) (simp_all add: entry_fits_def hash_input_encode hash_fields_def)
  then show "content c e = content c f" "prev_hash e = prev_hash f"
    using assms(4) by (simp_all add: content_def hash_fields_def show_severity_inj)
qed

definition collision :: "(u8 list \<Rightarrow> string) \<Rightarrow> bool" where
  "collision d = (\<exists>x y. x \<noteq> y \<and> d x = d y)"

lemma same_head:
  assumes "verify_entries c es = Inr ()" "verify_entries c fs = Inr ()" "head_hash es = head_hash fs"
    and "list_all (entry_fits c) es" "list_all (entry_fits c) fs" "\<And>x. digest c x \<noteq> []"
  shows "map (content c) es = map (content c) fs \<or> collision (digest c)"
  using assms(1-5)
proof (induction es arbitrary: fs rule: rev_induct)
  case Nil
  show ?case
  proof (cases fs rule: rev_cases)
    case (snoc gs g)
    then show ?thesis
      using Nil assms(6) [of "hash_input c g"] by (auto simp: verify_snoc head_hash_def compute_hash_def split: if_splits)
  qed simp
next
  case (snoc e es)
  show ?case
  proof (cases fs rule: rev_cases)
    case Nil
    then show ?thesis using snoc.prems assms(6) by (simp add: verify_snoc head_hash_def compute_hash_def)
  next
    case f: (snoc gs g)
    have h: "hash e = hash g" using snoc.prems(3) f by (simp add: head_hash_def)
    then have d: "digest c (hash_input c e) = digest c (hash_input c g)"
      using snoc.prems(1,2) f by (simp add: verify_snoc compute_hash_def)
    show ?thesis
    proof (cases "hash_input c e = hash_input c g")
      case True
      then have s: "content c e = content c g" "prev_hash e = prev_hash g"
        using same_input_same_content [of c e g] h snoc.prems(4,5) f by simp_all
      then have "map (content c) es = map (content c) gs \<or> collision (digest c)"
        using snoc f by (simp add: verify_snoc)
      with s f show ?thesis by simp
    next
      case False
      with d show ?thesis unfolding collision_def by blast
    qed
  qed
qed


definition ex_codec :: "(nat, nat) codec" where
  "ex_codec = \<lparr>digest = (\<lambda>bs. ''h'' @ map (\<lambda>b. char_of (unat b)) bs), rfc3339 = show_nat, json_str = show_nat\<rparr>"

definition ex_event :: "string \<Rightarrow> (nat, nat) event" where
  "ex_event who = \<lparr>ev_id = ''i'', ev_time = 7, ev_actor = who, ev_action = ''login'', ev_resource = ''r'', ev_details = 1,
     ev_severity = Info, ev_tenant = None\<rparr>"

definition ex_entry :: "(nat, nat) audit_entry" where
  "ex_entry = build_entry ex_codec log_new (ex_event ''ann'')"


section \<open>Appending and reloading\<close>

definition run_log ::
    "('time, 'json) codec \<Rightarrow> ('time, 'json) audit_log \<Rightarrow> (('time, 'json) event \<times> sink_outcome) list \<Rightarrow> ('time, 'json) audit_log" where
  "run_log c al evs = foldl (\<lambda>l ev. snd (append_log c l ev)) al evs"

definition log_inv :: "('time, 'json) codec \<Rightarrow> ('time, 'json) audit_log \<Rightarrow> bool" where
  "log_inv c al = (verify_entries c (entries al) = Inr () \<and> sink al = Some (entries al) \<and>
     unat (next_seq al) = length (entries al) \<and> (entries al \<noteq> [] \<longrightarrow> next_seq al = seq (last (entries al)) + 1))"

lemma build_entry_simps [simp]:
  "seq (build_entry c al ev) = next_seq al"
  "prev_hash (build_entry c al ev) = head_hash (entries al)"
  "hash (build_entry c al ev) = compute_hash c (build_entry c al ev)"
  by (simp_all add: build_entry_def head_hash_def compute_hash_def hash_input_def hash_fields_def Let_def)

lemma inc_no_wrap: "w + 1 \<noteq> 0 \<Longrightarrow> w < w + 1" for w :: "'a::len word"
proof -
  assume w: "w + 1 \<noteq> 0"
  have "unat (w + 1) = unat w + 1"
  proof (rule ccontr)
    assume "unat (w + 1) \<noteq> unat w + 1"
    then have "w = - 1" using unat_inc_less [of w "- 1"] by (metis word_order.not_eq_extremum)
    with w show False by simp
  qed
  then show ?thesis by (simp add: word_less_nat_alt)
qed

lemma load_entries:
  assumes "log_inv c l"
  shows "load_log c (entries l) = Inr l"
proof -
  have v: "verify_entries c (entries l) = Inr ()" "sink l = Some (entries l)"
    and n: "next_seq l = (if entries l = [] then 0 else seq (last (entries l)) + 1)"
    using assms by (auto simp: log_inv_def unat_eq_0)
  have "load_log c (entries l) =
      Inr \<lparr>entries = entries l, next_seq = (if entries l = [] then 0 else seq (last (entries l)) + 1), sink = Some (entries l)\<rparr>"
    by (simp add: load_log_def from_entries_def v)
  also have "\<dots> = Inr l" unfolding n [symmetric] using v(2) by simp
  finally show ?thesis .
qed

lemma build_entry_verifies:
  assumes "log_inv c al"
  shows "verify_entries c (entries al @ [build_entry c al ev]) = Inr ()"
proof -
  have "seq (last (entries al)) < next_seq al" if "entries al \<noteq> []"
  proof -
    have "next_seq al \<noteq> 0" using assms that by (auto simp: log_inv_def unat_eq_0)
    moreover have "next_seq al = seq (last (entries al)) + 1" using assms that by (simp add: log_inv_def)
    ultimately show ?thesis by (simp add: inc_no_wrap)
  qed
  then show ?thesis using assms by (simp add: verify_snoc log_inv_def)
qed

lemma log_inv_append:
  assumes "log_inv c al" "length (entries al) + 1 < 2 ^ 64" "snd ev \<noteq> WrittenButFailed"
  shows "log_inv c (snd (append_log c al ev)) \<and> length (entries (snd (append_log c al ev))) \<le> length (entries al) + 1"
proof -
  have "unat (next_seq al + 1) = length (entries al) + 1"
    using assms(1,2) by (simp add: log_inv_def unat_word_ariths)
  then show ?thesis
    using assms build_entry_verifies [OF assms(1), of "fst ev"]
    by (cases "snd ev") (auto simp: append_log_def sink_append_def push_entry_def log_inv_def Let_def)
qed

lemma run_log_inv:
  "log_inv c al \<Longrightarrow> length (entries al) + length evs < 2 ^ 64 \<Longrightarrow> \<forall>ev \<in> set evs. snd ev \<noteq> WrittenButFailed \<Longrightarrow>
     log_inv c (run_log c al evs)"
proof (induction evs arbitrary: al)
  case (Cons ev evs)
  then show ?case using log_inv_append [of c al ev] by (simp add: run_log_def)
qed (simp add: run_log_def)



text \<open>
  A write that reaches the sink but reports failure breaks the log for good: the entry is not kept in
  memory, the next append reuses its number and its predecessor, and the stored file no longer loads.
\<close>

theorem failed_sync_breaks_log:
  assumes "log_inv c al"
  shows "\<exists>stored. sink (run_log c al [(ev1, WrittenButFailed), (ev2, Persisted)]) = Some stored \<and>
    \<not> is_ok (load_log c stored)"
proof -
  let ?e1 = "build_entry c al ev1" and ?l1 = "al\<lparr>sink := Some (entries al @ [build_entry c al ev1])\<rparr>"
  have b: "build_entry c ?l1 ev2 = build_entry c al ev2" by (simp add: build_entry_def)
  have s: "sink (run_log c al [(ev1, WrittenButFailed), (ev2, Persisted)]) =
      Some ((entries al @ [?e1]) @ [build_entry c al ev2])"
    using assms b by (simp add: run_log_def append_log_def sink_append_def push_entry_def log_inv_def Let_def)
  have "verify_entries c ((entries al @ [?e1]) @ [build_entry c al ev2]) \<noteq> Inr ()"
    by (subst verify_snoc) simp
  then have "\<not> is_ok (load_log c ((entries al @ [?e1]) @ [build_entry c al ev2]))"
    by (auto simp: load_log_def from_entries_def rbind_def is_ok_def split: sum.splits)
  with s show ?thesis by blast
qed

theorem failed_sync_breaks_log_witness:
  "\<exists>stored. sink (run_log ex_codec (with_sink log_new []) [(ex_event ''a'', WrittenButFailed), (ex_event ''b'', Persisted)]) = Some stored \<and>
    \<not> is_ok (load_log ex_codec stored)"
  by (rule failed_sync_breaks_log) (simp add: log_inv_def with_sink_def log_new_def)

section \<open>What verification reports\<close>

lemma verify_loop_error:
  "verify_loop c i prev ls es = Inl err \<Longrightarrow>
     \<exists>k < length es. (err = ChainBroken (i + k) \<or> err = SeqNotMonotonic (i + k)) \<and>
       verify_loop c i prev ls (take k es) = Inr () \<and> verify_loop c i prev ls (take (Suc k) es) \<noteq> Inr ()"
proof (induction es arbitrary: i prev ls)
  case (Cons e es)
  show ?case
  proof (cases "verify_loop c i prev ls [e] = Inr ()")
    case True
    then have ok: "prev_hash e = prev" "hash e = compute_hash c e" "\<not> (case ls of Some p \<Rightarrow> seq e \<le> p | None \<Rightarrow> False)"
      by (auto split: if_splits)
    then have "verify_loop c (Suc i) (hash e) (Some (seq e)) es = Inl err" using Cons.prems by simp
    from Cons.IH [OF this] obtain k where "k < length es" "err = ChainBroken (Suc i + k) \<or> err = SeqNotMonotonic (Suc i + k)"
      "verify_loop c (Suc i) (hash e) (Some (seq e)) (take k es) = Inr ()"
      "verify_loop c (Suc i) (hash e) (Some (seq e)) (take (Suc k) es) \<noteq> Inr ()" by blast
    with ok show ?thesis by (intro exI [of _ "Suc k"]) simp
  next
    case False
    then show ?thesis using Cons.prems by (intro exI [of _ 0]) (auto split: if_splits)
  qed
qed simp

text \<open>
  Verification reports the first bad entry: the entries before the reported index verify, and the
  entries up to and including it do not. Deleting entries at the end is not noticed: every prefix of a
  log that verifies also verifies.
\<close>

theorem verify_reports_first:
  "(case verify_entries c es of
      Inr _ \<Rightarrow> verify_entries c (take n es) = Inr ()
    | Inl err \<Rightarrow> \<exists>k < length es. (err = ChainBroken k \<or> err = SeqNotMonotonic k) \<and>
        verify_entries c (take k es) = Inr () \<and> verify_entries c (take (Suc k) es) \<noteq> Inr ())"
proof (cases "verify_entries c es")
  case (Inl err)
  then show ?thesis using verify_loop_error [of c 0 "[]" None es err] by (simp add: verify_entries_def)
next
  case (Inr u)
  have "verify_entries c (xs @ ys) = Inr () \<Longrightarrow> verify_entries c xs = Inr ()" for xs ys
    by (induction ys rule: rev_induct) (simp_all add: verify_snoc flip: append_assoc)
  from this [of "take n es" "drop n es"] Inr show ?thesis by simp
qed

end
