(* ===== verification/Rust_Float.thy ===== *)
theory Rust_Float
  imports Rust_Std
begin

text \<open>
  The floating-point operations the program uses. An \<open>f64\<close> is a rational, an infinity or NaN (the two
  zeros are one, so a division by zero takes the sign of the dividend); multiplication, division and the conversion from integers round to nearest, ties to even, with 53
  bits of significand.
\<close>

datatype f64 = NaN | Infinite bool | Fin rat

fun bit_count :: "nat \<Rightarrow> nat" where
  "bit_count n = (if n = 0 then 0 else Suc (bit_count (n div 2)))"

declare bit_count.simps [simp del]

definition round_half_even :: "rat \<Rightarrow> int" where
  "round_half_even x =
     (let f = floor x; d = x - of_int f in
      if d < 1 / 2 then f else if 1 / 2 < d then f + 1 else if even f then f else f + 1)"

text \<open>The exponent of the last place: the significand has 53 bits, subnormals end at \<open>2 ^ -1074\<close>.\<close>

definition ulp_exp :: "rat \<Rightarrow> int" where
  "ulp_exp x =
     (let (p, q) = quotient_of \<bar>x\<bar>; e = int (bit_count (nat p)) - int (bit_count (nat q)) in
      max (-1074) (if \<bar>x\<bar> < 2 powi e then e - 53 else e - 52))"

definition round_f64 :: "rat \<Rightarrow> f64" where
  "round_f64 x =
     (let e = ulp_exp x; r = of_int (round_half_even (x / 2 powi e)) * 2 powi e in
      if 2 ^ 1024 \<le> \<bar>r\<bar> then Infinite (r < 0) else Fin r)"

definition f64_of_nat :: "nat \<Rightarrow> f64" where
  "f64_of_nat n = round_f64 (of_nat n)"

fun f64_mul :: "f64 \<Rightarrow> f64 \<Rightarrow> f64" where
  "f64_mul (Fin a) (Fin b) = round_f64 (a * b)"
| "f64_mul (Infinite s) (Infinite t) = Infinite (s \<noteq> t)"
| "f64_mul (Infinite s) (Fin b) = (if b = 0 then NaN else Infinite (s \<noteq> (b < 0)))"
| "f64_mul (Fin a) (Infinite t) = (if a = 0 then NaN else Infinite ((a < 0) \<noteq> t))"
| "f64_mul _ _ = NaN"

fun f64_div :: "f64 \<Rightarrow> f64 \<Rightarrow> f64" where
  "f64_div (Fin a) (Fin b) = (if b = 0 then (if a = 0 then NaN else Infinite (a < 0)) else round_f64 (a / b))"
| "f64_div (Infinite s) (Fin b) = Infinite (s \<noteq> (b < 0))"
| "f64_div (Fin a) (Infinite t) = Fin 0"
| "f64_div _ _ = NaN"

fun f64_less :: "f64 \<Rightarrow> f64 \<Rightarrow> bool" where
  "f64_less (Fin a) (Fin b) = (a < b)"
| "f64_less (Infinite s) (Infinite t) = (s \<and> \<not> t)"
| "f64_less (Infinite s) (Fin b) = s"
| "f64_less (Fin a) (Infinite t) = (\<not> t)"
| "f64_less _ _ = False"

definition f64_min :: "f64 \<Rightarrow> f64 \<Rightarrow> f64" where
  "f64_min a b = (if a = NaN then b else if b = NaN then a else if f64_less b a then b else a)"

definition f64_max :: "f64 \<Rightarrow> f64 \<Rightarrow> f64" where
  "f64_max a b = (if a = NaN then b else if b = NaN then a else if f64_less a b then b else a)"

definition is_finite :: "f64 \<Rightarrow> bool" where
  "is_finite x = (case x of Fin _ \<Rightarrow> True | _ \<Rightarrow> False)"

text \<open>The cast \<open>as u64\<close> truncates and saturates.\<close>

definition f64_as_u64 :: "f64 \<Rightarrow> nat" where
  "f64_as_u64 x =
     (case x of
        NaN \<Rightarrow> 0
      | Infinite s \<Rightarrow> if s then 0 else 2 ^ 64 - 1
      | Fin r \<Rightarrow> min (nat (floor r)) (2 ^ 64 - 1))"

section \<open>Exactness and bounds\<close>

lemma bit_count_bounds: "0 < n \<Longrightarrow> 2 ^ (bit_count n - 1) \<le> n \<and> n < 2 ^ bit_count n \<and> 0 < bit_count n"
proof (induction n rule: less_induct)
  case (less n)
  have c: "bit_count n = Suc (bit_count (n div 2))"
    using less.prems by (simp add: bit_count.simps [of n])
  show ?case
  proof (cases "n = 1")
    case True
    then show ?thesis by (simp add: bit_count.simps)
  next
    case False
    then have *: "2 ^ (bit_count (n div 2) - 1) \<le> n div 2" "n div 2 < 2 ^ bit_count (n div 2)"
        "0 < bit_count (n div 2)"
      using less.IH [of "n div 2"] less.prems by auto
    obtain b where b: "bit_count (n div 2) = Suc b"
      using * by (cases "bit_count (n div 2)") auto
    show ?thesis
      using * unfolding c b by auto
  qed
qed

lemma round_half_even_int [simp]: "round_half_even (of_int k) = k"
  by (simp add: round_half_even_def)

lemma f64_of_nat_exact:
  assumes "n < 2 ^ 53"
  shows "f64_of_nat n = Fin (of_nat n)"
proof (cases "n = 0")
  case True
  then show ?thesis
    by (simp add: f64_of_nat_def round_f64_def round_half_even_int [of 0, simplified] Let_def)
next
  case False
  define b where "b = bit_count n"
  have bounds: "2 ^ (b - 1) \<le> n" "n < 2 ^ b" "0 < b"
    using bit_count_bounds [of n] False by (auto simp: b_def)
  have "(2 :: nat) ^ (b - 1) < 2 ^ 53" using bounds(1) assms by linarith
  then have "b - 1 < 53" by (rule power_less_imp_less_exp [rotated]) simp
  then have "b \<le> 53" by simp
  have q: "quotient_of (of_nat n) = (int n, 1)"
    unfolding Fract_of_nat_eq [symmetric] quotient_of_Fract by (simp add: Rat.normalize_def)
  have one: "bit_count (Suc 0) = 1" by (simp add: bit_count.simps)
  have ge: "\<not> (of_nat n :: rat) < 2 powi (int b - 1)"
  proof -
    have "(2 :: rat) powi (int b - 1) = 2 ^ (b - 1)"
      using bounds(3) by (metis One_nat_def Suc_leI of_nat_1 of_nat_diff power_int_of_nat)
    also have "\<dots> \<le> of_nat n" using bounds(1) by (metis of_nat_le_iff of_nat_numeral of_nat_power)
    finally show ?thesis by simp
  qed
  have e: "ulp_exp (of_nat n) = int b - 53"
    using ge by (simp add: ulp_exp_def q b_def [symmetric] one Let_def)
  define k where "k = 53 - b"
  have k: "int b - 53 = - int k" using \<open>b \<le> 53\<close> by (simp add: k_def)
  have "(of_nat n :: rat) / 2 powi (- int k) = of_int (int n * 2 ^ k)"
    by (simp add: power_int_minus divide_inverse)
  then have r: "of_int (round_half_even (of_nat n / 2 powi (- int k))) * 2 powi (- int k) = (of_nat n :: rat)"
    by (simp only: round_half_even_int) (simp add: power_int_minus)
  have "(of_nat n :: rat) < 2 ^ 53"
    using assms by (metis of_nat_less_iff of_nat_numeral of_nat_power)
  also have "\<dots> < 2 ^ 1024" by (rule power_strict_increasing) auto
  finally show ?thesis
    by (simp add: f64_of_nat_def round_f64_def e k r Let_def)
qed

lemma round_half_even_le: "x \<le> of_int k \<Longrightarrow> round_half_even x \<le> k"
proof -
  assume x: "x \<le> of_int k"
  have fl: "floor x \<le> k" using x by (simp add: floor_le_iff)
  show ?thesis
  proof (cases "floor x = k")
    case True
    then have "x = of_int k" using x by linarith
    then show ?thesis by simp
  next
    case False
    then show ?thesis using fl by (auto simp: round_half_even_def Let_def)
  qed
qed

lemma round_half_even_nonneg: "0 \<le> x \<Longrightarrow> 0 \<le> round_half_even x"
  by (auto simp: round_half_even_def Let_def)

lemma ulp_exp_small:
  assumes "0 \<le> x" "x < 2 ^ 53"
  shows "ulp_exp x \<le> 0"
proof -
  obtain p q where pq: "quotient_of x = (p, q)" by fastforce
  have q: "0 < q" using pq by (rule quotient_of_denom_pos)
  have x: "x = of_int p / of_int q" using pq by (rule quotient_of_div)
  have p: "0 \<le> p" using assms(1) q by (simp add: x zero_le_divide_iff)
  define e where "e = int (bit_count (nat p)) - int (bit_count (nat q))"
  have pow: "2 powi k < (2 :: rat) powi 53 \<Longrightarrow> k < 53" for k :: int
    by (metis not_less one_le_numeral power_int_increasing)
  have "e \<le> 53"
  proof (cases "p = 0")
    case True
    then show ?thesis by (simp add: e_def bit_count.simps [of 0])
  next
    case False
    let ?a = "bit_count (nat p)" and ?b = "bit_count (nat q)"
    have "2 ^ (?a - 1) \<le> nat p" "0 < ?a" "nat q < 2 ^ ?b"
      using bit_count_bounds [of "nat p"] bit_count_bounds [of "nat q"] p q False by auto
    then have "(2 :: int) ^ (?a - 1) \<le> p" "q < 2 ^ ?b"
      using p q by (simp_all add: nat_less_iff le_nat_iff)
    then have "(of_int (2 ^ (?a - 1)) :: rat) \<le> of_int p" "(of_int q :: rat) < of_int (2 ^ ?b)"
      by (simp_all only: of_int_le_iff of_int_less_iff)
    then have b: "(2 :: rat) ^ (?a - 1) \<le> of_int p" "of_int q < (2 :: rat) ^ ?b" by simp_all
    have "(2 :: rat) powi (e - 1) = 2 ^ (?a - 1) / 2 ^ ?b"
      using \<open>0 < ?a\<close> by (simp add: e_def power_int_diff of_nat_diff flip: power_int_of_nat)
    also have "\<dots> < of_int p / of_int q"
      using b q by (intro frac_less2) auto
    finally have "(2 :: rat) powi (e - 1) < 2 powi 53" using assms(2) x by simp
    then show ?thesis using pow [of "e - 1"] by simp
  qed
  moreover have "e \<le> 52" if "\<not> x < 2 powi e"
    using that assms(2) pow [of e] by simp
  ultimately show ?thesis
    using assms(1) by (simp add: ulp_exp_def pq e_def [symmetric] Let_def)
qed

text \<open>Rounding does not pass an integer, for numbers below \<open>2 ^ 53\<close>.\<close>

lemma round_f64_le:
  assumes "0 \<le> x" "x \<le> of_nat n" "n < 2 ^ 53"
  shows "\<exists>r. round_f64 x = Fin r \<and> 0 \<le> r \<and> r \<le> of_nat n"
proof -
  have n: "(of_nat n :: rat) < 2 ^ 53"
    using assms(3) by (metis of_nat_less_iff of_nat_numeral of_nat_power)
  obtain k where k: "ulp_exp x = - int k"
    using ulp_exp_small [of x] assms n by (metis le_less_trans neg_0_le_iff_le minus_minus nonneg_int_cases)
  let ?z = "x / 2 powi (- int k)" and ?r = "of_int (round_half_even (x / 2 powi (- int k))) * (2 :: rat) powi (- int k)"
  have z: "?z = x * 2 ^ k" by (simp add: power_int_minus divide_inverse)
  have "?z \<le> of_nat n * 2 ^ k" unfolding z by (intro mult_right_mono assms(2)) simp
  then have "?z \<le> of_int (int n * 2 ^ k)" by simp
  then have "round_half_even ?z \<le> int n * 2 ^ k" by (rule round_half_even_le)
  then have "(of_int (round_half_even ?z) :: rat) \<le> of_int (int n * 2 ^ k)" by (simp only: of_int_le_iff)
  then have "?r \<le> of_int (int n * 2 ^ k) * 2 powi (- int k)" by (intro mult_right_mono) simp_all
  also have "\<dots> = of_nat n" by (simp add: power_int_minus)
  finally have le: "?r \<le> of_nat n" .
  have ge: "0 \<le> ?r" using assms(1) by (simp add: round_half_even_nonneg)
  have "(2 :: rat) ^ 53 < 2 ^ 1024" by (rule power_strict_increasing) auto
  then have "\<not> 2 ^ 1024 \<le> \<bar>?r\<bar>" using le ge n by linarith
  then show ?thesis using le ge by (simp add: round_f64_def k Let_def)
qed

end
