(* ===== verification/Jobs.thy ===== *)
theory Jobs
  imports Rust_Float
begin

text \<open>
  The agent's jobs (\<open>crates/runesh-jobs\<close>): tasks, retry delays and the queue (\<open>task.rs\<close>), and the
  executor with its allowlist and its verifier (\<open>executor.rs\<close>), on a Unix host.

  Durations and instants are nanoseconds (\<open>nat\<close>; the difference of two instants saturates at zero as
  \<open>Instant::duration_since\<close> does). Every clock reading is an argument. Floating point is
  \<open>Rust_Float\<close>; \<open>powi\<close> is an argument, because the language leaves its rounding open, and so is the random jitter. The JSON
  value of the parameters is read through the accessors of \<open>json_api\<close> (serde_json), and the process
  that a command starts is a function of the host, which answers how it ended.
\<close>

section \<open>Tasks\<close>

datatype task_type =
  CollectInventory | RunCommand | RunScript | InstallPackage | RemovePackage | StartService | StopService
| RestartService | ApplyBaseline | CheckCompliance | SelfUpdate | RotateNodeKey | DiagnosticBundle
| ScheduleReboot | Custom string

datatype task_status = Queued | Running | Completed | Failed | Cancelled | Skipped

datatype backoff_strategy = Fixed | Exponential nat f64 nat | ExponentialJitter nat f64 nat

record retry_policy =
  max_retries :: u32
  retry_count :: u32
  delay_secs :: u64
  backoff :: backoff_strategy

record 'json task_result =
  exit_code :: int
  stdout :: string
  stderr :: string
  data :: "'json option"
  duration_ms :: u64

record 'json agent_task =
  task_id :: string
  idempotency_key :: "string option"
  task_type :: task_type
  params :: 'json
  status :: task_status
  retry :: retry_policy
  timeout_secs :: u64
  result :: "'json task_result option"

section \<open>Retry delays\<close>

definition from_secs :: "nat \<Rightarrow> nat" where "from_secs s = s * 1000000000"

definition from_millis :: "nat \<Rightarrow> nat" where "from_millis ms = ms * 1000000"

definition as_millis :: "nat \<Rightarrow> nat" where "as_millis d = d div 1000000"

definition default_jittered :: backoff_strategy where
  "default_jittered = ExponentialJitter (from_secs 1) (Fin 2) (from_secs 300)"

definition exp_raw :: "(f64 \<Rightarrow> int \<Rightarrow> f64) \<Rightarrow> nat \<Rightarrow> f64 \<Rightarrow> nat \<Rightarrow> u32 \<Rightarrow> nat" where
  "exp_raw pow_i base factor mx attempt =
     (let attempt = min attempt 32;
          base_ms = f64_of_nat (as_millis base);
          factor = f64_max factor (Fin 1);
          raw_ms = f64_mul base_ms (pow_i factor (sint attempt));
          cap_ms = f64_of_nat (as_millis mx);
          clamped = f64_min raw_ms cap_ms
      in if \<not> is_finite clamped \<or> f64_less clamped (Fin 0) then mx
         else from_millis (f64_as_u64 clamped))"

definition next_retry_delay :: "(f64 \<Rightarrow> int \<Rightarrow> f64) \<Rightarrow> f64 \<Rightarrow> backoff_strategy \<Rightarrow> u32 \<Rightarrow> nat \<Rightarrow> nat" where
  "next_retry_delay pow_i jitter self attempt fixed_fallback =
     (case self of
        Fixed \<Rightarrow> fixed_fallback
      | Exponential base factor mx \<Rightarrow> exp_raw pow_i base factor mx attempt
      | ExponentialJitter base factor mx \<Rightarrow>
          (let deterministic = exp_raw pow_i base factor mx attempt;
               ms = f64_as_u64 (f64_mul (f64_of_nat (as_millis deterministic)) jitter)
           in min (from_millis ms) mx))"

definition default_retry :: retry_policy where
  "default_retry = \<lparr>max_retries = 3, retry_count = 0, delay_secs = 30, backoff = default_jittered\<rparr>"

definition next_delay :: "(f64 \<Rightarrow> int \<Rightarrow> f64) \<Rightarrow> f64 \<Rightarrow> retry_policy \<Rightarrow> nat" where
  "next_delay pow_i jitter self =
     next_retry_delay pow_i jitter (backoff self) (retry_count self) (from_secs (unat (delay_secs self)))"

section \<open>The life of a task\<close>

definition can_retry :: "'json agent_task \<Rightarrow> bool" where
  "can_retry t = (status t = Failed \<and> retry_count (retry t) < max_retries (retry t))"

definition start :: "'json agent_task \<Rightarrow> 'json agent_task" where
  "start t = t\<lparr>status := Running\<rparr>"

definition complete :: "'json task_result \<Rightarrow> 'json agent_task \<Rightarrow> 'json agent_task" where
  "complete r t = t\<lparr>status := (if exit_code r = 0 then Completed else Failed), result := Some r\<rparr>"

definition record_retry :: "'json agent_task \<Rightarrow> 'json agent_task" where
  "record_retry t = t\<lparr>retry := (retry t)\<lparr>retry_count := retry_count (retry t) + 1\<rparr>\<rparr>"

section \<open>The queue\<close>

record 'json task_queue =
  tasks :: "'json agent_task list"
  seen_keys :: "(string, nat) hash_map"
  idempotency_window :: nat

definition with_idempotency_window :: "nat \<Rightarrow> 'json task_queue" where
  "with_idempotency_window w = \<lparr>tasks = [], seen_keys = [], idempotency_window = w\<rparr>"

definition queue_new :: "'json task_queue" where
  "queue_new = with_idempotency_window (from_secs 86400)"

definition evict_expired_keys :: "nat \<Rightarrow> 'json task_queue \<Rightarrow> 'json task_queue" where
  "evict_expired_keys cutoff q =
     q\<lparr>seen_keys := hm_retain (\<lambda>_ seen_at. cutoff - seen_at < idempotency_window q) (seen_keys q)\<rparr>"

text \<open>The three readings of the clock: at the eviction, at the test and at the insertion.\<close>

definition enqueue :: "nat \<Rightarrow> nat \<Rightarrow> nat \<Rightarrow> 'json agent_task \<Rightarrow> 'json task_queue \<Rightarrow> bool \<times> 'json task_queue" where
  "enqueue t1 t2 t3 task q =
     (let q = evict_expired_keys t1 q;
          accept = (\<lambda>q. (True, q\<lparr>tasks := tasks q @ [task\<lparr>status := Queued\<rparr>]\<rparr>))
      in case idempotency_key task of
           None \<Rightarrow> accept q
         | Some key \<Rightarrow>
             if (case hm_get (seen_keys q) key of
                   Some seen_at \<Rightarrow> t2 - seen_at < idempotency_window q
                 | None \<Rightarrow> False)
             then (False, q\<lparr>tasks := tasks q @ [task\<lparr>status := Skipped\<rparr>]\<rparr>)
             else accept (q\<lparr>seen_keys := hm_insert key t3 (seen_keys q)\<rparr>))"

definition idempotency_key_count :: "'json task_queue \<Rightarrow> nat" where
  "idempotency_key_count q = length (seen_keys q)"

text \<open>
  \<open>next_pending\<close> hands out a mutable reference to the first queued task; \<open>f\<close> is what the caller does
  through it.
\<close>

fun update_first :: "('a \<Rightarrow> bool) \<Rightarrow> ('a \<Rightarrow> 'a) \<Rightarrow> 'a list \<Rightarrow> 'a list" where
  "update_first P f [] = []"
| "update_first P f (x # xs) = (if P x then f x # xs else x # update_first P f xs)"

definition next_pending :: "('json agent_task \<Rightarrow> 'json agent_task) \<Rightarrow> 'json task_queue \<Rightarrow> 'json agent_task option \<times> 'json task_queue" where
  "next_pending f q =
     (find (\<lambda>t. status t = Queued) (tasks q), q\<lparr>tasks := update_first (\<lambda>t. status t = Queued) f (tasks q)\<rparr>)"

definition pending_count :: "'json task_queue \<Rightarrow> nat" where
  "pending_count q = length (filter (\<lambda>t. status t = Queued) (tasks q))"

definition completed_count :: "'json task_queue \<Rightarrow> nat" where
  "completed_count q = length (filter (\<lambda>t. status t = Completed) (tasks q))"

text \<open>The loop of \<open>retain\<close> with its counter \<open>completed\<close>.\<close>

fun prune_loop :: "nat \<Rightarrow> nat \<Rightarrow> 'json agent_task list \<Rightarrow> 'json agent_task list" where
  "prune_loop max_completed completed [] = []"
| "prune_loop max_completed completed (t # ts) =
     (if status t = Completed \<or> status t = Failed then
        let completed = completed + 1 in
        (if completed \<le> max_completed then [t] else []) @ prune_loop max_completed completed ts
      else t # prune_loop max_completed completed ts)"

definition prune :: "nat \<Rightarrow> 'json task_queue \<Rightarrow> 'json task_queue" where
  "prune max_completed q = q\<lparr>tasks := prune_loop max_completed 0 (tasks q)\<rparr>"

section \<open>The executor\<close>

record 'json json_api =
  jget :: "'json \<Rightarrow> string \<Rightarrow> 'json option"
  jstr :: "'json \<Rightarrow> string option"
  jarr :: "'json \<Rightarrow> 'json list option"
  ju64 :: "'json \<Rightarrow> u64 option"

record invocation =
  command :: string
  args :: "string list"
  timeout :: u64
  working_dir :: "string option"

datatype proc_outcome = Exited "int option" "u8 list" "u8 list" | ProcessError string | SpawnError string | TimedOut

text \<open>What the executor uses of its host: the processes it starts and how long they take.\<close>

record host =
  mac_os :: bool
  path_exists :: "string \<Rightarrow> bool"
  run_process :: "invocation \<Rightarrow> proc_outcome \<times> u64"
  utf8_lossy :: "u8 list \<Rightarrow> string"
  escape_debug :: "string \<Rightarrow> string"

type_synonym command_allowlist = "component list list"

definition from_paths :: "string list \<Rightarrow> command_allowlist" where
  "from_paths paths = remdups (map components paths)"

definition allow :: "string \<Rightarrow> command_allowlist \<Rightarrow> command_allowlist" where
  "allow p al = List.insert (components p) al"

definition is_allowed :: "command_allowlist \<Rightarrow> string \<Rightarrow> bool" where
  "is_allowed al cmd = (if al = [] then False else components cmd \<in> set al)"

datatype verify_error = ScriptsDisabled | NotAllowlisted string | OtherReason string

definition show_verify_error :: "verify_error \<Rightarrow> string" where
  "show_verify_error e =
     (case e of
        ScriptsDisabled \<Rightarrow> ''scripts are disabled by policy''
      | NotAllowlisted s \<Rightarrow> ''binary not on allowlist: '' @ s
      | OtherReason s \<Rightarrow> ''rejected by policy: '' @ s)"

definition reject_scripts :: "'json agent_task \<Rightarrow> verify_error + unit" where
  "reject_scripts t = (if task_type t = RunScript then Inl ScriptsDisabled else Inr ())"

record 'json executor =
  allowlist :: command_allowlist
  verifier :: "'json agent_task \<Rightarrow> verify_error + unit"

definition with_allowlist :: "command_allowlist \<Rightarrow> 'json executor" where
  "with_allowlist al = \<lparr>allowlist = al, verifier = reject_scripts\<rparr>"

definition with_verifier :: "('json agent_task \<Rightarrow> verify_error + unit) \<Rightarrow> 'json executor \<Rightarrow> 'json executor" where
  "with_verifier v ex = ex\<lparr>verifier := v\<rparr>"

definition failure :: "string \<Rightarrow> u64 \<Rightarrow> 'json task_result" where
  "failure err ms = \<lparr>exit_code = -1, stdout = [], stderr = err, data = None, duration_ms = ms\<rparr>"

text \<open>The commands below return the processes they started with the result.\<close>

definition execute_command :: "host \<Rightarrow> invocation \<Rightarrow> invocation list \<times> 'json task_result" where
  "execute_command h i =
     ([i],
      case run_process h i of
        (Exited code out err, ms) \<Rightarrow>
          \<lparr>exit_code = (case code of Some c \<Rightarrow> c | None \<Rightarrow> -1), stdout = utf8_lossy h out, stderr = utf8_lossy h err,
           data = None, duration_ms = ms\<rparr>
      | (ProcessError e, ms) \<Rightarrow> failure (''process error: '' @ e) ms
      | (SpawnError e, ms) \<Rightarrow> failure (''spawn error: '' @ e) ms
      | (TimedOut, ms) \<Rightarrow> failure (''timeout after '' @ show_nat (unat (timeout i)) @ ''s'') ms)"

definition execute_command_guarded :: "host \<Rightarrow> command_allowlist \<Rightarrow> invocation \<Rightarrow> invocation list \<times> 'json task_result" where
  "execute_command_guarded h al i =
     (if \<not> is_allowed al (command i) then ([], failure (''command '' @ command i @ '' not on allowlist'') 0)
      else execute_command h i)"

definition run_guarded :: "host \<Rightarrow> command_allowlist option \<Rightarrow> invocation \<Rightarrow> invocation list \<times> 'json task_result" where
  "run_guarded h al i = (case al of Some al \<Rightarrow> execute_command_guarded h al i | None \<Rightarrow> execute_command h i)"

definition platform_pkg_install :: "host \<Rightarrow> string \<Rightarrow> string \<times> string list" where
  "platform_pkg_install h package =
     (if mac_os h then (''brew'', [''install'', package])
      else if path_exists h ''/usr/bin/apt-get'' then (''apt-get'', [''install'', ''-y'', package])
      else if path_exists h ''/usr/bin/dnf'' then (''dnf'', [''install'', ''-y'', package])
      else if path_exists h ''/usr/bin/pacman'' then (''pacman'', [''-S'', ''--noconfirm'', package])
      else (''echo'', [''no package manager found for '' @ package]))"

definition platform_pkg_remove :: "host \<Rightarrow> string \<Rightarrow> string \<times> string list" where
  "platform_pkg_remove h package =
     (if mac_os h then (''brew'', [''uninstall'', package])
      else if path_exists h ''/usr/bin/apt-get'' then (''apt-get'', [''remove'', ''-y'', package])
      else if path_exists h ''/usr/bin/dnf'' then (''dnf'', [''remove'', ''-y'', package])
      else if path_exists h ''/usr/bin/pacman'' then (''pacman'', [''-R'', ''--noconfirm'', package])
      else (''echo'', [''no package manager found for '' @ package]))"

definition platform_svc_action :: "host \<Rightarrow> string \<Rightarrow> string \<Rightarrow> string \<times> string list" where
  "platform_svc_action h service act =
     (if mac_os h then
        let launchctl_action =
          (if act = ''start'' then ''load'' else if act = ''stop'' then ''unload''
           else if act = ''restart'' then ''kickstart'' else act)
        in (''launchctl'', [launchctl_action, service])
      else (''systemctl'', [act, service]))"

definition platform_reboot :: "u64 \<Rightarrow> string \<times> string list" where
  "platform_reboot delay =
     (let minutes = max (delay div 60) 1 in (''shutdown'', [''-r'', CHR ''+'' # show_nat (unat minutes)]))"

definition debug_task_type :: "host \<Rightarrow> task_type \<Rightarrow> string" where
  "debug_task_type h ty =
     (case ty of
        CollectInventory \<Rightarrow> ''CollectInventory'' | RunCommand \<Rightarrow> ''RunCommand'' | RunScript \<Rightarrow> ''RunScript''
      | InstallPackage \<Rightarrow> ''InstallPackage'' | RemovePackage \<Rightarrow> ''RemovePackage'' | StartService \<Rightarrow> ''StartService''
      | StopService \<Rightarrow> ''StopService'' | RestartService \<Rightarrow> ''RestartService'' | ApplyBaseline \<Rightarrow> ''ApplyBaseline''
      | CheckCompliance \<Rightarrow> ''CheckCompliance'' | SelfUpdate \<Rightarrow> ''SelfUpdate'' | RotateNodeKey \<Rightarrow> ''RotateNodeKey''
      | DiagnosticBundle \<Rightarrow> ''DiagnosticBundle'' | ScheduleReboot \<Rightarrow> ''ScheduleReboot''
      | Custom s \<Rightarrow> ''Custom('' @ [CHR 0x22] @ escape_debug h s @ [CHR 0x22] @ '')'')"

definition str_param :: "'json json_api \<Rightarrow> 'json agent_task \<Rightarrow> string \<Rightarrow> string option" where
  "str_param j t name = Option.bind (jget j (params t) name) (jstr j)"

definition str_param_or_empty :: "'json json_api \<Rightarrow> 'json agent_task \<Rightarrow> string \<Rightarrow> string" where
  "str_param_or_empty j t name = (case str_param j t name of Some s \<Rightarrow> s | None \<Rightarrow> [])"

definition args_param :: "'json json_api \<Rightarrow> 'json agent_task \<Rightarrow> string list" where
  "args_param j t =
     (case Option.bind (jget j (params t) ''args'') (jarr j) of
        Some a \<Rightarrow> List.map_filter (jstr j) a
      | None \<Rightarrow> [])"

definition execute_task_inner ::
    "host \<Rightarrow> 'json json_api \<Rightarrow> 'json agent_task \<Rightarrow> command_allowlist option \<Rightarrow> invocation list \<times> 'json task_result" where
  "execute_task_inner h j t al =
     (let tmo = timeout_secs t;
          run = (\<lambda>cmd as dir. run_guarded h al \<lparr>command = cmd, args = as, timeout = tmo, working_dir = dir\<rparr>);
          run' = (\<lambda>(cmd, as). run cmd as None)
      in case task_type t of
           RunCommand \<Rightarrow> run (str_param_or_empty j t ''command'') (args_param j t) (str_param j t ''working_dir'')
         | RunScript \<Rightarrow>
             (let script = str_param_or_empty j t ''script'';
                  interp = (case str_param j t ''interpreter'' of Some s \<Rightarrow> s | None \<Rightarrow> ''/bin/sh'')
              in run' (interp, [''-c'', script]))
         | InstallPackage \<Rightarrow> run' (platform_pkg_install h (str_param_or_empty j t ''package''))
         | RemovePackage \<Rightarrow> run' (platform_pkg_remove h (str_param_or_empty j t ''package''))
         | StartService \<Rightarrow> run' (platform_svc_action h (str_param_or_empty j t ''service'') ''start'')
         | StopService \<Rightarrow> run' (platform_svc_action h (str_param_or_empty j t ''service'') ''stop'')
         | RestartService \<Rightarrow> run' (platform_svc_action h (str_param_or_empty j t ''service'') ''restart'')
         | ScheduleReboot \<Rightarrow>
             (let delay = (case Option.bind (jget j (params t) ''delay_secs'') (ju64 j) of Some d \<Rightarrow> d | None \<Rightarrow> 60)
              in run' (platform_reboot delay))
         | ty \<Rightarrow> ([], failure (''task type '' @ debug_task_type h ty @ '' not implemented in executor'') 0))"

definition execute_task :: "host \<Rightarrow> 'json json_api \<Rightarrow> 'json agent_task \<Rightarrow> invocation list \<times> 'json task_result" where
  "execute_task h j t = execute_task_inner h j t None"

definition execute_task_with_policy ::
    "host \<Rightarrow> 'json json_api \<Rightarrow> 'json agent_task \<Rightarrow> command_allowlist \<Rightarrow> invocation list \<times> 'json task_result" where
  "execute_task_with_policy h j t al = execute_task_inner h j t (Some al)"

definition execute :: "host \<Rightarrow> 'json json_api \<Rightarrow> 'json executor \<Rightarrow> 'json agent_task \<Rightarrow> invocation list \<times> 'json task_result" where
  "execute h j ex t =
     (case verifier ex t of
        Inl e \<Rightarrow> ([], failure (''verifier rejected task: '' @ show_verify_error e) 0)
      | Inr _ \<Rightarrow> execute_task_with_policy h j t (allowlist ex))"

section \<open>Retry delays stay below the maximum\<close>

lemma exp_raw_le:
  assumes "as_millis mx < 2 ^ 53"
  shows "exp_raw pow_i base factor mx attempt \<le> mx"
proof -
  define raw where "raw = f64_mul (f64_of_nat (as_millis base)) (pow_i (f64_max factor (Fin 1)) (sint (min attempt 32)))"
  define clamped where "clamped = f64_min raw (Fin (of_nat (as_millis mx)))"
  have "exp_raw pow_i base factor mx attempt =
      (if \<not> is_finite clamped \<or> f64_less clamped (Fin 0) then mx else from_millis (f64_as_u64 clamped))"
    by (simp add: exp_raw_def f64_of_nat_exact [OF assms] raw_def clamped_def Let_def)
  moreover have "from_millis (f64_as_u64 clamped) \<le> mx" if fin: "clamped = Fin r" for r
  proof -
    have "r \<le> of_nat (as_millis mx)"
      using fin by (cases raw) (auto simp: clamped_def f64_min_def split: if_splits)
    then have "nat (floor r) \<le> as_millis mx" by linarith
    then have "f64_as_u64 clamped \<le> as_millis mx" using fin by (simp add: f64_as_u64_def)
    then have "from_millis (f64_as_u64 clamped) \<le> as_millis mx * 1000000" by (simp add: from_millis_def)
    also have "\<dots> \<le> mx" by (simp add: as_millis_def div_times_less_eq_dividend)
    finally show ?thesis .
  qed
  ultimately show ?thesis
    by (cases clamped) (auto simp: is_finite_def)
qed

text \<open>
  An exponential backoff never waits longer than its maximum, whatever the factor (also NaN and
  infinities), the retry count, the jitter and the rounding of \<open>powi\<close>, as long as the maximum is
  below \<open>2 ^ 53\<close> milliseconds, the range in which it is exact as an \<open>f64\<close>.
\<close>

theorem retry_delay_bounded:
  assumes "backoff p = Exponential base factor mx \<or> backoff p = ExponentialJitter base factor mx"
    and "as_millis mx < 2 ^ 53"
  shows "next_delay pow_i jitter p \<le> mx"
  using assms exp_raw_le [OF assms(2)] by (auto simp: next_delay_def next_retry_delay_def Let_def)

theorem retry_delay_bounded_witness:
  "backoff default_retry = ExponentialJitter (from_secs 1) (Fin 2) (from_secs 300) \<and>
   as_millis (from_secs 300) < 2 ^ 53 \<and>
   (\<forall>n. next_delay (\<lambda>_ _. Infinite False) (Fin 1) (default_retry\<lparr>retry_count := n\<rparr>) \<le> from_secs 300)"
proof -
  have b: "backoff (default_retry\<lparr>retry_count := n\<rparr>) = ExponentialJitter (from_secs 1) (Fin 2) (from_secs 300)" for n
    by (simp add: default_retry_def default_jittered_def)
  have m: "as_millis (from_secs 300) < 2 ^ 53" by (simp add: as_millis_def from_secs_def)
  show ?thesis
    using retry_delay_bounded [OF disjI2 [OF b] m] m by (auto simp: default_retry_def default_jittered_def)
qed

section \<open>Idempotency\<close>

text \<open>
  The calls an agent makes on its queue. Through the reference of \<open>next_pending\<close> it calls the
  methods of the task.
\<close>

datatype 'json task_call = Start | Complete "'json task_result" | RecordRetry

fun apply_call :: "'json agent_task \<Rightarrow> 'json task_call \<Rightarrow> 'json agent_task" where
  "apply_call t Start = start t"
| "apply_call t (Complete r) = complete r t"
| "apply_call t RecordRetry = record_retry t"

datatype 'json queue_op = Enqueue nat nat nat "'json agent_task" | NextPending "'json task_call list" | Prune nat

definition queue_step :: "'json task_queue \<Rightarrow> 'json queue_op \<Rightarrow> 'json task_queue" where
  "queue_step q op =
     (case op of
        Enqueue t1 t2 t3 task \<Rightarrow> snd (enqueue t1 t2 t3 task q)
      | NextPending calls \<Rightarrow> snd (next_pending (\<lambda>t. foldl apply_call t calls) q)
      | Prune n \<Rightarrow> prune n q)"

fun answers :: "'json task_queue \<Rightarrow> 'json queue_op list \<Rightarrow> bool list" where
  "answers q [] = []"
| "answers q (op # ops) =
     (case op of Enqueue t1 t2 t3 task \<Rightarrow> [fst (enqueue t1 t2 t3 task q)] | _ \<Rightarrow> []) @ answers (queue_step q op) ops"

text \<open>
  The specification: the history of all accepted keys with their times, nothing ever dropped. A task is
  accepted unless its key was accepted less than a window before.
\<close>

definition fresh :: "nat \<Rightarrow> (string \<times> nat) list \<Rightarrow> nat \<Rightarrow> 'json agent_task \<Rightarrow> bool" where
  "fresh w hist t task = (\<forall>(k, t') \<in> set hist. idempotency_key task = Some k \<longrightarrow> w \<le> t - t')"

definition remember :: "(string \<times> nat) list \<Rightarrow> nat \<Rightarrow> 'json agent_task \<Rightarrow> (string \<times> nat) list" where
  "remember hist t task = (case idempotency_key task of Some k \<Rightarrow> (k, t) # hist | None \<Rightarrow> hist)"

fun spec_answers :: "nat \<Rightarrow> (string \<times> nat) list \<Rightarrow> 'json queue_op list \<Rightarrow> bool list" where
  "spec_answers w hist [] = []"
| "spec_answers w hist (Enqueue t1 t2 t3 task # ops) =
     (let ok = fresh w hist t2 task in ok # spec_answers w (if ok then remember hist t3 task else hist) ops)"
| "spec_answers w hist (_ # ops) = spec_answers w hist ops"

text \<open>The clock is monotonic.\<close>

fun clock_ordered :: "nat \<Rightarrow> 'json queue_op list \<Rightarrow> bool" where
  "clock_ordered now [] = True"
| "clock_ordered now (Enqueue t1 t2 t3 task # ops) = (now \<le> t1 \<and> t1 \<le> t2 \<and> t2 \<le> t3 \<and> clock_ordered t3 ops)"
| "clock_ordered now (_ # ops) = clock_ordered now ops"

definition tracks :: "nat \<Rightarrow> (string, nat) hash_map \<Rightarrow> (string \<times> nat) list \<Rightarrow> nat \<Rightarrow> bool" where
  "tracks w seen hist now \<longleftrightarrow>
     hm_wf seen \<and> (\<forall>k t. hm_get seen k = Some t \<longrightarrow> (k, t) \<in> set hist) \<and>
     (\<forall>(k, t) \<in> set hist. t \<le> now \<and> (hm_get seen k = Some t \<or> w \<le> now - t))"

lemma tracks_evict:
  assumes "tracks w seen hist now" "now \<le> t1"
  shows "tracks w (hm_retain (\<lambda>_ s. t1 - s < w) seen) hist t1"
  using assms by (fastforce simp: tracks_def hm_wf_retain hm_get_retain)

lemma tracks_mono: "tracks w seen hist now \<Longrightarrow> now \<le> t \<Longrightarrow> tracks w seen hist t"
  by (fastforce simp: tracks_def)

lemma tracks_lookup:
  assumes "tracks w seen hist t1" "t1 \<le> t2" "idempotency_key task = Some k"
  shows "fresh w hist t2 task \<longleftrightarrow> \<not> (case hm_get seen k of Some s \<Rightarrow> t2 - s < w | None \<Rightarrow> False)"
proof -
  have 1: "hm_get seen k = Some t" if m: "(k, t) \<in> set hist" "t2 - t < w" for t
  proof -
    have "hm_get seen k = Some t \<or> w \<le> t1 - t" using assms(1) m(1) by (auto simp: tracks_def)
    then show ?thesis using m(2) assms(2) by linarith
  qed
  have 2: "(k, t) \<in> set hist" if "hm_get seen k = Some t" for t
    using assms(1) that by (simp add: tracks_def)
  have "fresh w hist t2 task \<longleftrightarrow> (\<forall>t. (k, t) \<in> set hist \<longrightarrow> w \<le> t2 - t)"
    using assms(3) by (auto simp: fresh_def)
  also have "\<dots> \<longleftrightarrow> (\<forall>t. hm_get seen k = Some t \<longrightarrow> w \<le> t2 - t)"
    using 1 2 not_le by blast
  finally show ?thesis by (auto split: option.splits)
qed

lemma tracks_insert:
  assumes tr: "tracks w seen hist t1" and le: "t1 \<le> t2" "t2 \<le> t3"
    and k: "idempotency_key task = Some k" and fr: "fresh w hist t2 task"
  shows "tracks w (hm_insert k t3 seen) ((k, t3) # hist) t3"
proof -
  have 1: "hm_wf (hm_insert k t3 seen)"
    using tr by (simp add: tracks_def hm.wf_insert)
  have 2: "(k', t) \<in> set ((k, t3) # hist)" if "hm_get (hm_insert k t3 seen) k' = Some t" for k' t
    using that tr by (auto simp: tracks_def hm_simps split: if_splits)
  have 3: "t \<le> t3 \<and> (hm_get (hm_insert k t3 seen) k' = Some t \<or> w \<le> t3 - t)"
    if m: "(k', t) \<in> set ((k, t3) # hist)" for k' t
  proof (cases "k' = k \<and> t \<noteq> t3")
    case True
    then have "(k, t) \<in> set hist" using m by auto
    then have "w \<le> t2 - t" "t \<le> t1" using fr k tr by (auto simp: fresh_def tracks_def)
    then show ?thesis using le by auto
  next
    case False
    then show ?thesis
      using m tracks_mono [OF tr, of t3] le by (auto simp: tracks_def hm_simps)
  qed
  show ?thesis unfolding tracks_def using 1 2 3 by blast
qed

definition queue_tracks :: "'json task_queue \<Rightarrow> (string \<times> nat) list \<Rightarrow> nat \<Rightarrow> bool" where
  "queue_tracks q hist now = tracks (idempotency_window q) (seen_keys q) hist now"

lemma enqueue_tracks:
  assumes "queue_tracks q hist now" "now \<le> t1" "t1 \<le> t2" "t2 \<le> t3"
  shows "fst (enqueue t1 t2 t3 task q) = fresh (idempotency_window q) hist t2 task"
    and "idempotency_window (snd (enqueue t1 t2 t3 task q)) = idempotency_window q"
    and "queue_tracks (snd (enqueue t1 t2 t3 task q))
           (if fresh (idempotency_window q) hist t2 task then remember hist t3 task else hist) t3"
proof -
  let ?w = "idempotency_window q" and ?seen = "hm_retain (\<lambda>_ s. t1 - s < idempotency_window q) (seen_keys q)"
  have tr: "tracks ?w ?seen hist t1"
    using assms(1,2) by (auto simp: queue_tracks_def intro: tracks_evict)
  have mono: "tracks ?w ?seen hist t3"
    using tracks_mono [OF tr] assms(3,4) by simp
  note defs = enqueue_def evict_expired_keys_def queue_tracks_def remember_def Let_def
  have "fst (enqueue t1 t2 t3 task q) = fresh ?w hist t2 task \<and>
      idempotency_window (snd (enqueue t1 t2 t3 task q)) = ?w \<and>
      queue_tracks (snd (enqueue t1 t2 t3 task q)) (if fresh ?w hist t2 task then remember hist t3 task else hist) t3"
  proof (cases "idempotency_key task")
    case None
    then have "fresh ?w hist t2 task" by (simp add: fresh_def)
    then show ?thesis using None mono by (simp add: defs)
  next
    case (Some k)
    note l = tracks_lookup [OF tr assms(3) Some]
    show ?thesis
    proof (cases "fresh ?w hist t2 task")
      case True
      then have "\<not> (case hm_get ?seen k of Some s \<Rightarrow> t2 - s < ?w | None \<Rightarrow> False)" using l by simp
      then show ?thesis
        using True Some tracks_insert [OF tr assms(3,4) Some True]
        by (simp add: defs cong: option.case_cong)
    next
      case False
      then have "(case hm_get ?seen k of Some s \<Rightarrow> t2 - s < ?w | None \<Rightarrow> False)" using l by simp
      then show ?thesis using False Some mono by (simp add: defs cong: option.case_cong)
    qed
  qed
  then show "fst (enqueue t1 t2 t3 task q) = fresh ?w hist t2 task"
    and "idempotency_window (snd (enqueue t1 t2 t3 task q)) = ?w"
    and "queue_tracks (snd (enqueue t1 t2 t3 task q)) (if fresh ?w hist t2 task then remember hist t3 task else hist) t3"
    by auto
qed

lemma answers_tracked:
  assumes "queue_tracks q hist now" "clock_ordered now ops"
  shows "answers q ops = spec_answers (idempotency_window q) hist ops"
  using assms
proof (induction "idempotency_window q" hist ops arbitrary: q now rule: spec_answers.induct)
  case (2 hist t1 t2 t3 task ops)
  then show ?case
    using enqueue_tracks [of q hist now t1 t2 t3 task] by (auto simp: queue_step_def Let_def)
qed (auto simp: queue_step_def next_pending_def prune_def queue_tracks_def)

text \<open>
  C16. Idempotency. Whatever else the agent does with the queue, \<open>enqueue\<close> answers as if the queue
  remembered every accepted key for ever: it refuses a task exactly when a task with the same key was
  accepted less than a window before. Dropping expired keys is not observable.
\<close>

theorem enqueue_idempotent:
  assumes "clock_ordered 0 ops"
  shows "answers (with_idempotency_window w) ops = spec_answers w [] ops"
  using answers_tracked [of "with_idempotency_window w" "[]" 0 ops] assms
  by (simp add: queue_tracks_def tracks_def with_idempotency_window_def)

definition ex_task :: "task_type \<Rightarrow> 'json \<Rightarrow> 'json agent_task" where
  "ex_task ty ps = \<lparr>task_id = ''t'', idempotency_key = Some ''k'', task_type = ty, params = ps, status = Running,
     retry = default_retry, timeout_secs = 60, result = None\<rparr>"

theorem enqueue_idempotent_witness:
  "clock_ordered 0 [Enqueue 1 1 1 (ex_task RunCommand ()), NextPending [Start], Enqueue 5 6 6 (ex_task RunCommand ()),
     Prune 0, Enqueue 11 11 12 (ex_task RunCommand ())] \<and>
   answers (with_idempotency_window 10) [Enqueue 1 1 1 (ex_task RunCommand ()), NextPending [Start],
     Enqueue 5 6 6 (ex_task RunCommand ()), Prune 0, Enqueue 11 11 12 (ex_task RunCommand ())] = [True, False, True]"
proof -
  have c: "clock_ordered 0 [Enqueue 1 1 1 (ex_task RunCommand ()), NextPending [Start], Enqueue 5 6 6 (ex_task RunCommand ()),
     Prune 0, Enqueue 11 11 12 (ex_task RunCommand ())]" by simp
  show ?thesis
    using c unfolding enqueue_idempotent [OF c] by (simp add: fresh_def remember_def ex_task_def)
qed

section \<open>The life of the queued tasks\<close>

definition task_wf :: "'json agent_task \<Rightarrow> bool" where
  "task_wf t =
     (case status t of
        Completed \<Rightarrow> (case result t of Some r \<Rightarrow> exit_code r = 0 | None \<Rightarrow> False)
      | Failed \<Rightarrow> (case result t of Some r \<Rightarrow> exit_code r \<noteq> 0 | None \<Rightarrow> False)
      | _ \<Rightarrow> True)"

definition queue_wf :: "'json task_queue \<Rightarrow> bool" where
  "queue_wf q = (list_all task_wf (tasks q) \<and> hm_wf (seen_keys q))"

lemma task_wf_calls: "task_wf t \<Longrightarrow> task_wf (foldl apply_call t calls)"
proof (induction calls arbitrary: t)
  case (Cons c calls)
  have "task_wf (apply_call t c)"
    using Cons.prems by (cases c) (auto simp: task_wf_def start_def complete_def record_retry_def
        split: task_status.splits)
  then show ?case using Cons.IH by simp
qed simp

lemma set_update_first: "set (update_first P f xs) \<subseteq> set xs \<union> f ` set (filter P xs)"
  by (induction xs) auto

lemma update_first_keeps: "x \<in> set xs \<Longrightarrow> \<not> P x \<Longrightarrow> x \<in> set (update_first P f xs)"
  by (induction xs) auto

lemma set_prune_loop: "set (prune_loop n c ts) \<subseteq> set ts"
  by (induction n c ts rule: prune_loop.induct) (auto simp: Let_def)

lemma enqueue_tasks:
  "\<exists>s. (s = Queued \<or> s = Skipped) \<and> (fst (enqueue t1 t2 t3 task q) \<longleftrightarrow> s = Queued) \<and>
     tasks (snd (enqueue t1 t2 t3 task q)) = tasks q @ [task\<lparr>status := s\<rparr>]"
  by (auto simp: enqueue_def evict_expired_keys_def Let_def split: option.splits)

lemma queue_step_wf: "queue_wf q \<Longrightarrow> queue_wf (queue_step q op)"
proof (cases op)
  case (Enqueue t1 t2 t3 task)
  assume wf: "queue_wf q"
  have "hm_wf (seen_keys (snd (enqueue t1 t2 t3 task q)))"
    using wf by (auto simp: queue_wf_def enqueue_def evict_expired_keys_def Let_def hm_wf_retain hm.wf_insert
        split: option.splits)
  then show ?thesis
    using wf enqueue_tasks [of t1 t2 t3 task q] Enqueue by (auto simp: queue_wf_def queue_step_def task_wf_def)
next
  case (NextPending calls)
  assume "queue_wf q"
  then show ?thesis
    using NextPending set_update_first [of "\<lambda>t. status t = Queued" "\<lambda>t. foldl apply_call t calls" "tasks q"]
    by (auto simp: queue_wf_def queue_step_def next_pending_def list_all_iff intro: task_wf_calls)
next
  case (Prune n)
  assume "queue_wf q"
  then show ?thesis
    using Prune set_prune_loop [of n 0 "tasks q"] by (auto simp: queue_wf_def queue_step_def prune_def list_all_iff)
qed

interpretation queue_machine: invariant_machine queue_step queue_wf
  by unfold_locales (rule queue_step_wf)

lemma with_window_wf: "queue_wf (with_idempotency_window w)"
  by (simp add: queue_wf_def with_idempotency_window_def)

lemma queue_step_keeps:
  assumes "t \<in> set (tasks q)" "status t \<noteq> Queued" "\<forall>n. op \<noteq> Prune n"
  shows "t \<in> set (tasks (queue_step q op))"
proof (cases op)
  case (Enqueue t1 t2 t3 task)
  then show ?thesis using assms enqueue_tasks [of t1 t2 t3 task q] by (auto simp: queue_step_def)
next
  case (NextPending calls)
  then show ?thesis using assms by (simp add: queue_step_def next_pending_def update_first_keeps)
qed (use assms in auto)

text \<open>
  C37. After every sequence of calls on a new queue each task of it is well formed: a completed task
  carries a result with exit code zero, a failed one a result with another exit code, whatever status
  and result the tasks had when they were enqueued. And a task that has left the state queued never
  changes again inside the queue; only pruning removes it.
\<close>

theorem queue_tasks_typed:
  assumes "q = foldl queue_step (with_idempotency_window w) ops" "t \<in> set (tasks q)"
  shows "task_wf t \<and> (status t \<noteq> Queued \<longrightarrow> (\<forall>n. op \<noteq> Prune n) \<longrightarrow> t \<in> set (tasks (queue_step q op)))"
proof (intro conjI impI)
  show "task_wf t"
    using queue_machine.run_inv [OF with_window_wf, of w ops] assms by (auto simp: queue_wf_def list_all_iff)
  show "t \<in> set (tasks (queue_step q op))" if "status t \<noteq> Queued" "\<forall>n. op \<noteq> Prune n"
    using that(1) that(2) assms(2) by (intro queue_step_keeps)
qed

theorem queue_tasks_typed_witness:
  "let r = failure ''x'' 3; q = foldl queue_step (with_idempotency_window 10)
         [Enqueue 1 1 1 (ex_task RunCommand ()), NextPending [Start, Complete r]];
       t = (ex_task RunCommand ())\<lparr>status := Failed, result := Some r\<rparr>
   in t \<in> set (tasks q) \<and> task_wf t \<and> t \<in> set (tasks (queue_step q (NextPending [Start])))"
proof -
  let ?r = "failure ''x'' 3 :: unit task_result"
  let ?ops = "[Enqueue 1 1 1 (ex_task RunCommand ()), NextPending [Start, Complete ?r]]"
  let ?t = "(ex_task RunCommand ())\<lparr>status := Failed, result := Some ?r\<rparr>"
  let ?q = "foldl queue_step (with_idempotency_window 10) ?ops"
  have m: "?t \<in> set (tasks ?q)"
    by (simp add: queue_step_def enqueue_def next_pending_def evict_expired_keys_def with_idempotency_window_def
        ex_task_def Let_def start_def complete_def failure_def)
  show ?thesis
    using m queue_tasks_typed [OF refl m] by (simp add: Let_def)
qed

section \<open>Pruning\<close>

definition finished :: "'json agent_task \<Rightarrow> bool" where
  "finished t = (status t = Completed \<or> status t = Failed)"

lemma prune_loop_finished: "filter finished (prune_loop n c ts) = take (n - c) (filter finished ts)"
proof (induction ts arbitrary: c)
  case (Cons t ts)
  have "n - c = Suc (n - Suc c)" if "Suc c \<le> n" using that by simp
  then show ?case using Cons.IH by (auto simp: Let_def finished_def)
qed simp

lemma prune_loop_unfinished: "filter (\<lambda>t. \<not> finished t) (prune_loop n c ts) = filter (\<lambda>t. \<not> finished t) ts"
  by (induction n c ts rule: prune_loop.induct) (auto simp: Let_def finished_def)

text \<open>
  Pruning keeps the finished tasks that come first in the queue, which are the oldest ones, up to
  the limit, and every task that is not finished; in particular the skipped duplicates stay for ever.
\<close>

theorem prune_keeps_oldest:
  "filter finished (tasks (prune n q)) = take n (filter finished (tasks q)) \<and>
   filter (\<lambda>t. \<not> finished t) (tasks (prune n q)) = filter (\<lambda>t. \<not> finished t) (tasks q)"
  by (simp add: prune_def prune_loop_finished prune_loop_unfinished)

section \<open>The executor starts only what is allowed\<close>

lemma execute_command_fst [simp]: "fst (execute_command h i) = [i]"
  by (simp add: execute_command_def)

lemma run_guarded_Some:
  "fst (run_guarded h (Some al) i) = (if is_allowed al (command i) then [i] else [])"
  "\<not> is_allowed al (command i) \<Longrightarrow> exit_code (snd (run_guarded h (Some al) i)) = -1"
  by (auto simp: run_guarded_def execute_command_guarded_def failure_def)

lemma policy_cases:
  "(\<exists>i. execute_task_inner h j t al = run_guarded h al i) \<or>
   (\<exists>e. execute_task_inner h j t al = ([], failure e 0))"
  by (cases "task_type t") (auto simp: execute_task_inner_def Let_def split: prod.splits)

lemma policy_spawns:
  "(fst (execute_task_with_policy h j t al) = [] \<and> exit_code (snd (execute_task_with_policy h j t al)) = -1) \<or>
   (\<exists>i. fst (execute_task_with_policy h j t al) = [i] \<and> is_allowed al (command i))"
proof (cases "\<exists>i. execute_task_inner h j t (Some al) = run_guarded h (Some al) i")
  case True
  then obtain i where "execute_task_inner h j t (Some al) = run_guarded h (Some al) i" ..
  then show ?thesis
    using run_guarded_Some [where h = h and al = al and i = i] by (cases "is_allowed al (command i)") (auto simp: execute_task_with_policy_def)
next
  case False
  then show ?thesis
    using policy_cases [of h j t "Some al"] by (auto simp: execute_task_with_policy_def failure_def)
qed

text \<open>
  C36. The executor starts at most one process per task, only after the verifier accepts the task, and
  only a binary that the allowlist holds; if it starts none, the task fails with exit code -1.
\<close>

theorem executor_confined:
  assumes "execute h j ex t = (is, r)"
  shows "(is = [] \<and> exit_code r = -1) \<or>
     (\<exists>i. is = [i] \<and> verifier ex t = Inr () \<and> components (command i) \<in> set (allowlist ex))"
proof (cases "verifier ex t")
  case (Inl e)
  then show ?thesis using assms by (auto simp: execute_def failure_def)
next
  case (Inr u)
  then have "execute_task_with_policy h j t (allowlist ex) = (is, r)"
    using assms by (simp add: execute_def)
  with policy_spawns [of h j t "allowlist ex"] show ?thesis
    using Inr by (auto simp: is_allowed_def split: if_splits)
qed

datatype jval = JNull | JStr string | JNum u64 | JArr "jval list" | JObj "(string \<times> jval) list"

definition ex_json :: "jval json_api" where
  "ex_json = \<lparr>jget = (\<lambda>v k. case v of JObj kvs \<Rightarrow> map_of kvs k | _ \<Rightarrow> None),
     jstr = (\<lambda>v. case v of JStr s \<Rightarrow> Some s | _ \<Rightarrow> None), jarr = (\<lambda>v. case v of JArr vs \<Rightarrow> Some vs | _ \<Rightarrow> None),
     ju64 = (\<lambda>v. case v of JNum n \<Rightarrow> Some n | _ \<Rightarrow> None)\<rparr>"

definition ex_host :: host where
  "ex_host = \<lparr>mac_os = False, path_exists = (\<lambda>p. p = ''/usr/bin/apt-get''),
     run_process = (\<lambda>i. (Exited (Some 0) [] [], 7)), utf8_lossy = (\<lambda>_. []), escape_debug = (\<lambda>s. s)\<rparr>"

definition ex_run :: "jval agent_task" where
  "ex_run = ex_task RunCommand (JObj [(''command'', JStr ''/bin//ls''), (''args'', JArr [JStr ''-l'', JNull])])"

lemma ex_run_result:
  "execute ex_host ex_json (with_allowlist (from_paths [''/bin/ls''])) ex_run =
     ([\<lparr>command = ''/bin//ls'', args = [''-l''], timeout = 60, working_dir = None\<rparr>],
      \<lparr>exit_code = 0, stdout = [], stderr = [], data = None, duration_ms = 7\<rparr>)"
proof -
  have "components ''/bin//ls'' = components ''/bin/ls''" by code_simp
  then show ?thesis
    by (simp add: execute_def execute_task_with_policy_def execute_task_inner_def run_guarded_def Let_def
        execute_command_guarded_def execute_command_def with_allowlist_def from_paths_def reject_scripts_def
        is_allowed_def ex_run_def ex_task_def ex_host_def ex_json_def str_param_def str_param_or_empty_def
        args_param_def List.map_filter_def)
qed

theorem executor_confined_witness:
  "execute ex_host ex_json (with_allowlist (from_paths [''/bin/ls''])) ex_run =
     ([\<lparr>command = ''/bin//ls'', args = [''-l''], timeout = 60, working_dir = None\<rparr>],
      \<lparr>exit_code = 0, stdout = [], stderr = [], data = None, duration_ms = 7\<rparr>) \<and>
   components ''/bin//ls'' \<in> set (from_paths [''/bin/ls''])"
  using executor_confined [OF ex_run_result] ex_run_result by (simp add: with_allowlist_def)

section \<open>System tasks and absolute allowlists\<close>

definition system_task :: "task_type \<Rightarrow> bool" where
  "system_task ty = (ty \<in> {InstallPackage, RemovePackage, StartService, StopService, RestartService, ScheduleReboot})"

definition bare_names :: "string list" where
  "bare_names = [''brew'', ''apt-get'', ''dnf'', ''pacman'', ''echo'', ''launchctl'', ''systemctl'', ''shutdown'']"

lemma platform_bare:
  "fst (platform_pkg_install h p) \<in> set bare_names" "fst (platform_pkg_remove h p) \<in> set bare_names"
  "fst (platform_svc_action h p a) \<in> set bare_names" "fst (platform_reboot d) \<in> set bare_names"
  by (simp_all add: platform_pkg_install_def platform_pkg_remove_def platform_svc_action_def platform_reboot_def
      bare_names_def Let_def)

lemma bare_not_rooted: "list_all (\<lambda>s. hd (components s) \<noteq> RootDir) bare_names"
  by code_simp

lemma system_task_bare:
  fixes t :: "'json agent_task"
  assumes "system_task (task_type t)"
  shows "\<exists>i. execute_task_inner h j t al = run_guarded h al i \<and> command i \<in> set bare_names"
proof -
  have *: "\<exists>i. (case p of (cmd, as) \<Rightarrow> run_guarded h al \<lparr>command = cmd, args = as, timeout = tmo, working_dir = None\<rparr>)
        = (run_guarded h al i :: invocation list \<times> 'json task_result) \<and> command i \<in> set bare_names" if "fst p \<in> set bare_names" for p tmo
    using that by (cases p) (auto intro!: exI [of _ "\<lparr>command = fst p, args = snd p, timeout = tmo, working_dir = None\<rparr>"])
  show ?thesis
    using assms by (auto simp: system_task_def execute_task_inner_def Let_def intro!: * platform_bare)
qed

text \<open>
  The package, service and reboot tasks use bare command names. With an allowlist of absolute
  paths, which the allowlist's documentation asks for, the executor refuses all of them.
\<close>

theorem absolute_allowlist_refuses_system_tasks:
  assumes "\<forall>p \<in> set (allowlist ex). hd p = RootDir" "system_task (task_type t)"
  shows "fst (execute h j ex t) = []"
proof -
  obtain i where i: "execute_task_inner h j t (Some (allowlist ex)) = run_guarded h (Some (allowlist ex)) i"
      "command i \<in> set bare_names"
    using system_task_bare [OF assms(2)] by blast
  then have "hd (components (command i)) \<noteq> RootDir"
    using bare_not_rooted by (auto simp: list_all_iff)
  then have "\<not> is_allowed (allowlist ex) (command i)"
    using assms(1) by (auto simp: is_allowed_def)
  then show ?thesis
    using i by (auto simp: execute_def execute_task_with_policy_def run_guarded_Some split: sum.splits)
qed

theorem absolute_allowlist_refuses_system_tasks_witness:
  "(\<forall>p \<in> set (from_paths [''/usr/bin/apt-get'']). hd p = RootDir) \<and>
   fst (execute ex_host ex_json (with_allowlist (from_paths [''/usr/bin/apt-get'']))
     (ex_task InstallPackage (JObj [(''package'', JStr ''vim'')]))) = []"
proof -
  have a: "\<forall>p \<in> set (from_paths [''/usr/bin/apt-get'']). hd p = RootDir" by code_simp
  then have "\<forall>p \<in> set (allowlist (with_allowlist (from_paths [''/usr/bin/apt-get'']))). hd p = RootDir"
    by (simp add: with_allowlist_def)
  from absolute_allowlist_refuses_system_tasks
      [OF this, of "ex_task InstallPackage (JObj [(''package'', JStr ''vim'')])" ex_host ex_json] show ?thesis
    using a by (simp add: system_task_def) (simp add: ex_task_def)
qed

end
