(* ===== verification/Core_Limits.thy ===== *)
theory Core_Limits
  imports Rust_Std
begin

text \<open>
  Limits of the HTTP backend (\<open>crates/runesh-core\<close>): the rate limiter and its middleware
  (\<open>rate_limit.rs\<close>), the limits of a WebSocket client (\<open>ws_broadcast.rs\<close>) and pagination
  (\<open>pagination.rs\<close>).

  Instants are nanoseconds; each reading of the clock is an argument, and a limiter's calls happen in
  the order in which they take its lock. The Redis server is a parameter: its answer to the script.
  Of a request the model keeps the two forwarding headers (\<open>None\<close> when absent or not text) and the peer
  address. An \<open>i64\<close> is an \<open>int\<close> with the wrap-around of a release build written out.
\<close>

section \<open>The rate limiter\<close>

record rate_limiter =
  requests :: "(string, nat list) hash_map"
  max_requests :: nat
  window :: nat

definition limiter_new :: "nat \<Rightarrow> nat \<Rightarrow> rate_limiter" where
  "limiter_new mx window_secs = \<lparr>requests = [], max_requests = mx, window = window_secs * 1000000000\<rparr>"

definition live :: "nat \<Rightarrow> nat \<Rightarrow> nat list \<Rightarrow> nat list" where
  "live w now ts = filter (\<lambda>t. now - t < w) ts"

definition check :: "string \<Rightarrow> nat \<Rightarrow> rate_limiter \<Rightarrow> bool \<times> rate_limiter" where
  "check key now self =
     (let m = requests self;
          m = (case hm_get m key of
                 Some ts \<Rightarrow> let ts = live (window self) now ts in if ts = [] then hm_remove key m else hm_insert key ts m
               | None \<Rightarrow> m);
          m = (case hm_get m key of Some _ \<Rightarrow> m | None \<Rightarrow> hm_insert key [] m);
          ts = (case hm_get m key of Some ts \<Rightarrow> ts | None \<Rightarrow> [])
      in if max_requests self \<le> length ts then (False, self\<lparr>requests := m\<rparr>)
         else (True, self\<lparr>requests := hm_insert key (ts @ [now]) m\<rparr>))"

definition cleanup :: "nat \<Rightarrow> rate_limiter \<Rightarrow> rate_limiter" where
  "cleanup now self =
     self\<lparr>requests := hm_retain (\<lambda>_ ts. ts \<noteq> []) (map (\<lambda>(k, ts). (k, live (window self) now ts)) (requests self))\<rparr>"

datatype fail_mode = Closed | Open

text \<open>What the pool and the script answer: no connection, an error, or a number.\<close>

datatype redis_answer = NoConnection | ScriptError | Answer int

definition redis_check :: "fail_mode \<Rightarrow> redis_answer \<Rightarrow> bool" where
  "redis_check mode a =
     (case a of
        NoConnection \<Rightarrow> (case mode of Open \<Rightarrow> True | Closed \<Rightarrow> False)
      | Answer n \<Rightarrow> n = 1
      | ScriptError \<Rightarrow> (case mode of Open \<Rightarrow> True | Closed \<Rightarrow> False))"

datatype limiter_backend = InMemory rate_limiter | Redis fail_mode

definition backend_check :: "redis_answer \<Rightarrow> string \<Rightarrow> nat \<Rightarrow> limiter_backend \<Rightarrow> bool \<times> limiter_backend" where
  "backend_check a key now b =
     (case b of
        InMemory l \<Rightarrow> (let (ok, l) = check key now l in (ok, InMemory l))
      | Redis mode \<Rightarrow> (redis_check mode a, Redis mode))"

record request =
  forwarded_for :: "string option"
  real_ip :: "string option"
  peer :: "string option"

definition extract_client_ip :: "request \<Rightarrow> bool \<Rightarrow> string" where
  "extract_client_ip req trust_proxy =
     (let direct = (case peer req of Some ip \<Rightarrow> ip | None \<Rightarrow> ''unknown'');
          from_real = (case real_ip req of
                         Some v \<Rightarrow> if trim v \<noteq> [] then trim v else direct
                       | None \<Rightarrow> direct)
      in if trust_proxy then
           (case forwarded_for req of
              Some v \<Rightarrow> let ip = trim (hd (split_on (CHR '','') v)) in if ip \<noteq> [] then ip else from_real
            | None \<Rightarrow> from_real)
         else direct)"

text \<open>\<open>None\<close> is the answer 429; \<open>Some req\<close> passes the request on.\<close>

definition rate_limit_layer ::
    "redis_answer \<Rightarrow> bool \<Rightarrow> request \<Rightarrow> nat \<Rightarrow> limiter_backend \<Rightarrow> request option \<times> limiter_backend" where
  "rate_limit_layer a trust_proxy req now b =
     (let ip = extract_client_ip req trust_proxy; (ok, b) = backend_check a ip now b in
      if \<not> ok then (None, b) else (Some req, b))"

section \<open>The limits of a WebSocket client\<close>

record ws_limits =
  max_message_size :: nat
  max_messages_per_sec :: u32
  idle_timeout_secs :: u64

definition default_ws_limits :: ws_limits where
  "default_ws_limits = \<lparr>max_message_size = 65536, max_messages_per_sec = 10, idle_timeout_secs = 300\<rparr>"

record ws_state =
  msg_count :: u32
  rate_window_start :: nat
  idle_deadline :: nat

text \<open>
  What \<open>select!\<close> delivers next: a broadcast (whether sending it to the client worked), a lag notice, the
  end of the channel, a text of the client (with the two clock readings and its length), another message,
  the end of the connection, or the idle timer.
\<close>

datatype ws_event = Broadcast bool | Lagged | ChannelClosed | ClientText nat nat nat | ClientOther | ClientClose | IdleTimeout

definition one_sec :: nat where "one_sec = 1000000000"

definition ws_start :: "ws_limits \<Rightarrow> nat \<Rightarrow> nat \<Rightarrow> ws_state" where
  "ws_start l now1 now2 =
     \<lparr>msg_count = 0, rate_window_start = now1, idle_deadline = now2 + unat (idle_timeout_secs l) * one_sec\<rparr>"

text \<open>One turn of the loop for a client text: whether the message reaches the handler, and the new state.\<close>

definition client_text :: "ws_limits \<Rightarrow> nat \<Rightarrow> nat \<Rightarrow> nat \<Rightarrow> ws_state \<Rightarrow> bool \<times> ws_state" where
  "client_text l now1 now len s =
     (let s = s\<lparr>idle_deadline := now1 + unat (idle_timeout_secs l) * one_sec\<rparr> in
      if len > max_message_size l then (False, s)
      else
        let s = (if (now - rate_window_start s) div one_sec \<ge> 1 then s\<lparr>msg_count := 0, rate_window_start := now\<rparr> else s);
            s = s\<lparr>msg_count := msg_count s + 1\<rparr>
        in if msg_count s > max_messages_per_sec l then (False, s) else (True, s))"

text \<open>The loop: the times of the messages that reach the handler, and whether the loop has ended.\<close>

fun ws_loop :: "ws_limits \<Rightarrow> ws_state \<Rightarrow> ws_event list \<Rightarrow> nat list \<times> bool" where
  "ws_loop l s [] = ([], False)"
| "ws_loop l s (ev # evs) =
     (case ev of
        Broadcast ok \<Rightarrow> if ok then ws_loop l s evs else ([], True)
      | Lagged \<Rightarrow> ws_loop l s evs
      | ChannelClosed \<Rightarrow> ([], True)
      | ClientText now1 now len \<Rightarrow>
          (let (ok, s) = client_text l now1 now len s; (ts, e) = ws_loop l s evs in
           if ok then (now # ts, e) else (ts, e))
      | ClientOther \<Rightarrow> ws_loop l s evs
      | ClientClose \<Rightarrow> ([], True)
      | IdleTimeout \<Rightarrow> ([], True))"

section \<open>Pagination\<close>

record pagination =
  page :: int
  page_size :: int
  sort_by :: "string option"
  sort_dir :: "string option"
  search :: "string option"

definition default_page :: int where "default_page = 0"

definition default_page_size :: int where "default_page_size = 25"

definition wrap_i64 :: "int \<Rightarrow> int" where
  "wrap_i64 x = (x + 2 ^ 63) mod 2 ^ 64 - 2 ^ 63"

definition page_limit :: "pagination \<Rightarrow> int" where
  "page_limit pg = (if page_size pg < 1 then 1 else if page_size pg > 100 then 100 else page_size pg)"

definition page_offset :: "pagination \<Rightarrow> int" where
  "page_offset pg = wrap_i64 (max (page pg) 0 * page_limit pg)"

definition sort_direction :: "pagination \<Rightarrow> string" where
  "sort_direction pg =
     (if sort_dir pg = Some ''desc'' \<or> sort_dir pg = Some ''DESC'' then ''DESC'' else ''ASC'')"

definition validated_sort_column :: "pagination \<Rightarrow> string list \<Rightarrow> string" where
  "validated_sort_column pg allowed =
     (case sort_by pg of
        Some s \<Rightarrow> if s \<in> set allowed then s else if allowed = [] then ''id'' else hd allowed
      | None \<Rightarrow> if allowed = [] then ''id'' else hd allowed)"

record 'a paginated_response =
  items :: "'a list"
  total :: int
  resp_page :: int
  resp_page_size :: int

definition response :: "pagination \<Rightarrow> 'a list \<Rightarrow> int \<Rightarrow> 'a paginated_response" where
  "response pg xs n = \<lparr>items = xs, total = n, resp_page = page pg, resp_page_size = page_limit pg\<rparr>"

section \<open>The limiter keeps a sliding window\<close>

datatype limiter_op = Check string nat | Cleanup nat

fun op_time :: "limiter_op \<Rightarrow> nat" where
  "op_time (Check k t) = t"
| "op_time (Cleanup t) = t"

text \<open>The requests that pass, as pairs of key and time, in their order.\<close>

fun admitted :: "rate_limiter \<Rightarrow> limiter_op list \<Rightarrow> (string \<times> nat) list" where
  "admitted l [] = []"
| "admitted l (Check k t # ops) =
     (let (ok, l) = check k t l in (if ok then [(k, t)] else []) @ admitted l ops)"
| "admitted l (Cleanup t # ops) = admitted (cleanup t l) ops"

text \<open>The specification: a request passes when fewer than \<open>mx\<close> requests of its key passed less than \<open>w\<close> before.\<close>

definition recent :: "nat \<Rightarrow> nat \<Rightarrow> string \<Rightarrow> (string \<times> nat) list \<Rightarrow> nat list" where
  "recent w now key hist = map snd (filter (\<lambda>(k, t). k = key \<and> now - t < w) hist)"

fun spec_admitted :: "nat \<Rightarrow> nat \<Rightarrow> (string \<times> nat) list \<Rightarrow> limiter_op list \<Rightarrow> (string \<times> nat) list" where
  "spec_admitted mx w hist [] = []"
| "spec_admitted mx w hist (Check k t # ops) =
     (if length (recent w t k hist) < mx then (k, t) # spec_admitted mx w (hist @ [(k, t)]) ops
      else spec_admitted mx w hist ops)"
| "spec_admitted mx w hist (Cleanup t # ops) = spec_admitted mx w hist ops"

definition stored :: "(string, nat list) hash_map \<Rightarrow> string \<Rightarrow> nat list" where
  "stored m k = (case hm_get m k of Some ts \<Rightarrow> ts | None \<Rightarrow> [])"

definition follows :: "rate_limiter \<Rightarrow> (string \<times> nat) list \<Rightarrow> nat \<Rightarrow> bool" where
  "follows l hist now \<longleftrightarrow>
     hm_wf (requests l) \<and> (\<forall>k. live (window l) now (stored (requests l) k) = recent (window l) now k hist)"

lemma live_live: "now \<le> now' \<Longrightarrow> live w now' (live w now ts) = live w now' ts"
  unfolding live_def filter_filter by (rule filter_cong) auto

lemma live_recent: "now \<le> now' \<Longrightarrow> live w now' (recent w now k hist) = recent w now' k hist"
  by (induction hist) (auto simp: live_def recent_def)

lemma follows_mono: "follows l hist now \<Longrightarrow> now \<le> now' \<Longrightarrow> follows l hist now'"
  unfolding follows_def by (metis live_live live_recent)

lemma hm_get_map_snd: "hm_get (map (\<lambda>(k, v). (k, f v)) m) k = map_option f (hm_get m k)"
  by (induction m) (auto simp: hm_get_def)

lemma stored_cleanup:
  assumes "hm_wf (requests l)"
  shows "stored (requests (cleanup now l)) k = live (window l) now (stored (requests l) k)"
proof -
  let ?m = "map (\<lambda>(k, ts). (k, live (window l) now ts)) (requests l)"
  have wf: "hm_wf ?m" using assms by (simp add: hm_wf_def comp_def case_prod_unfold)
  have "hm_get (hm_retain (\<lambda>_ ts. ts \<noteq> []) ?m) k = (case hm_get ?m k of Some (t # ts) \<Rightarrow> Some (t # ts) | _ \<Rightarrow> None)"
    by (cases "hm_get (hm_retain (\<lambda>_ ts. ts \<noteq> []) ?m) k")
      (use hm_get_retain [OF wf, of "\<lambda>_ ts. ts \<noteq> []" k] in \<open>auto split: option.splits list.splits\<close>)
  then show ?thesis
    by (auto simp: cleanup_def stored_def hm_get_map_snd live_def split: option.splits list.splits)
qed

lemma cleanup_follows: "follows l hist now \<Longrightarrow> follows (cleanup now l) hist now"
proof -
  assume f: "follows l hist now"
  have "hm_wf (requests (cleanup now l))"
    using f by (auto simp: follows_def cleanup_def hm_wf_def comp_def case_prod_unfold
        intro!: hm_wf_retain [unfolded hm_wf_def])
  moreover have "window (cleanup now l) = window l" by (simp add: cleanup_def)
  ultimately show ?thesis
    using f by (simp add: follows_def stored_cleanup live_live live_recent)
qed

lemma check_parts:
  assumes "hm_wf (requests l)"
  shows "fst (check k now l) \<longleftrightarrow> length (live (window l) now (stored (requests l) k)) < max_requests l" (is ?ok)
    and "window (snd (check k now l)) = window l" "max_requests (snd (check k now l)) = max_requests l"
    and "hm_wf (requests (snd (check k now l)))"
    and "stored (requests (snd (check k now l))) k' =
      (if k' = k then live (window l) now (stored (requests l) k) @ (if fst (check k now l) then [now] else [])
       else stored (requests l) k')"
  using assms
  by (auto simp: check_def stored_def Let_def live_def hm_simps hm.wf_insert hm.wf_remove split: option.splits)

lemma recent_snoc: "recent w now k (hist @ [(k', t)]) = recent w now k hist @ (if k' = k \<and> now - t < w then [t] else [])"
  by (simp add: recent_def)

lemma check_follows:
  assumes "follows l hist now"
  shows "fst (check k now l) \<longleftrightarrow> length (recent (window l) now k hist) < max_requests l"
    and "follows (snd (check k now l)) (if fst (check k now l) then hist @ [(k, now)] else hist) now"
proof -
  have wf: "hm_wf (requests l)" and eq: "\<And>k. live (window l) now (stored (requests l) k) = recent (window l) now k hist"
    using assms by (auto simp: follows_def)
  note parts = check_parts [OF wf]
  show "fst (check k now l) \<longleftrightarrow> length (recent (window l) now k hist) < max_requests l"
    by (simp add: parts(1) eq)
  have rec: "live (window l) now (recent (window l) now k hist) = recent (window l) now k hist"
    by (simp add: live_recent)
  have app: "live w now (xs @ ys) = live w now xs @ live w now ys" for w xs ys
    by (simp add: live_def)
  have "live (window l) now (stored (requests (snd (check k now l))) k') =
      recent (window l) now k' (if fst (check k now l) then hist @ [(k, now)] else hist)" for k'
    by (auto simp: parts(5) eq app rec recent_snoc) (auto simp: live_def)
  then show "follows (snd (check k now l)) (if fst (check k now l) then hist @ [(k, now)] else hist) now"
    using parts(2-4) by (simp add: follows_def)
qed

lemma admitted_spec:
  assumes "follows l hist now" "sorted (now # map op_time ops)"
  shows "admitted l ops = spec_admitted (max_requests l) (window l) hist ops"
  using assms
proof (induction ops arbitrary: l hist now)
  case (Cons op ops)
  show ?case
  proof (cases op)
    case (Check k t)
    have f: "follows l hist t" using Cons.prems Check by (auto intro: follows_mono)
    have wf: "hm_wf (requests l)" using f by (simp add: follows_def)
    obtain ok l' where c: "check k t l = (ok, l')" by fastforce
    have ok: "ok \<longleftrightarrow> length (recent (window l) t k hist) < max_requests l"
      and f': "follows l' (if ok then hist @ [(k, t)] else hist) t"
      using check_follows [OF f, of k] c by auto
    have "admitted l' ops = spec_admitted (max_requests l) (window l) (if ok then hist @ [(k, t)] else hist) ops"
      using Cons.IH [OF f'] Cons.prems(2) Check check_parts(2,3) [OF wf, of k t] c by simp
    then show ?thesis using Check c ok by simp
  next
    case (Cleanup t)
    have f: "follows (cleanup t l) hist t"
      using Cons.prems Cleanup by (auto intro!: cleanup_follows intro: follows_mono)
    show ?thesis
      using Cons.IH [OF f] Cons.prems(2) Cleanup by (simp add: cleanup_def)
  qed
qed simp

lemma new_follows: "follows (limiter_new mx secs) [] 0"
  by (simp add: follows_def limiter_new_def stored_def live_def recent_def)

text \<open>The requests of a key in the window that ends at \<open>t\<close>.\<close>

definition in_window :: "nat \<Rightarrow> string \<Rightarrow> nat \<Rightarrow> (string \<times> nat) list \<Rightarrow> nat" where
  "in_window w key t hist = length (filter (\<lambda>(k, s). k = key \<and> s \<le> t \<and> t - s < w) hist)"

lemma in_window_append [simp]: "in_window w key t (xs @ ys) = in_window w key t xs + in_window w key t ys"
  by (simp add: in_window_def)

lemma in_window_bound_step:
  assumes "\<forall>t. in_window w key t hist \<le> mx" "\<forall>(k, s) \<in> set hist. s \<le> now" "length (recent w now k hist) < mx"
  shows "in_window w key t (hist @ [(k, now)]) \<le> mx"
proof (cases "k = key \<and> now \<le> t \<and> t - now < w")
  case True
  have "in_window w key t hist \<le> length (recent w now k hist)"
    unfolding in_window_def recent_def length_map
  proof (rule length_filter_imp)
  qed (use True assms(2) in auto)
  then show ?thesis using assms(3) by (simp add: in_window_def [of _ _ _ "[_]"])
next
  case False
  then show ?thesis using assms(1) by (auto simp: in_window_def [of _ _ _ "[_]"])
qed

lemma spec_admitted_window:
  assumes "\<forall>t. in_window w key t hist \<le> mx" "\<forall>(k, s) \<in> set hist. s \<le> now" "sorted (now # map op_time ops)"
  shows "in_window w key t (hist @ spec_admitted mx w hist ops) \<le> mx"
  using assms
proof (induction ops arbitrary: hist now)
  case (Cons op ops)
  show ?case
  proof (cases op)
    case (Check k s)
    have past: "\<forall>(k, s') \<in> set hist. s' \<le> s" using Cons.prems Check by auto
    show ?thesis
    proof (cases "length (recent w s k hist) < mx")
      case True
      have "in_window w key t ((hist @ [(k, s)]) @ spec_admitted mx w (hist @ [(k, s)]) ops) \<le> mx"
      proof (rule Cons.IH)
        show "\<forall>t. in_window w key t (hist @ [(k, s)]) \<le> mx"
          using in_window_bound_step [OF Cons.prems(1) past True] by blast
        show "\<forall>(k', s') \<in> set (hist @ [(k, s)]). s' \<le> s" using past by auto
        show "sorted (s # map op_time ops)" using Cons.prems(3) Check by auto
      qed
      then show ?thesis using True Check by simp
    next
      case False
      have "in_window w key t (hist @ spec_admitted mx w hist ops) \<le> mx"
        by (rule Cons.IH [OF Cons.prems(1) past]) (use Cons.prems(3) Check in auto)
      then show ?thesis using False Check by simp
    qed
  next
    case (Cleanup s)
    have "in_window w key t (hist @ spec_admitted mx w hist ops) \<le> mx"
      by (rule Cons.IH [OF Cons.prems(1), of s]) (use Cons.prems Cleanup in auto)
    then show ?thesis using Cleanup by simp
  qed
qed simp

lemma limiter_window:
  assumes "sorted (map op_time ops)"
  shows "in_window (secs * 1000000000) key t (admitted (limiter_new mx secs) ops) \<le> mx"
proof -
  have s: "sorted (0 # map op_time ops)" using assms by simp
  have "admitted (limiter_new mx secs) ops = spec_admitted mx (secs * 1000000000) [] ops"
    using admitted_spec [OF new_follows s] by (simp add: limiter_new_def)
  moreover have "in_window (secs * 1000000000) key t ([] @ spec_admitted mx (secs * 1000000000) [] ops) \<le> mx"
    by (rule spec_admitted_window [OF _ _ s]) (auto simp: in_window_def)
  ultimately show ?thesis by simp
qed

text \<open>
  C15. The rate limiter lets a request pass exactly when fewer than the maximum of its key passed
  within the window before it, whenever expired entries are dropped; so no window of that length, wherever
  it ends, contains more than the maximum.
\<close>

theorem rate_limiter_sliding_window:
  assumes "sorted (map op_time ops)"
  shows "admitted (limiter_new mx secs) ops = spec_admitted mx (secs * 1000000000) [] ops \<and>
    in_window (secs * 1000000000) key t (admitted (limiter_new mx secs) ops) \<le> mx"
proof
  have s: "sorted (0 # map op_time ops)" using assms by simp
  show "admitted (limiter_new mx secs) ops = spec_admitted mx (secs * 1000000000) [] ops"
    using admitted_spec [OF new_follows s] by (simp add: limiter_new_def)
  show "in_window (secs * 1000000000) key t (admitted (limiter_new mx secs) ops) \<le> mx"
    using assms by (rule limiter_window)
qed

theorem rate_limiter_sliding_window_witness:
  "let ops = [Check ''a'' 5, Check ''b'' 6, Check ''a'' 7, Cleanup 8, Check ''a'' 1000000005] in
   sorted (map op_time ops) \<and> admitted (limiter_new 1 1) ops = [(''a'', 5), (''b'', 6), (''a'', 1000000005)] \<and>
   in_window 1000000000 ''a'' 1000000005 (admitted (limiter_new 1 1) ops) \<le> 1"
proof -
  let ?ops = "[Check ''a'' 5, Check ''b'' 6, Check ''a'' 7, Cleanup 8, Check ''a'' 1000000005]"
  have s: "sorted (map op_time ?ops)" by simp
  have e: "spec_admitted 1 1000000000 [] ?ops = [(''a'', 5), (''b'', 6), (''a'', 1000000005)]"
    by (simp add: recent_def)
  show ?thesis
    using s rate_limiter_sliding_window [OF s, of 1 1 "''a''" 1000000005, unfolded mult_1 e]
    unfolding Let_def by blast
qed

section \<open>The middleware limits each peer\<close>

text \<open>The requests that a server with the middleware passes on, with their times.\<close>

fun served :: "bool \<Rightarrow> limiter_backend \<Rightarrow> (request \<times> nat) list \<Rightarrow> (request \<times> nat) list" where
  "served trust b [] = []"
| "served trust b ((req, now) # rs) =
     (case rate_limit_layer NoConnection trust req now b of
        (Some req, b) \<Rightarrow> (req, now) # served trust b rs
      | (None, b) \<Rightarrow> served trust b rs)"

lemma direct_ip: "extract_client_ip req False = (case peer req of Some ip \<Rightarrow> ip | None \<Rightarrow> ''unknown'')"
  by (simp add: extract_client_ip_def Let_def)

lemma served_admitted:
  "map (\<lambda>(req, now). (extract_client_ip req trust, now)) (served trust (InMemory l) rs) =
   admitted l (map (\<lambda>(req, now). Check (extract_client_ip req trust) now) rs)"
  by (induction rs arbitrary: l) (auto simp: rate_limit_layer_def backend_check_def Let_def split: prod.splits)

text \<open>
  Behind no proxy, the middleware serves a peer at most the maximum number of requests in any
  window, whatever forwarding headers the requests carry.
\<close>

theorem layer_limits_peer:
  assumes "sorted (map snd rs)"
  shows "length (filter (\<lambda>(req, s). peer req = Some ip \<and> s \<le> t \<and> t - s < secs * 1000000000)
           (served False (InMemory (limiter_new mx secs)) rs)) \<le> mx"
proof -
  let ?ops = "map (\<lambda>(req, now). Check (extract_client_ip req False) now) rs"
  let ?w = "secs * 1000000000" and ?s = "served False (InMemory (limiter_new mx secs)) rs"
  have "map op_time ?ops = map snd rs" by (auto simp: case_prod_unfold)
  then have "sorted (map op_time ?ops)" using assms by (simp only:)
  then have "in_window ?w ip t (admitted (limiter_new mx secs) ?ops) \<le> mx"
    by (rule limiter_window)
  then have "in_window ?w ip t (map (\<lambda>(req, now). (extract_client_ip req False, now)) ?s) \<le> mx"
    unfolding served_admitted .
  moreover have "length (filter (\<lambda>(req, s). peer req = Some ip \<and> s \<le> t \<and> t - s < ?w) ?s) \<le>
      in_window ?w ip t (map (\<lambda>(req, now). (extract_client_ip req False, now)) ?s)"
    unfolding in_window_def filter_map length_map
    by (rule length_filter_imp) (auto simp: direct_ip)
  ultimately show ?thesis by linarith
qed

theorem layer_limits_peer_witness:
  "let r = (\<lambda>h. \<lparr>forwarded_for = Some h, real_ip = None, peer = Some ''9.9.9.9''\<rparr>); rs = [(r ''1.1.1.1'', 1), (r ''2.2.2.2'', 2)] in
   sorted (map snd rs) \<and>
   length (filter (\<lambda>(req, s). peer req = Some ''9.9.9.9'' \<and> s \<le> 2 \<and> 2 - s < 1 * 1000000000)
     (served False (InMemory (limiter_new 1 1)) rs)) \<le> 1"
  using layer_limits_peer [of "[(\<lparr>forwarded_for = Some ''1.1.1.1'', real_ip = None, peer = Some ''9.9.9.9''\<rparr>, 1),
    (\<lparr>forwarded_for = Some ''2.2.2.2'', real_ip = None, peer = Some ''9.9.9.9''\<rparr>, 2)]" "''9.9.9.9''" 2 1 1]
  by (simp add: Let_def)

lemma unat_u32_inc: "Suc (unat w) < 2 ^ 32 \<Longrightarrow> unat (w + 1) = Suc (unat w)" for w :: u32
  by (simp add: unat_word_ariths)

section \<open>The WebSocket limit is a fixed window\<close>

definition count_between :: "nat \<Rightarrow> nat \<Rightarrow> nat list \<Rightarrow> nat" where
  "count_between a b ts = length (filter (\<lambda>t. a \<le> t \<and> t < b) ts)"

lemma count_between_snoc [simp]:
  "count_between a b (ts @ [t]) = count_between a b ts + (if a \<le> t \<and> t < b then 1 else 0)"
  by (simp add: count_between_def)

lemma count_between_mono:
  "(\<And>t. t \<in> set ts \<Longrightarrow> a \<le> t \<Longrightarrow> t < b \<Longrightarrow> a' \<le> t \<and> t < b') \<Longrightarrow> count_between a b ts \<le> count_between a' b' ts"
  unfolding count_between_def by (rule length_filter_imp) auto

lemma count_between_split: "a \<le> m \<Longrightarrow> m \<le> b \<Longrightarrow> count_between a b ts = count_between a m ts + count_between m b ts"
  by (induction ts) (auto simp: count_between_def)

text \<open>\<open>ts\<close>: the times of the messages passed so far.\<close>

definition ws_inv :: "ws_limits \<Rightarrow> ws_state \<Rightarrow> nat list \<Rightarrow> nat \<Rightarrow> bool" where
  "ws_inv l s ts now \<longleftrightarrow>
     rate_window_start s \<le> now \<and> (\<forall>t \<in> set ts. t \<le> now \<and> t < rate_window_start s + one_sec) \<and>
     count_between (rate_window_start s) (Suc now) ts \<le> min (unat (msg_count s)) (unat (max_messages_per_sec l)) \<and>
     count_between (rate_window_start s - one_sec) (rate_window_start s) ts \<le> unat (max_messages_per_sec l) \<and>
     (\<forall>t. count_between t (t + one_sec) ts \<le> 2 * unat (max_messages_per_sec l))"

lemma two_windows:
  assumes "\<And>t. t + one_sec \<le> beg \<Longrightarrow> count_between t (t + one_sec) ts \<le> 2 * m"
    and "count_between beg e ts \<le> m" "count_between (beg - one_sec) beg ts \<le> m" "\<forall>t \<in> set ts. t < e"
  shows "count_between t (t + one_sec) ts \<le> 2 * m"
proof -
  consider "t + one_sec \<le> beg" | "beg \<le> t" | "t < beg" "beg < t + one_sec" by linarith
  then show ?thesis
  proof cases
    case 1
    then show ?thesis by (rule assms(1))
  next
    case 2
    have "count_between t (t + one_sec) ts \<le> count_between beg e ts"
      by (rule count_between_mono) (use 2 assms(4) in auto)
    then show ?thesis using assms(2) by linarith
  next
    case 3
    have "count_between t beg ts \<le> count_between (beg - one_sec) beg ts"
      by (rule count_between_mono) (use 3 in auto)
    moreover have "count_between beg (t + one_sec) ts \<le> count_between beg e ts"
      by (rule count_between_mono) (use assms(4) in auto)
    ultimately show ?thesis
      using assms(2,3) count_between_split [of t beg "t + one_sec" ts] 3 by linarith
  qed
qed

lemma count_between_empty: "\<forall>t \<in> set ts. t < a \<Longrightarrow> count_between a b ts = 0"
  by (auto simp: count_between_def filter_empty_conv)

lemma ws_inv_mono:
  assumes "ws_inv l s ts now" "now \<le> now'"
  shows "ws_inv l s ts now'"
proof -
  have "count_between (rate_window_start s) (Suc now') ts \<le> count_between (rate_window_start s) (Suc now) ts"
    by (rule count_between_mono) (use assms in \<open>auto simp: ws_inv_def less_Suc_eq_le\<close>)
  then show ?thesis using assms by (fastforce simp: ws_inv_def)
qed

lemma ws_inv_reset:
  assumes "ws_inv l s ts now" "rate_window_start s + one_sec \<le> now"
  shows "ws_inv l (s\<lparr>msg_count := 0, rate_window_start := now\<rparr>) ts now"
proof -
  have past: "\<forall>t \<in> set ts. t < now" using assms by (fastforce simp: ws_inv_def)
  have "count_between (now - one_sec) now ts \<le> count_between (rate_window_start s) (Suc now) ts"
    by (rule count_between_mono) (use assms(2) in auto)
  then have "count_between (now - one_sec) now ts \<le> unat (max_messages_per_sec l)"
    using assms(1) by (auto simp: ws_inv_def)
  then show ?thesis
    using assms past by (fastforce simp: ws_inv_def count_between_empty)
qed

lemma ws_inv_count:
  assumes inv: "ws_inv l s ts now" and room: "now < rate_window_start s + one_sec" "Suc (unat (msg_count s)) < 2 ^ 32"
    and s': "s' = s\<lparr>msg_count := msg_count s + 1\<rparr>"
  shows "ws_inv l s' (if msg_count s' > max_messages_per_sec l then ts else ts @ [now]) now"
proof -
  have c: "unat (msg_count s + 1) = Suc (unat (msg_count s))"
    using room(2) by (rule unat_u32_inc)
  let ?m = "unat (max_messages_per_sec l)"
  show ?thesis
  proof (cases "msg_count s' > max_messages_per_sec l")
    case True
    then show ?thesis using inv s' by (auto simp: ws_inv_def c)
  next
    case False
    then have le: "Suc (unat (msg_count s)) \<le> ?m"
      using c by (simp add: s' not_less word_le_nat_alt)
    have A: "count_between (rate_window_start s) (Suc now) (ts @ [now]) \<le> Suc (unat (msg_count s))"
      using inv by (auto simp: ws_inv_def)
    have C: "count_between (rate_window_start s - one_sec) (rate_window_start s) (ts @ [now]) \<le> ?m"
      using inv by (auto simp: ws_inv_def)
    have "count_between t (t + one_sec) (ts @ [now]) \<le> 2 * ?m" for t
    proof (rule two_windows [where beg = "rate_window_start s" and e = "Suc now"])
      show "count_between t (t + one_sec) (ts @ [now]) \<le> 2 * ?m" if "t + one_sec \<le> rate_window_start s" for t
        using inv that by (auto simp: ws_inv_def)
      show "count_between (rate_window_start s) (Suc now) (ts @ [now]) \<le> ?m" using A le by linarith
      show "count_between (rate_window_start s - one_sec) (rate_window_start s) (ts @ [now]) \<le> ?m" by (rule C)
      show "\<forall>t \<in> set (ts @ [now]). t < Suc now" using inv by (auto simp: ws_inv_def less_Suc_eq_le)
    qed
    then show ?thesis
      using inv A C le False room(1) by (auto simp: ws_inv_def s' c)
  qed
qed

lemma client_text_inv:
  assumes "ws_inv l s ts now0" "now0 \<le> now" "Suc (unat (msg_count s)) < 2 ^ 32"
    and "client_text l now1 now len s = (ok, s')"
  shows "ws_inv l s' (if ok then ts @ [now] else ts) now \<and> unat (msg_count s') \<le> Suc (unat (msg_count s))"
proof -
  define s1 where "s1 = s\<lparr>idle_deadline := now1 + unat (idle_timeout_secs l) * one_sec\<rparr>"
  have inv1: "ws_inv l s1 ts now"
    using ws_inv_mono [OF assms(1,2)] by (simp add: ws_inv_def s1_def)
  define s2 where "s2 = (if (now - rate_window_start s1) div one_sec \<ge> 1
    then s1\<lparr>msg_count := 0, rate_window_start := now\<rparr> else s1)"
  have div: "(now - rate_window_start s1) div one_sec \<ge> 1 \<longleftrightarrow> rate_window_start s1 + one_sec \<le> now"
    using inv1 by (auto simp: ws_inv_def one_sec_def less_eq_div_iff_mult_less_eq)
  have inv2: "ws_inv l s2 ts now"
    using inv1 ws_inv_reset [OF inv1] div by (auto simp only: s2_def split: if_split)
  have room: "now < rate_window_start s2 + one_sec" "unat (msg_count s2) \<le> unat (msg_count s)"
    unfolding s2_def using div by (auto simp: s1_def one_sec_def not_le)
  have c: "unat (msg_count s2 + 1) = Suc (unat (msg_count s2))"
    using room(2) assms(3) by (intro unat_u32_inc) simp
  have cnt: "ws_inv l (s2\<lparr>msg_count := msg_count s2 + 1\<rparr>)
      (if msg_count s2 + 1 > max_messages_per_sec l then ts else ts @ [now]) now"
    using ws_inv_count [OF inv2 room(1) _ refl] room(2) assms(3) by simp
  show ?thesis
  proof (cases "len > max_message_size l")
    case True
    then show ?thesis using assms(4) inv1 by (auto simp: client_text_def Let_def s1_def)
  next
    case False
    then have "(ok, s') = (\<not> msg_count s2 + 1 > max_messages_per_sec l, s2\<lparr>msg_count := msg_count s2 + 1\<rparr>)"
      using assms(4) by (auto simp: client_text_def Let_def s1_def s2_def split: if_splits)
    then show ?thesis using cnt c room(2) by auto
  qed
qed

fun text_times :: "ws_event list \<Rightarrow> nat list" where
  "text_times [] = []"
| "text_times (ClientText now1 now len # evs) = now # text_times evs"
| "text_times (_ # evs) = text_times evs"

lemma ws_loop_bound:
  assumes "ws_inv l s ts now" "sorted (now # text_times evs)" "unat (msg_count s) + length evs < 2 ^ 32"
  shows "count_between t (t + one_sec) (ts @ fst (ws_loop l s evs)) \<le> 2 * unat (max_messages_per_sec l)"
  using assms
proof (induction evs arbitrary: s ts now)
  case (Cons ev evs)
  have fin: "count_between t (t + one_sec) ts \<le> 2 * unat (max_messages_per_sec l)"
    using Cons.prems(1) by (simp add: ws_inv_def)
  have skip: "count_between t (t + one_sec) (ts @ fst (ws_loop l s evs)) \<le> 2 * unat (max_messages_per_sec l)"
    if "text_times (ev # evs) = text_times evs"
    by (rule Cons.IH [OF Cons.prems(1)]) (use Cons.prems that in auto)
  show ?case
  proof (cases ev)
    case (ClientText now1 now' len)
    obtain ok s' where st: "client_text l now1 now' len s = (ok, s')" by fastforce
    have inv: "ws_inv l s' (if ok then ts @ [now'] else ts) now'" "unat (msg_count s') \<le> Suc (unat (msg_count s))"
      using client_text_inv [OF Cons.prems(1) _ _ st] Cons.prems(2,3) ClientText by auto
    have "count_between t (t + one_sec) ((if ok then ts @ [now'] else ts) @ fst (ws_loop l s' evs)) \<le>
        2 * unat (max_messages_per_sec l)"
      by (rule Cons.IH [OF inv(1)]) (use Cons.prems(2,3) ClientText inv(2) in auto)
    then show ?thesis
      using ClientText st by (simp add: case_prod_unfold Let_def split: if_splits)
  qed (use fin skip in auto)
qed (simp add: ws_inv_def)

text \<open>
  In every period of one second the handler of a WebSocket connection sees at most twice the
  configured number of messages, provided that the connection carries fewer than \<open>2 ^ 32\<close> events, so that
  the counter does not wrap.
\<close>

theorem ws_rate_bound:
  assumes "sorted (t0 # text_times evs)" "length evs < 2 ^ 32"
  shows "count_between t (t + one_sec) (fst (ws_loop l (ws_start l t0 t1) evs)) \<le> 2 * unat (max_messages_per_sec l)"
proof -
  have "ws_inv l (ws_start l t0 t1) [] t0"
    by (simp add: ws_inv_def ws_start_def count_between_def)
  from ws_loop_bound [OF this assms(1)] show ?thesis
    using assms(2) by (simp add: ws_start_def)
qed

text \<open>The counter is a fixed window, so the factor two is reached: two messages pass within a nanosecond.\<close>

theorem ws_rate_bound_witness:
  "let l = default_ws_limits\<lparr>max_messages_per_sec := 1\<rparr>; evs = [ClientText 0 999999999 5, ClientText 0 1000000000 5] in
   sorted (0 # text_times evs) \<and> length evs < 2 ^ 32 \<and>
   fst (ws_loop l (ws_start l 0 0) evs) = [999999999, 1000000000] \<and>
   count_between 999999999 (999999999 + one_sec) (fst (ws_loop l (ws_start l 0 0) evs)) \<le> 2 * 1"
proof -
  let ?l = "default_ws_limits\<lparr>max_messages_per_sec := 1\<rparr>"
  let ?evs = "[ClientText 0 999999999 5, ClientText 0 1000000000 5]"
  have s: "sorted (0 # text_times ?evs)" "length ?evs < 2 ^ 32" by simp_all
  have "fst (ws_loop ?l (ws_start ?l 0 0) ?evs) = [999999999, 1000000000]"
    by (simp add: ws_start_def client_text_def default_ws_limits_def one_sec_def)
  then show ?thesis
    using s ws_rate_bound [OF s, of 999999999 ?l 0] by (simp add: Let_def)
qed

section \<open>Pages\<close>

lemma page_limit_range: "1 \<le> page_limit pg \<and> page_limit pg \<le> 100"
  by (simp add: page_limit_def)

lemma wrap_i64_id: "- (2 ^ 63) \<le> x \<Longrightarrow> x < 2 ^ 63 \<Longrightarrow> wrap_i64 x = x"
  by (simp add: wrap_i64_def)

text \<open>
  Pages tile the result: for page numbers whose rows are addressable, the rows of a page are the
  interval of the limit's length that starts where the page before ends, and the first starts at zero. The
  page size is between 1 and 100, and the sort column that goes into the SQL text is one of the allowed
  columns (or \<open>id\<close> when none is given).
\<close>

theorem pages_tile:
  assumes "0 \<le> page pg" "(page pg + 1) * 100 < 2 ^ 63"
  shows "page_offset pg = page pg * page_limit pg \<and>
     page_offset (pg\<lparr>page := page pg + 1\<rparr>) = page_offset pg + page_limit pg \<and>
     1 \<le> page_limit pg \<and> page_limit pg \<le> 100 \<and>
     validated_sort_column pg allowed \<in> set (if allowed = [] then [''id''] else allowed)"
proof -
  have lim: "1 \<le> page_limit pg" "page_limit pg \<le> 100" using page_limit_range by auto
  have "(page pg + 1) * page_limit pg \<le> (page pg + 1) * 100"
    using assms(1) lim by (intro mult_left_mono) auto
  then have hi: "(page pg + 1) * page_limit pg < 2 ^ 63" using assms(2) by linarith
  have lo: "0 \<le> page pg * page_limit pg" "0 \<le> (page pg + 1) * page_limit pg"
    using assms(1) lim by simp_all
  have le: "page pg * page_limit pg \<le> (page pg + 1) * page_limit pg"
    using lim by (simp add: distrib_right)
  have "page_offset pg = page pg * page_limit pg"
    unfolding page_offset_def using assms(1) lo le hi by (simp add: wrap_i64_id)
  moreover have "page_offset (pg\<lparr>page := page pg + 1\<rparr>) = (page pg + 1) * page_limit pg"
  proof -
    have "page_limit (pg\<lparr>page := page pg + 1\<rparr>) = page_limit pg" by (simp add: page_limit_def)
    then show ?thesis
      unfolding page_offset_def using assms(1) lo hi by (simp add: wrap_i64_id)
  qed
  moreover have "validated_sort_column pg allowed \<in> set (if allowed = [] then [''id''] else allowed)"
    by (simp add: validated_sort_column_def split: option.splits)
  ultimately show ?thesis using lim by (simp add: distrib_right)
qed

definition ex_page :: "int \<Rightarrow> pagination" where
  "ex_page p = \<lparr>page = p, page_size = 1000, sort_by = Some ''id; DROP TABLE users'', sort_dir = None, search = None\<rparr>"

theorem pages_tile_witness:
  "page_offset (ex_page 2) = 200 \<and> page_offset (ex_page 3) = 300 \<and> validated_sort_column (ex_page 2) [''name''] = ''name''"
proof -
  have h: "0 \<le> page (ex_page 2)" "(page (ex_page 2) + 1) * 100 < 2 ^ 63" by (simp_all add: ex_page_def)
  have "(ex_page 2)\<lparr>page := page (ex_page 2) + 1\<rparr> = ex_page 3" "page_limit (ex_page 2) = 100"
    by (simp_all add: ex_page_def page_limit_def)
  then show ?thesis using pages_tile [OF h, of "[''name'']"] by (simp add: ex_page_def)
qed

text \<open>A page number near the end of the 64-bit range gives a negative offset.\<close>

theorem page_offset_overflow: "page_offset ((ex_page 0)\<lparr>page := 2 ^ 62\<rparr>) = 0 \<and> page_offset ((ex_page 0)\<lparr>page := 2 ^ 62 div 50 + 1\<rparr>) < 0"
  by (simp add: page_offset_def page_limit_def ex_page_def wrap_i64_def)

end
