(* ===== verification/Core_Broadcast.thy ===== *)
theory Core_Broadcast
  imports Rust_Std
begin

text \<open>
  The registry of WebSocket rooms (\<open>crates/runesh-core/src/ws_broadcast.rs\<close>, \<open>BroadcastRegistry\<close>) as a
  transition system of interleaved tasks.

  A tokio broadcast channel is its identity and its set of receivers; a message sent on it is appended
  to the inbox of each. That a receiver which lags more than the capacity loses messages belongs to tokio
  and is left out. \<open>subscribe\<close> is two steps, as in the code: \<open>get_or_create\<close> returns a sender after the lock is
  released, and the receiver is made from that sender afterwards.
\<close>

record receiver =
  owner :: nat
  room_of :: string
  chan_of :: nat

record registry =
  channels :: "(string, nat) hash_map"
  next_chan :: nat
  senders :: "receiver list"
  receivers :: "receiver list"
  inbox :: "nat \<Rightarrow> string list"

definition registry_new :: registry where
  "registry_new = \<lparr>channels = [], next_chan = 0, senders = [], receivers = [], inbox = (\<lambda>_. [])\<rparr>"

definition get_or_create :: "string \<Rightarrow> registry \<Rightarrow> nat \<times> registry" where
  "get_or_create room s =
     (case hm_get (channels s) room of
        Some c \<Rightarrow> (c, s)
      | None \<Rightarrow> (next_chan s, s\<lparr>channels := hm_insert room (next_chan s) (channels s), next_chan := next_chan s + 1\<rparr>))"

text \<open>The two halves of \<open>subscribe\<close> by the task \<open>t\<close>.\<close>

definition subscribe_begin :: "nat \<Rightarrow> string \<Rightarrow> registry \<Rightarrow> registry" where
  "subscribe_begin t room s =
     (let (c, s) = get_or_create room s in s\<lparr>senders := \<lparr>owner = t, room_of = room, chan_of = c\<rparr> # senders s\<rparr>)"

definition subscribe_end :: "receiver \<Rightarrow> registry \<Rightarrow> registry" where
  "subscribe_end r s = s\<lparr>senders := remove1 r (senders s), receivers := r # receivers s\<rparr>"

definition unsubscribe :: "receiver \<Rightarrow> registry \<Rightarrow> registry" where
  "unsubscribe r s = s\<lparr>receivers := removeAll r (receivers s)\<rparr>"

definition receiver_count :: "nat \<Rightarrow> registry \<Rightarrow> nat" where
  "receiver_count c s = length (filter (\<lambda>r. chan_of r = c) (receivers s))"

definition send :: "string \<Rightarrow> string \<Rightarrow> registry \<Rightarrow> nat \<times> registry" where
  "send room message s =
     (case hm_get (channels s) room of
        Some c \<Rightarrow>
          (receiver_count c s,
           s\<lparr>inbox := (\<lambda>t. inbox s t @ (if \<exists>r \<in> set (receivers s). owner r = t \<and> chan_of r = c then [message] else []))\<rparr>)
      | None \<Rightarrow> (0, s))"

definition cleanup_channels :: "registry \<Rightarrow> registry" where
  "cleanup_channels s = s\<lparr>channels := hm_retain (\<lambda>_ c. receiver_count c s > 0) (channels s)\<rparr>"

text \<open>
  The tasks interleave. With \<open>excl\<close> the clean-up waits until no \<open>subscribe\<close> is between its halves; the code
  does not wait.
\<close>

inductive reach :: "bool \<Rightarrow> registry \<Rightarrow> bool" for excl where
  init: "reach excl registry_new"
| sub_begin: "reach excl s \<Longrightarrow> reach excl (subscribe_begin t room s)"
| sub_end: "reach excl s \<Longrightarrow> r \<in> set (senders s) \<Longrightarrow> reach excl (subscribe_end r s)"
| unsub: "reach excl s \<Longrightarrow> reach excl (unsubscribe r s)"
| snd_msg: "reach excl s \<Longrightarrow> reach excl (snd (send room m s))"
| clean: "reach excl s \<Longrightarrow> (excl \<longrightarrow> senders s = []) \<Longrightarrow> reach excl (cleanup_channels s)"

section \<open>Rooms are isolated\<close>

text \<open>The pairs of room and channel in the state; a channel belongs to one room for ever.\<close>

definition bindings :: "registry \<Rightarrow> (string \<times> nat) set" where
  "bindings s = set (channels s) \<union> (\<lambda>r. (room_of r, chan_of r)) ` (set (senders s) \<union> set (receivers s))"

definition isolated :: "registry \<Rightarrow> bool" where
  "isolated s \<longleftrightarrow>
     hm_wf (channels s) \<and> (\<forall>k c. (k, c) \<in> bindings s \<longrightarrow> c < next_chan s) \<and>
     (\<forall>k k' c. (k, c) \<in> bindings s \<longrightarrow> (k', c) \<in> bindings s \<longrightarrow> k = k')"

lemma isolated_wf: "isolated s \<Longrightarrow> hm_wf (channels s)"
  by (simp add: isolated_def)

lemma isolated_subset:
  "isolated s \<Longrightarrow> bindings s' \<subseteq> bindings s \<Longrightarrow> next_chan s' = next_chan s \<Longrightarrow> hm_wf (channels s') \<Longrightarrow> isolated s'"
  unfolding isolated_def by (metis subsetD)

lemma isolated_get:
  assumes "isolated s" "hm_get (channels s) k = Some c" "(k', c) \<in> bindings s"
  shows "k' = k"
proof -
  have "(k, c) \<in> bindings s" using assms(2) by (simp add: bindings_def hm_get_Some_mem)
  then show ?thesis using assms(1,3) unfolding isolated_def by blast
qed

lemma isolated_get_or_create:
  assumes "isolated s" "get_or_create room s = (c, s')"
  shows "isolated s'" "(room, c) \<in> bindings s'" "senders s' = senders s"
proof -
  show "senders s' = senders s" using assms(2) by (auto simp: get_or_create_def split: option.splits)
  show "(room, c) \<in> bindings s'"
    using assms(2) by (auto simp: get_or_create_def bindings_def hm_simps intro!: hm_get_Some_mem split: option.splits)
  show "isolated s'"
  proof (cases "hm_get (channels s) room")
    case None
    have s': "s' = s\<lparr>channels := hm_insert room (next_chan s) (channels s), next_chan := next_chan s + 1\<rparr>"
      using None assms(2) by (auto simp: get_or_create_def)
    have "set (hm_insert room (next_chan s) (channels s)) \<subseteq> insert (room, next_chan s) (set (channels s))"
      by (rule set_hm_insert)
    then have sub: "bindings s' \<subseteq> insert (room, next_chan s) (bindings s)"
      by (auto simp: s' bindings_def)
    have old: "c' < next_chan s" if "(k, c') \<in> bindings s" for k c'
      using assms(1) that unfolding isolated_def by blast
    have inj: "k = k'" if "(k, c') \<in> bindings s" "(k', c') \<in> bindings s" for k k' c'
      using assms(1) that unfolding isolated_def by blast
    have mem: "p = (room, next_chan s) \<or> p \<in> bindings s" if "p \<in> bindings s'" for p
      using that sub by blast
    have wf: "hm_wf (channels s')" using assms(1) by (simp add: s' isolated_def hm.wf_insert)
    have "c' < next_chan s'" if "(k, c') \<in> bindings s'" for k c'
      using mem [OF that] old [of k c'] by (auto simp: s')
    moreover have "k = k'" if "(k, c') \<in> bindings s'" "(k', c') \<in> bindings s'" for k k' c'
      using mem [OF that(1)] mem [OF that(2)] inj [of k c' k'] old [of k c'] old [of k' c'] by auto
    ultimately show ?thesis using wf unfolding isolated_def by blast
  qed (use assms in \<open>auto simp: get_or_create_def\<close>)
qed

lemma reach_isolated: "reach excl s \<Longrightarrow> isolated s"
proof (induction rule: reach.induct)
  case init
  then show ?case by (simp add: isolated_def bindings_def registry_new_def)
next
  case (sub_begin s t room)
  obtain c s' where g: "get_or_create room s = (c, s')" by fastforce
  note i = isolated_get_or_create [OF sub_begin.IH g]
  have "isolated (s'\<lparr>senders := \<lparr>owner = t, room_of = room, chan_of = c\<rparr> # senders s'\<rparr>)"
    by (rule isolated_subset [OF i(1)]) (use isolated_wf [OF i(1)] i(2) in \<open>auto simp: bindings_def\<close>)
  then show ?case using g by (simp add: subscribe_begin_def)
next
  case (sub_end s r)
  show ?case
    by (rule isolated_subset [OF sub_end.IH])
      (use sub_end isolated_wf [OF sub_end.IH] set_remove1_subset [of r "senders s"] in \<open>auto simp: subscribe_end_def bindings_def\<close>)
next
  case (unsub s r)
  show ?case
    by (rule isolated_subset [OF unsub.IH]) (use unsub isolated_wf [OF unsub.IH] in \<open>auto simp: unsubscribe_def bindings_def\<close>)
next
  case (snd_msg s room m)
  show ?case
    by (rule isolated_subset [OF snd_msg.IH])
      (use snd_msg isolated_wf [OF snd_msg.IH] in \<open>auto simp: send_def bindings_def split: option.splits\<close>)
next
  case (clean s)
  show ?case
    by (rule isolated_subset [OF clean.IH])
      (use clean isolated_wf [OF clean.IH] in \<open>auto simp: cleanup_channels_def bindings_def hm_wf_retain\<close>, auto simp: hm_retain_def)
qed

lemma send_inbox:
  assumes "isolated s"
  shows "inbox (snd (send room m s)) t =
    inbox s t @ (if \<exists>r \<in> set (receivers s). owner r = t \<and> room_of r = room \<and> hm_get (channels s) room = Some (chan_of r)
                 then [m] else [])"
proof (cases "hm_get (channels s) room")
  case (Some c)
  have "room_of r = room" if "r \<in> set (receivers s)" "chan_of r = c" for r
    using that by (intro isolated_get [OF assms Some]) (auto simp: bindings_def)
  then show ?thesis using Some by (auto simp: send_def)
qed (auto simp: send_def)

section \<open>No subscriber is lost when the clean-up waits\<close>

definition attached :: "registry \<Rightarrow> bool" where
  "attached s \<longleftrightarrow>
     hm_wf (channels s) \<and>
     (\<forall>r \<in> set (senders s) \<union> set (receivers s). hm_get (channels s) (room_of r) = Some (chan_of r))"

lemma get_or_create_attached:
  assumes "attached s" "get_or_create room s = (c, s')"
  shows "attached s'" "hm_get (channels s') room = Some c"
  using assms by (auto simp: attached_def get_or_create_def hm_simps hm.wf_insert split: option.splits)

lemma reach_attached: "reach True s \<Longrightarrow> attached s"
proof (induction rule: reach.induct)
  case init
  then show ?case by (simp add: attached_def registry_new_def)
next
  case (sub_begin s t room)
  obtain c s' where g: "get_or_create room s = (c, s')" by fastforce
  then show ?case
    using get_or_create_attached [OF sub_begin.IH g] by (auto simp: subscribe_begin_def attached_def)
next
  case (sub_end s r)
  then show ?case
    using set_remove1_subset [of r "senders s"] by (auto simp: subscribe_end_def attached_def)
next
  case (unsub s r)
  then show ?case by (auto simp: unsubscribe_def attached_def)
next
  case (snd_msg s room m)
  then show ?case by (auto simp: send_def attached_def split: option.splits)
next
  case (clean s)
  have "receiver_count (chan_of r) s > 0" if "r \<in> set (receivers s)" for r
    using that by (auto simp: receiver_count_def filter_empty_conv)
  then show ?case
    using clean by (auto simp: cleanup_channels_def attached_def hm_wf_retain hm_get_retain)
qed

lemma attached_send:
  assumes "reach True s"
  shows "inbox (snd (send room m s)) t =
    inbox s t @ (if \<exists>r \<in> set (receivers s). owner r = t \<and> room_of r = room then [m] else [])"
proof -
  have "hm_get (channels s) room = Some (chan_of r)" if "r \<in> set (receivers s)" "room_of r = room" for r
    using reach_attached [OF assms] that by (auto simp: attached_def)
  then show ?thesis
    unfolding send_inbox [OF reach_isolated [OF assms]] by auto
qed

text \<open>
  C35. If the clean-up never runs between the two halves of a \<open>subscribe\<close>, a message sent to a room reaches
  exactly the tasks that have a receiver of that room, whatever the interleaving.
\<close>

theorem broadcast_reaches_room:
  assumes "reach True s"
  shows "inbox (snd (send room m s)) t =
    inbox s t @ (if \<exists>r \<in> set (receivers s). owner r = t \<and> room_of r = room then [m] else [])"
  using assms by (rule attached_send)

definition ex_room :: registry where
  "ex_room = subscribe_end \<lparr>owner = 1, room_of = ''r'', chan_of = 0\<rparr> (subscribe_begin 1 ''r'' registry_new)"

lemma ex_room_eq:
  "ex_room = \<lparr>channels = [(''r'', 0)], next_chan = 1, senders = [],
     receivers = [\<lparr>owner = 1, room_of = ''r'', chan_of = 0\<rparr>], inbox = (\<lambda>_. [])\<rparr>"
  by (simp add: ex_room_def subscribe_begin_def subscribe_end_def get_or_create_def registry_new_def hm_insert_def)

theorem broadcast_reaches_room_witness:
  "reach True ex_room \<and> inbox (snd (send ''r'' ''hi'' ex_room)) 1 = [''hi''] \<and> inbox (snd (send ''r'' ''hi'' ex_room)) 2 = []"
proof -
  have "\<lparr>owner = 1, room_of = ''r'', chan_of = 0\<rparr> \<in> set (senders (subscribe_begin 1 ''r'' registry_new))"
    by (simp add: subscribe_begin_def get_or_create_def registry_new_def)
  then have r: "reach True ex_room"
    unfolding ex_room_def by (intro sub_end sub_begin init)
  show ?thesis
    using r broadcast_reaches_room [OF r, of "''r''" "''hi''" 1] broadcast_reaches_room [OF r, of "''r''" "''hi''" 2]
    by (simp add: ex_room_eq)
qed

section \<open>The race with the clean-up\<close>

text \<open>
  In the code as it is, a clean-up between the two halves of a \<open>subscribe\<close> leaves a subscriber that never
  gets a message: its channel is no longer in the registry, and \<open>send\<close> finds no receiver. The rooms stay
  isolated nevertheless: a message only reaches receivers of its room.
\<close>

theorem cleanup_orphans_subscriber:
  "(\<exists>s. reach False s \<and> (\<exists>r \<in> set (receivers s). owner r = 1 \<and> room_of r = ''r'') \<and>
     fst (send ''r'' m s) = 0 \<and> inbox (snd (send ''r'' m s)) 1 = inbox s 1) \<and>
   (\<forall>s t room. reach False s \<longrightarrow> inbox (snd (send room m s)) t \<noteq> inbox s t \<longrightarrow>
     (\<exists>r \<in> set (receivers s). owner r = t \<and> room_of r = room))"
proof
  let ?r = "\<lparr>owner = 1, room_of = ''r'', chan_of = 0\<rparr>"
  let ?s0 = "cleanup_channels (subscribe_begin 1 ''r'' registry_new)"
  have s0: "?s0 = \<lparr>channels = [], next_chan = 1, senders = [?r], receivers = [], inbox = (\<lambda>_. [])\<rparr>"
    by (simp add: cleanup_channels_def subscribe_begin_def get_or_create_def registry_new_def hm_insert_def
        hm_retain_def receiver_count_def)
  have "reach False ?s0" by (intro clean sub_begin init) simp
  then have r: "reach False (subscribe_end ?r ?s0)" by (rule sub_end) (unfold s0, simp)
  have e: "subscribe_end ?r ?s0 = \<lparr>channels = [], next_chan = 1, senders = [], receivers = [?r], inbox = (\<lambda>_. [])\<rparr>"
    unfolding s0 by (simp add: subscribe_end_def)
  show "\<exists>s. reach False s \<and> (\<exists>r \<in> set (receivers s). owner r = 1 \<and> room_of r = ''r'') \<and>
     fst (send ''r'' m s) = 0 \<and> inbox (snd (send ''r'' m s)) 1 = inbox s 1"
    using r unfolding e
    by (intro exI [of _ "\<lparr>channels = [], next_chan = 1, senders = [], receivers = [?r], inbox = (\<lambda>_. [])\<rparr>"])
      (simp add: send_def)
  show "\<forall>s t room. reach False s \<longrightarrow> inbox (snd (send room m s)) t \<noteq> inbox s t \<longrightarrow>
     (\<exists>r \<in> set (receivers s). owner r = t \<and> room_of r = room)"
    using send_inbox [OF reach_isolated] by (auto split: if_splits)
qed

theorem cleanup_orphans_subscriber_witness:
  "reach False ex_room \<and> inbox (snd (send ''r'' ''hi'' ex_room)) 1 \<noteq> inbox ex_room 1 \<and>
   (\<exists>r \<in> set (receivers ex_room). owner r = 1 \<and> room_of r = ''r'')"
proof -
  have "\<lparr>owner = 1, room_of = ''r'', chan_of = 0\<rparr> \<in> set (senders (subscribe_begin 1 ''r'' registry_new))"
    by (simp add: subscribe_begin_def get_or_create_def registry_new_def)
  then have r: "reach False ex_room"
    unfolding ex_room_def by (intro sub_end sub_begin init)
  have d: "inbox (snd (send ''r'' ''hi'' ex_room)) 1 \<noteq> inbox ex_room 1"
    by (simp add: ex_room_eq send_def hm_get_def)
  show ?thesis
    using r d cleanup_orphans_subscriber [THEN conjunct2, rule_format, OF r d] by simp
qed

end
