(* ===== verification/Core_Upload.thy ===== *)
theory Core_Upload
  imports Rust_Std
begin

text \<open>
  Uploads (\<open>crates/runesh-core/src/upload.rs\<close>): the check of the file signature and the streaming of an upload
  through a temporary file into the storage directory.

  The storage directory is a map from file names to contents. The multipart field delivers chunks or a read
  error; the list ends where the stream ends. Every call of the file system can fail: the faults are an
  argument, numbered for the writes, with the number of bytes that the second read returns. The two fresh
  UUIDs are arguments.
\<close>

type_synonym bytes = "u8 list"

datatype app_error = BadRequest string | Internal string

definition MAGIC_BYTES :: "(string \<times> bytes) list" where
  "MAGIC_BYTES =
     [(''jpg'', [0xFF, 0xD8, 0xFF]),
      (''jpeg'', [0xFF, 0xD8, 0xFF]),
      (''png'', [0x89, 0x50, 0x4E, 0x47, 0x0D, 0x0A, 0x1A, 0x0A]),
      (''gif'', [0x47, 0x49, 0x46, 0x38]),
      (''webp'', [0x52, 0x49, 0x46, 0x46]),
      (''pdf'', [0x25, 0x50, 0x44, 0x46]),
      (''zip'', [0x50, 0x4B, 0x03, 0x04])]"

definition SAFE_UPLOAD_EXTENSIONS :: "string list" where
  "SAFE_UPLOAD_EXTENSIONS =
     [''jpg'', ''jpeg'', ''png'', ''gif'', ''webp'', ''pdf'', ''txt'', ''md'', ''csv'', ''json'', ''mp3'', ''mp4'', ''webm'',
      ''ogg'', ''wav'', ''zip'']"

definition validate_magic_bytes :: "bytes \<Rightarrow> string \<Rightarrow> app_error + unit" where
  "validate_magic_bytes dat extension =
     (let ext = to_ascii_lowercase extension;
          expected = map snd (filter (\<lambda>(e, _). e = ext) MAGIC_BYTES)
      in if expected = [] then Inr ()
         else if \<not> list_ex (\<lambda>magic. length dat \<ge> length magic \<and> take (length magic) dat = magic) expected
              then Inl (BadRequest (''File content does not match .'' @ ext @ '' format (magic bytes mismatch)''))
         else Inr ())"

record uploaded_file =
  filename :: string
  content_type :: string
  file_size :: nat
  storage_key :: string

record field =
  file_name :: "string option"
  field_type :: "string option"
  chunks :: "(string + bytes) list"

record faults =
  mkdir_err :: "string option"
  create_err :: "string option"
  write_err :: "nat \<Rightarrow> string option"
  flush_err :: "string option"
  reopen_err :: "string option"
  reread :: "string + nat"
  rename_err :: "string option"
  remove_ok :: bool

type_synonym store = "string \<Rightarrow> bytes option"

definition MAGIC_BUFFER :: nat where "MAGIC_BUFFER = 512"

definition path_extension :: "string \<Rightarrow> string" where
  "path_extension name =
     (let cs = components name in
      case (if cs = [] then CurDir else last cs) of
        Normal s \<Rightarrow> (case name_extension s of Some e \<Rightarrow> e | None \<Rightarrow> [])
      | _ \<Rightarrow> [])"

fun join_comma :: "string list \<Rightarrow> string" where
  "join_comma [] = []"
| "join_comma [s] = s"
| "join_comma (s # ss) = s @ '', '' @ join_comma ss"

definition check_extension :: "string \<Rightarrow> string list option \<Rightarrow> app_error + unit" where
  "check_extension ext allowed_extensions =
     (case allowed_extensions of
        Some allowed \<Rightarrow>
          if ext = [] \<or> \<not> list_ex (\<lambda>a. eq_ignore_ascii_case a ext) allowed
          then Inl (BadRequest (''File must have an allowed extension. Allowed: '' @ join_comma allowed))
          else Inr ()
      | None \<Rightarrow> Inr ())"

definition too_large :: "nat \<Rightarrow> app_error" where
  "too_large max_size = BadRequest (''File too large: exceeds max '' @ show_nat max_size @ '' bytes'')"

text \<open>The loop that fills the first 512 bytes; a longer chunk is split, its rest goes to \<open>trailing\<close>.\<close>

fun preamble_loop ::
    "nat \<Rightarrow> bytes \<Rightarrow> bytes list \<Rightarrow> nat \<Rightarrow> (string + bytes) list \<Rightarrow> app_error + (bytes \<times> bytes list \<times> nat \<times> (string + bytes) list)" where
  "preamble_loop max_size preamble trailing tot [] = Inr (preamble, trailing, tot, [])"
| "preamble_loop max_size preamble trailing tot (c # cs) =
     (if MAGIC_BUFFER \<le> length preamble then Inr (preamble, trailing, tot, c # cs)
      else case c of
        Inl e \<Rightarrow> Inl (BadRequest (''Failed to read upload: '' @ e))
      | Inr chunk \<Rightarrow>
          (let tot = tot + length chunk in
           if tot > max_size then Inl (too_large max_size)
           else
             let room = MAGIC_BUFFER - length preamble in
             if length chunk \<le> room then preamble_loop max_size (preamble @ chunk) trailing tot cs
             else preamble_loop max_size (preamble @ take room chunk) (trailing @ [drop room chunk]) tot cs))"

definition cleanup_on_err :: "faults \<Rightarrow> string \<Rightarrow> store \<Rightarrow> store" where
  "cleanup_on_err f temp st = (if remove_ok f then st(temp := None) else st)"

definition append_to :: "string \<Rightarrow> bytes \<Rightarrow> store \<Rightarrow> store" where
  "append_to temp dat st = st(temp \<mapsto> (case st temp of Some b \<Rightarrow> b | None \<Rightarrow> []) @ dat)"

text \<open>The writes of the preamble and of the trailing chunks; \<open>i\<close> numbers the writes.\<close>

fun write_chunks :: "faults \<Rightarrow> string \<Rightarrow> nat \<Rightarrow> store \<Rightarrow> bytes list \<Rightarrow> (app_error + nat) \<times> store" where
  "write_chunks f temp i st [] = (Inr i, st)"
| "write_chunks f temp i st (c # cs) =
     (case write_err f i of
        Some e \<Rightarrow> (Inl (Internal (''Failed to write file: '' @ e)), cleanup_on_err f temp st)
      | None \<Rightarrow> write_chunks f temp (Suc i) (append_to temp c st) cs)"

text \<open>The loop that drains the rest of the stream.\<close>

fun drain_loop :: "faults \<Rightarrow> string \<Rightarrow> nat \<Rightarrow> nat \<Rightarrow> nat \<Rightarrow> store \<Rightarrow> (string + bytes) list \<Rightarrow> (app_error + nat) \<times> store" where
  "drain_loop f temp max_size i tot st [] = (Inr tot, st)"
| "drain_loop f temp max_size i tot st (c # cs) =
     (case c of
        Inl e \<Rightarrow> (Inl (BadRequest (''Failed to read upload: '' @ e)), cleanup_on_err f temp st)
      | Inr chunk \<Rightarrow>
          (let tot = tot + length chunk in
           if tot > max_size then (Inl (too_large max_size), cleanup_on_err f temp st)
           else case write_err f i of
             Some e \<Rightarrow> (Inl (Internal (''Failed to write file: '' @ e)), cleanup_on_err f temp st)
           | None \<Rightarrow> drain_loop f temp max_size (Suc i) tot (append_to temp chunk st) cs))"

text \<open>The second check, on the first bytes of the temporary file.\<close>

definition second_check :: "faults \<Rightarrow> string \<Rightarrow> string \<Rightarrow> store \<Rightarrow> (app_error + unit) \<times> store" where
  "second_check f temp ext st =
     (case reopen_err f of
        Some e \<Rightarrow> (Inl (Internal (''Failed to reopen file: '' @ e)), cleanup_on_err f temp st)
      | None \<Rightarrow>
          (case reread f of
             Inl e \<Rightarrow> (Inl (Internal (''Failed to re-read file for validation: '' @ e)), st)
           | Inr n \<Rightarrow>
               (case validate_magic_bytes (take (min n MAGIC_BUFFER) (case st temp of Some b \<Rightarrow> b | None \<Rightarrow> [])) ext of
                  Inl e \<Rightarrow> (Inl e, cleanup_on_err f temp st)
                | Inr _ \<Rightarrow> (Inr (), st))))"

text \<open>From the creation of the temporary file to the rename.\<close>

definition persist ::
    "faults \<Rightarrow> string \<Rightarrow> string \<Rightarrow> string \<Rightarrow> nat \<Rightarrow> bytes \<times> bytes list \<times> nat \<times> (string + bytes) list \<Rightarrow> store \<Rightarrow> (app_error + nat) \<times> store" where
  "persist f temp key ext max_size pre st =
     (case pre of (preamble, trailing, tot, rest) \<Rightarrow>
      case create_err f of
        Some e \<Rightarrow> (Inl (Internal (''Failed to create file: '' @ e)), st)
      | None \<Rightarrow>
          (case write_chunks f temp 0 (st(temp \<mapsto> [])) (preamble # trailing) of
             (Inl e, st) \<Rightarrow> (Inl e, st)
           | (Inr i, st) \<Rightarrow>
          (case drain_loop f temp max_size i tot st rest of
             (Inl e, st) \<Rightarrow> (Inl e, st)
           | (Inr tot, st) \<Rightarrow>
          (case flush_err f of
             Some e \<Rightarrow> (Inl (Internal (''Failed to flush file: '' @ e)), cleanup_on_err f temp st)
           | None \<Rightarrow>
          (case (if ext \<noteq> [] then second_check f temp ext st else (Inr (), st)) of
             (Inl e, st) \<Rightarrow> (Inl e, st)
           | (Inr _, st) \<Rightarrow>
          (case rename_err f of
             Some e \<Rightarrow> (Inl (Internal (''Failed to commit upload: '' @ e)), cleanup_on_err f temp st)
           | None \<Rightarrow> (Inr tot, (st(temp := None))(key := st temp))))))))"

text \<open>The extension, the name of the stored file and the name of the temporary file.\<close>

definition upload_ext :: "field \<Rightarrow> string" where
  "upload_ext fld = path_extension (case file_name fld of Some s \<Rightarrow> s | None \<Rightarrow> ''upload'')"

definition key_of :: "string \<Rightarrow> field \<Rightarrow> string" where
  "key_of uuid1 fld =
     (if upload_ext fld = [] then uuid1 else uuid1 @ ''.'' @ to_ascii_lowercase (upload_ext fld))"

definition temp_of :: "string \<Rightarrow> string \<Rightarrow> field \<Rightarrow> string" where
  "temp_of uuid1 uuid2 fld = ''.tmp-'' @ uuid2 @ ''-'' @ key_of uuid1 fld"

definition save_upload ::
    "faults \<Rightarrow> string \<Rightarrow> string \<Rightarrow> field \<Rightarrow> nat \<Rightarrow> string list option \<Rightarrow> store \<Rightarrow> (app_error + uploaded_file) \<times> store" where
  "save_upload f uuid1 uuid2 fld max_size allowed_extensions st =
     (let name = (case file_name fld of Some s \<Rightarrow> s | None \<Rightarrow> ''upload'');
          ctype = (case field_type fld of Some s \<Rightarrow> s | None \<Rightarrow> ''application/octet-stream'');
          ext = upload_ext fld;
          key = key_of uuid1 fld;
          temp = temp_of uuid1 uuid2 fld
      in case check_extension ext allowed_extensions of
           Inl e \<Rightarrow> (Inl e, st)
         | Inr _ \<Rightarrow>
        (case mkdir_err f of
           Some e \<Rightarrow> (Inl (Internal (''Failed to create storage dir: '' @ e)), st)
         | None \<Rightarrow>
        (case preamble_loop max_size [] [] 0 (chunks fld) of
           Inl e \<Rightarrow> (Inl e, st)
         | Inr pre \<Rightarrow>
        (case (if ext \<noteq> [] then validate_magic_bytes (fst pre) ext else Inr ()) of
           Inl e \<Rightarrow> (Inl e, st)
         | Inr _ \<Rightarrow>
        (case persist f temp key ext max_size pre st of
           (Inl e, st) \<Rightarrow> (Inl e, st)
         | (Inr n, st) \<Rightarrow>
             (Inr \<lparr>filename = name, content_type = ctype, file_size = n, storage_key = key\<rparr>, st))))))"

section \<open>What the loops read and write\<close>

text \<open>The content of an upload that is read without an error.\<close>

fun received :: "(string + bytes) list \<Rightarrow> bytes option" where
  "received [] = Some []"
| "received (Inl e # cs) = None"
| "received (Inr c # cs) = map_option (\<lambda>r. c @ r) (received cs)"

lemma take_drop_append: "take n xs @ drop n xs @ r = xs @ r"
  by (metis append_assoc append_take_drop_id)

lemma preamble_loop_ok:
  assumes "preamble_loop mx pre tr tot cs = Inr (pre', tr', tot', rest)"
    and "tr \<noteq> [] \<longrightarrow> length pre = MAGIC_BUFFER" "length pre \<le> MAGIC_BUFFER"
    and "length (pre @ concat tr) = tot" "tot \<le> mx"
  shows "map_option (\<lambda>r. pre @ concat tr @ r) (received cs) = map_option (\<lambda>r. pre' @ concat tr' @ r) (received rest)"
    and "length (pre' @ concat tr') = tot'" "tot' \<le> mx" "length pre' \<le> MAGIC_BUFFER"
    and "length pre' < MAGIC_BUFFER \<longrightarrow> rest = [] \<and> tr' = []"
proof -
  have "map_option (\<lambda>r. pre @ concat tr @ r) (received cs) = map_option (\<lambda>r. pre' @ concat tr' @ r) (received rest) \<and>
    length (pre' @ concat tr') = tot' \<and> tot' \<le> mx \<and> length pre' \<le> MAGIC_BUFFER \<and>
    (length pre' < MAGIC_BUFFER \<longrightarrow> rest = [] \<and> tr' = [])"
    using assms
  proof (induction mx pre tr tot cs rule: preamble_loop.induct)
    case (1 mx pre tr tot)
    then show ?case by auto
  next
    case (2 mx pre tr tot c cs)
    show ?case
    proof (cases "MAGIC_BUFFER \<le> length pre")
      case True
      then show ?thesis using "2.prems" by auto
    next
      case False
      then obtain chunk where c: "c = Inr chunk" and le: "tot + length chunk \<le> mx"
        using "2.prems"(1) by (auto simp: Let_def split: sum.splits if_splits)
      have tr: "tr = []" using False "2.prems"(2) by auto
      let ?room = "MAGIC_BUFFER - length pre"
      show ?thesis
      proof (cases "length chunk \<le> ?room")
        case True
        have "preamble_loop mx (pre @ chunk) tr (tot + length chunk) cs = Inr (pre', tr', tot', rest)"
          using "2.prems"(1) False c le True by (simp add: Let_def)
        from "2.IH"(1) [OF False c refl _ refl True this] show ?thesis
          using "2.prems" le True False by (simp add: c tr option.map_comp comp_def)
      next
        case F: False
        have "preamble_loop mx (pre @ take ?room chunk) (tr @ [drop ?room chunk]) (tot + length chunk) cs =
            Inr (pre', tr', tot', rest)"
          using "2.prems"(1) False c le F by (simp add: Let_def)
        from "2.IH"(2) [OF False c refl _ refl F this] show ?thesis
          using "2.prems" le F False by (simp add: c tr option.map_comp comp_def take_drop_append)
      qed
    qed
  qed
  then show "map_option (\<lambda>r. pre @ concat tr @ r) (received cs) = map_option (\<lambda>r. pre' @ concat tr' @ r) (received rest)"
    "length (pre' @ concat tr') = tot'" "tot' \<le> mx" "length pre' \<le> MAGIC_BUFFER"
    "length pre' < MAGIC_BUFFER \<longrightarrow> rest = [] \<and> tr' = []"
    by auto
qed

text \<open>A failed step leaves every file but the temporary one as it was, and removes that one if it can.\<close>

definition rolled_back :: "faults \<Rightarrow> string \<Rightarrow> store \<Rightarrow> store \<Rightarrow> bool" where
  "rolled_back f temp st st' \<longleftrightarrow> (\<forall>k. k \<noteq> temp \<longrightarrow> st' k = st k) \<and> (remove_ok f \<longrightarrow> st' temp = None)"

lemma cleanup_rolled_back: "(\<forall>k. k \<noteq> temp \<longrightarrow> st' k = st k) \<Longrightarrow> rolled_back f temp st (cleanup_on_err f temp st')"
  by (simp add: rolled_back_def cleanup_on_err_def)

lemma append_to_simps [simp]:
  "k \<noteq> temp \<Longrightarrow> append_to temp dat st k = st k"
  "st temp = Some b \<Longrightarrow> append_to temp dat st temp = Some (b @ dat)"
  by (simp_all add: append_to_def)

lemma write_chunks_cases:
  assumes "\<forall>k. k \<noteq> temp \<longrightarrow> st1 k = st k"
  shows "(\<exists>e. fst (write_chunks f temp i st1 cs) = Inl e) \<Longrightarrow> rolled_back f temp st (snd (write_chunks f temp i st1 cs))"
    and "write_chunks f temp i st1 cs = (Inr j, st2) \<Longrightarrow> st1 temp = Some b \<Longrightarrow>
      st2 temp = Some (b @ concat cs) \<and> (\<forall>k. k \<noteq> temp \<longrightarrow> st2 k = st k)"
  using assms
proof (induction f temp i st1 cs arbitrary: b rule: write_chunks.induct)
  case (2 f temp i st1 c cs)
  {
    case 1
    then show ?case
      using "2.IH"(1) by (auto split: option.splits intro!: cleanup_rolled_back)
  next
    case 2
    then show ?case
      using "2.IH"(2) [of "b @ c"] by (auto split: option.splits)
  }
qed auto

lemma drain_loop_cases:
  assumes "\<forall>k. k \<noteq> temp \<longrightarrow> st1 k = st k"
  shows "(\<exists>e. fst (drain_loop f temp mx i tot st1 cs) = Inl e) \<Longrightarrow> rolled_back f temp st (snd (drain_loop f temp mx i tot st1 cs))"
    and "drain_loop f temp mx i tot st1 cs = (Inr tot', st2) \<Longrightarrow> st1 temp = Some b \<Longrightarrow> tot = length b \<Longrightarrow> tot \<le> mx \<Longrightarrow>
      \<exists>r. received cs = Some r \<and> st2 temp = Some (b @ r) \<and> tot' = length (b @ r) \<and> tot' \<le> mx \<and> (\<forall>k. k \<noteq> temp \<longrightarrow> st2 k = st k)"
  using assms
proof (induction f temp mx i tot st1 cs arbitrary: b rule: drain_loop.induct)
  case (2 f temp mx i tot st1 c cs)
  {
    case 1
    then show ?case
      using "2.IH"(1) by (auto simp: Let_def split: option.splits sum.splits if_splits intro!: cleanup_rolled_back)
  next
    case 2
    then show ?case
      using "2.IH"(2) [of "projr c" _ "b @ projr c"]
      by (cases c) (auto simp: Let_def split: option.splits if_splits)
  }
qed auto

section \<open>An upload is stored completely or not at all\<close>

lemma second_check_cases:
  assumes "\<forall>k. k \<noteq> temp \<longrightarrow> st1 k = st k"
  shows "second_check f temp ext st1 = (Inr u, st2) \<Longrightarrow> st2 = st1"
    and "second_check f temp ext st1 = (Inl e, st2) \<Longrightarrow>
      rolled_back f temp st st2 \<or> (st2 = st1 \<and> (\<exists>e. reread f = Inl e))"
  using cleanup_rolled_back [OF assms]
  by (auto simp: second_check_def split: option.splits sum.splits)

lemma persist_ok:
  assumes "persist f temp key ext mx (pre, tr, tot, rest) st = (Inr tot', st')"
    and "length (pre @ concat tr) = tot" "tot \<le> mx" "key \<noteq> temp"
  shows "\<exists>r. received rest = Some r \<and> st' = st(temp := None, key \<mapsto> pre @ concat tr @ r) \<and>
     tot' = length (pre @ concat tr @ r) \<and> tot' \<le> mx"
proof -
  obtain i st1 where w: "write_chunks f temp 0 (st(temp \<mapsto> [])) (pre # tr) = (Inr i, st1)"
    using assms(1) by (auto simp: persist_def split: option.splits sum.splits prod.splits)
  have st1: "st1 temp = Some (pre @ concat tr)" "\<forall>k. k \<noteq> temp \<longrightarrow> st1 k = st k"
    using write_chunks_cases(2) [OF _ w, of st "[]"] by auto
  obtain tot2 st2 where d: "drain_loop f temp mx i tot st1 rest = (Inr tot2, st2)"
    using assms(1) w by (auto simp: persist_def split: option.splits sum.splits prod.splits)
  obtain r where r: "received rest = Some r" "st2 temp = Some (pre @ concat tr @ r)" "tot2 = length (pre @ concat tr @ r)"
      "tot2 \<le> mx" "\<forall>k. k \<noteq> temp \<longrightarrow> st2 k = st k"
    using drain_loop_cases(2) [OF st1(2) d st1(1)] assms(2,3) by auto
  have s: "(if ext \<noteq> [] then second_check f temp ext st2 else (Inr (), st2)) = (Inr (), st2)"
    using assms(1) w d second_check_cases(1) [OF r(5), of f ext "()"]
    by (auto simp: persist_def split: option.splits sum.splits prod.splits if_splits)
  have "tot' = tot2 \<and> st' = (st2(temp := None))(key := st2 temp)"
    using assms(1) w d s by (auto simp: persist_def split: option.splits)
  moreover have "(st2(temp := None))(key := st2 temp) = st(temp := None, key \<mapsto> pre @ concat tr @ r)"
    using r(2,5) by (auto simp: fun_eq_iff)
  ultimately show ?thesis using r by auto
qed

lemma persist_err:
  assumes "persist f temp key ext mx (pre, tr, tot, rest) st = (Inl e, st')" "st temp = None"
    and "length (pre @ concat tr) = tot" "tot \<le> mx"
  shows "(\<forall>k. k \<noteq> temp \<longrightarrow> st' k = st k) \<and> (remove_ok f \<longrightarrow> is_ok (reread f) \<longrightarrow> st' temp = None)"
proof (cases "create_err f")
  case None
  obtain wr st1 where w: "write_chunks f temp 0 (st(temp \<mapsto> [])) (pre # tr) = (wr, st1)" by fastforce
  have base: "\<forall>k. k \<noteq> temp \<longrightarrow> (st(temp \<mapsto> [])) k = st k" by simp
  show ?thesis
  proof (cases wr)
    case (Inl a)
    then have "rolled_back f temp st st1" using write_chunks_cases(1) [of temp "st(temp \<mapsto> [])" st f 0 "pre # tr", OF base]
      unfolding w by simp
    then show ?thesis using assms(1) w Inl None by (auto simp: persist_def rolled_back_def)
  next
    case (Inr i)
    have st1: "st1 temp = Some (pre @ concat tr)" "\<forall>k. k \<noteq> temp \<longrightarrow> st1 k = st k"
      using write_chunks_cases(2) [OF base w [unfolded Inr], of "[]"] by auto
    obtain dr st2 where d: "drain_loop f temp mx i tot st1 rest = (dr, st2)" by fastforce
    show ?thesis
    proof (cases dr)
      case (Inl a)
      then have "rolled_back f temp st st2" using drain_loop_cases(1) [OF st1(2), of f mx i tot rest] d by simp
      then show ?thesis using assms(1) w Inl Inr d None by (auto simp: persist_def rolled_back_def)
    next
      case dr: (Inr tot2)
      have st2: "\<forall>k. k \<noteq> temp \<longrightarrow> st2 k = st k"
        using drain_loop_cases(2) [OF st1(2) d [unfolded dr] st1(1)] assms(3,4) by auto
      note rb = cleanup_rolled_back [OF st2, of f] second_check_cases [OF st2, of f ext]
      show ?thesis
        using assms(1) w Inr d dr None rb st2
        by (auto simp: persist_def rolled_back_def is_ok_def split: option.splits prod.splits sum.splits if_splits)
    qed
  qed
qed (use assms in \<open>auto simp: persist_def\<close>)

lemma key_not_temp: "key_of u1 fld \<noteq> temp_of u1 u2 fld"
proof
  assume "key_of u1 fld = temp_of u1 u2 fld"
  then have "length (key_of u1 fld) = length (temp_of u1 u2 fld)" by simp
  then show False by (simp add: temp_of_def)
qed

lemma allowed_extension:
  "check_extension ext allowed = Inr u \<Longrightarrow> allowed = Some as \<Longrightarrow> \<exists>a \<in> set as. eq_ignore_ascii_case a ext"
  by (auto simp: check_extension_def list_ex_iff split: if_splits)

lemma save_upload_parts:
  assumes "save_upload f u1 u2 fld mx allowed st = (res, st')"
  shows "(\<exists>e. res = Inl e \<and> st' = st) \<or>
    (\<exists>pre. check_extension (upload_ext fld) allowed = Inr () \<and> preamble_loop mx [] [] 0 (chunks fld) = Inr pre \<and>
       (upload_ext fld \<noteq> [] \<longrightarrow> validate_magic_bytes (fst pre) (upload_ext fld) = Inr ()) \<and>
       ((\<exists>e. res = Inl e \<and> persist f (temp_of u1 u2 fld) (key_of u1 fld) (upload_ext fld) mx pre st = (Inl e, st')) \<or>
        (\<exists>up. res = Inr up \<and> storage_key up = key_of u1 fld \<and>
           persist f (temp_of u1 u2 fld) (key_of u1 fld) (upload_ext fld) mx pre st = (Inr (file_size up), st'))))"
  using assms by (auto simp: save_upload_def Let_def split: sum.splits option.splits prod.splits if_splits)


definition ex_upload :: field where
  "ex_upload = \<lparr>file_name = Some ''a.PDF'', field_type = None, chunks = [Inr [0x25, 0x50], Inr [0x44, 0x46, 0x2D]]\<rparr>"

definition no_faults :: faults where
  "no_faults = \<lparr>mkdir_err = None, create_err = None, write_err = (\<lambda>_. None), flush_err = None, reopen_err = None,
     reread = Inr 512, rename_err = None, remove_ok = True\<rparr>"

lemma ex_upload_facts:
  "path_extension ''a.PDF'' = ''PDF''" "to_ascii_lowercase ''PDF'' = ''pdf''"
  "check_extension ''PDF'' (Some SAFE_UPLOAD_EXTENSIONS) = Inr ()"
  "validate_magic_bytes [0x25, 0x50, 0x44, 0x46, 0x2D] ''PDF'' = Inr ()"
proof -
  show e: "path_extension ''a.PDF'' = ''PDF''" "to_ascii_lowercase ''PDF'' = ''pdf''"
    "check_extension ''PDF'' (Some SAFE_UPLOAD_EXTENSIONS) = Inr ()"
    by code_simp+
  show "validate_magic_bytes [0x25, 0x50, 0x44, 0x46, 0x2D] ''PDF'' = Inr ()"
    by (simp add: validate_magic_bytes_def MAGIC_BYTES_def e)
qed

lemma ex_upload_result:
  "save_upload no_faults ''u1'' ''u2'' ex_upload 100 (Some SAFE_UPLOAD_EXTENSIONS) Map.empty =
     (Inr \<lparr>filename = ''a.PDF'', content_type = ''application/octet-stream'', file_size = 5, storage_key = ''u1.pdf''\<rparr>,
      [''u1.pdf'' \<mapsto> [0x25, 0x50, 0x44, 0x46, 0x2D]])"
  by (auto simp: save_upload_def ex_upload_def no_faults_def upload_ext_def key_of_def temp_of_def ex_upload_facts
      persist_def MAGIC_BUFFER_def append_to_def second_check_def fun_eq_iff Let_def)


text \<open>
  A failure of the read for the second check, alone among the failures, leaves the temporary file
  behind.
\<close>

theorem reread_failure_leaks:
  "snd (save_upload (no_faults\<lparr>reread := Inl err\<rparr>) ''u1'' ''u2'' ex_upload 100 (Some SAFE_UPLOAD_EXTENSIONS) Map.empty)
     = [temp_of ''u1'' ''u2'' ex_upload \<mapsto> [0x25, 0x50, 0x44, 0x46, 0x2D]]"
  by (simp add: save_upload_def ex_upload_def no_faults_def upload_ext_def key_of_def temp_of_def ex_upload_facts
      persist_def MAGIC_BUFFER_def append_to_def second_check_def)

text \<open>A file with the header of a RIFF container, such as a WAV file, passes as \<open>webp\<close>.\<close>

theorem webp_accepts_wav:
  "validate_magic_bytes ([0x52, 0x49, 0x46, 0x46] @ rest) ''webp'' = Inr ()"
  by (simp add: validate_magic_bytes_def MAGIC_BYTES_def to_ascii_lowercase_def ascii_lower_def)

section \<open>The stored name stays in the directory\<close>

lemma component_no_slash: "Normal p \<in> set (components s) \<Longrightarrow> CHR ''/'' \<notin> set p"
  by (auto simp: components_def Let_def split: if_splits dest: split_on_no_sep)

lemma extension_no_slash: "CHR ''/'' \<notin> set (path_extension name)"
proof (cases "components name = [] \<or> (\<forall>s. last (components name) \<noteq> Normal s)")
  case True
  then show ?thesis
    by (cases "last (components name)") (auto simp: path_extension_def Let_def)
next
  case False
  then obtain s where s: "components name \<noteq> []" "last (components name) = Normal s" by auto
  then have "CHR ''/'' \<notin> set s" using component_no_slash [of s name] last_in_set by metis
  then have "name_extension s = Some e \<Longrightarrow> CHR ''/'' \<notin> set e" for e
    by (auto simp: name_extension_def split: option.splits nat.splits dest: in_set_dropD)
  then show ?thesis using s by (auto simp: path_extension_def Let_def split: option.splits)
qed

lemma ascii_lower_slash: "CHR ''/'' \<notin> set s \<Longrightarrow> CHR ''/'' \<notin> set (to_ascii_lowercase s)"
proof -
  have "c = CHR ''/''" if l: "ascii_lower c = CHR ''/''" for c
  proof -
    have "\<not> (65 \<le> (of_char c :: nat) \<and> of_char c \<le> (90 :: nat))"
    proof
      assume n: "65 \<le> (of_char c :: nat) \<and> of_char c \<le> (90 :: nat)"
      then have "of_char (ascii_lower c) = (of_char c :: nat) + 32" by (simp add: ascii_lower_def Let_def)
      then show False using l n by simp
    qed
    then show ?thesis using l by (auto simp: ascii_lower_def Let_def)
  qed
  then show "CHR ''/'' \<notin> set s \<Longrightarrow> CHR ''/'' \<notin> set (to_ascii_lowercase s)"
    unfolding to_ascii_lowercase_def set_map by (metis imageE)
qed

text \<open>
  Whatever file name the client sends, the name under which the upload is stored has no slash, so the
  file lies directly in the storage directory.
\<close>

theorem upload_key_in_directory:
  assumes "CHR ''/'' \<notin> set uuid1"
  shows "CHR ''/'' \<notin> set (key_of uuid1 fld)"
  using assms ascii_lower_slash [OF extension_no_slash] by (auto simp: key_of_def upload_ext_def)

theorem upload_key_in_directory_witness:
  "CHR ''/'' \<notin> set ''u1'' \<and>
   CHR ''/'' \<notin> set (key_of ''u1'' (ex_upload\<lparr>file_name := Some ''../../etc/passwd.d/..x/shadow''\<rparr>))"
  using upload_key_in_directory [of "''u1''"] by simp

end
