(* ===== verification/Vfs_Disk.thy ===== *)
theory Vfs_Disk
  imports Rust_Std "HOL-Library.Sublist"
begin

text \<open>
  The part of the local disk that the virtual file system uses: a directory with files and directories
  below it and no symbolic links, as a map from relative paths to nodes, and the calls of \<open>tokio::fs\<close> on it.
  A call that fails is \<open>None\<close>. Also the errors of \<open>crates/runesh-vfs/src/error.rs\<close> and the check of relative
  paths that the overlay and the cache share.
\<close>

type_synonym bytes = "u8 list"

type_synonym path = "string list"

datatype dnode = DFile bytes | DDir

type_synonym disk = "(path, dnode) hash_map"

definition node_at :: "disk \<Rightarrow> path \<Rightarrow> dnode option" where
  "node_at d p = (if p = [] then Some DDir else hm_get d p)"

definition file_at :: "disk \<Rightarrow> path \<Rightarrow> bytes option" where
  "file_at d p = (case node_at d p of Some (DFile b) \<Rightarrow> Some b | _ \<Rightarrow> None)"

fun create_dirs :: "disk \<Rightarrow> path \<Rightarrow> path \<Rightarrow> disk option" where
  "create_dirs d acc [] = Some d"
| "create_dirs d acc (c # cs) =
     (case hm_get d (acc @ [c]) of
        None \<Rightarrow> create_dirs (hm_insert (acc @ [c]) DDir d) (acc @ [c]) cs
      | Some DDir \<Rightarrow> create_dirs d (acc @ [c]) cs
      | Some (DFile _) \<Rightarrow> None)"

definition create_dir_all :: "disk \<Rightarrow> path \<Rightarrow> disk option" where
  "create_dir_all d p = create_dirs d [] p"

definition write_at :: "disk \<Rightarrow> path \<Rightarrow> bytes \<Rightarrow> disk option" where
  "write_at d p b =
     (if node_at d p = Some DDir \<or> node_at d (butlast p) \<noteq> Some DDir then None else Some (hm_insert p (DFile b) d))"

definition remove_file_at :: "disk \<Rightarrow> path \<Rightarrow> disk option" where
  "remove_file_at d p = (if file_at d p = None then None else Some (hm_remove p d))"

definition remove_tree :: "disk \<Rightarrow> path \<Rightarrow> disk" where
  "remove_tree d p = hm_retain (\<lambda>q _. \<not> prefix p q) d"

text \<open>\<open>rename(2)\<close>: a file replaces a file, a directory replaces an empty directory, nothing moves into itself.\<close>

definition rename_at :: "disk \<Rightarrow> path \<Rightarrow> path \<Rightarrow> disk option" where
  "rename_at d p q =
     (if node_at d (butlast q) \<noteq> Some DDir \<or> q = [] then None
      else if p = q then map_option (\<lambda>_. d) (node_at d p)
      else case node_at d p of
        None \<Rightarrow> None
      | Some (DFile b) \<Rightarrow> if node_at d q = Some DDir then None else Some (hm_insert q (DFile b) (hm_remove p d))
      | Some DDir \<Rightarrow>
          if prefix p q \<or> file_at d q \<noteq> None \<or> list_ex (\<lambda>(r, _). strict_prefix q r) d then None
          else Some (hm_insert q DDir (hm_remove p
                 (map (\<lambda>(r, n). (if strict_prefix p r then q @ drop (length p) r else r, n)) d))))"

fun join_path :: "path \<Rightarrow> string" where
  "join_path [] = []"
| "join_path [c] = c"
| "join_path (c # cs) = c @ ''/'' @ join_path cs"

text \<open>Writing at an offset: a gap is filled with zeros.\<close>

definition splice :: "bytes \<Rightarrow> nat \<Rightarrow> bytes \<Rightarrow> bytes" where
  "splice c off dat = take off (c @ replicate (off - length c) 0) @ dat @ drop (off + length dat) c"

definition write_offset :: "disk \<Rightarrow> path \<Rightarrow> nat \<Rightarrow> bytes \<Rightarrow> disk option" where
  "write_offset d p off dat = (case file_at d p of Some c \<Rightarrow> Some (hm_insert p (DFile (splice c off dat)) d) | None \<Rightarrow> None)"

section \<open>Errors and relative paths\<close>

datatype vfs_error =
  NotFound string | PermissionDenied string | PathTraversal | ReadOnly | AlreadyMounted string | NotMounted string
| Provider string | Cache string | Io | Platform string | Config string | InternalError string

definition status_code :: "vfs_error \<Rightarrow> nat" where
  "status_code e =
     (case e of
        NotFound _ \<Rightarrow> 404 | PermissionDenied _ \<Rightarrow> 403 | PathTraversal \<Rightarrow> 403 | ReadOnly \<Rightarrow> 403 | AlreadyMounted _ \<Rightarrow> 409
      | NotMounted _ \<Rightarrow> 404 | Provider _ \<Rightarrow> 502 | Cache _ \<Rightarrow> 500 | Io \<Rightarrow> 500 | Platform _ \<Rightarrow> 500 | Config _ \<Rightarrow> 400
      | InternalError _ \<Rightarrow> 500)"

definition error_code :: "vfs_error \<Rightarrow> string" where
  "error_code e =
     (case e of
        NotFound _ \<Rightarrow> ''not_found'' | PermissionDenied _ \<Rightarrow> ''permission_denied'' | PathTraversal \<Rightarrow> ''path_traversal''
      | ReadOnly \<Rightarrow> ''read_only'' | AlreadyMounted _ \<Rightarrow> ''already_mounted'' | NotMounted _ \<Rightarrow> ''not_mounted''
      | Provider _ \<Rightarrow> ''provider_error'' | Cache _ \<Rightarrow> ''cache_error'' | Io \<Rightarrow> ''io_error'' | Platform _ \<Rightarrow> ''platform_error''
      | Config _ \<Rightarrow> ''config_error'' | InternalError _ \<Rightarrow> ''internal'')"

text \<open>The loop over the components; the result is the path below the base directory.\<close>

fun join_components :: "path \<Rightarrow> component list \<Rightarrow> vfs_error + path" where
  "join_components acc [] = Inr acc"
| "join_components acc (c # cs) =
     (case c of
        Normal s \<Rightarrow> join_components (acc @ [s]) cs
      | CurDir \<Rightarrow> join_components acc cs
      | _ \<Rightarrow> Inl PathTraversal)"

text \<open>\<open>create_dir_all\<close> on the parent, then \<open>write\<close>.\<close>

definition create_and_write :: "disk \<Rightarrow> path \<Rightarrow> bytes \<Rightarrow> vfs_error + disk" where
  "create_and_write d u b =
     (case create_dir_all d (butlast u) of
        None \<Rightarrow> Inl Io
      | Some d \<Rightarrow> (case write_at d u b of None \<Rightarrow> Inl Io | Some d \<Rightarrow> Inr d))"

section \<open>Lemmas on the disk\<close>

lemma node_at_insert: "p \<noteq> [] \<Longrightarrow> node_at (hm_insert p n d) q = (if q = p then Some n else node_at d q)"
  by (simp add: node_at_def hm_simps)

lemma node_at_remove: "p \<noteq> [] \<Longrightarrow> node_at (hm_remove p d) q = (if q = p then None else node_at d q)"
  by (simp add: node_at_def hm_simps)

lemma splice_full: "length c \<le> length dat \<Longrightarrow> splice c 0 dat = dat"
  by (simp add: splice_def)

lemma splice_nil [simp]: "splice [] off dat = replicate off 0 @ dat"
  by (simp add: splice_def)

text \<open>Creating the directories above a path changes only missing prefixes.\<close>

lemma create_dirs_some:
  assumes "\<And>n. 0 < n \<Longrightarrow> n \<le> length cs \<Longrightarrow> hm_get d (acc @ take n cs) \<noteq> None \<Longrightarrow> hm_get d (acc @ take n cs) = Some DDir"
  shows "\<exists>d'. create_dirs d acc cs = Some d' \<and>
    (\<forall>q. hm_get d' q = (if strict_prefix acc q \<and> prefix q (acc @ cs) then Some DDir else hm_get d q)) \<and> (hm_wf d \<longrightarrow> hm_wf d')"
  using assms
proof (induction cs arbitrary: d acc)
  case Nil
  have "\<not> (strict_prefix acc q \<and> prefix q acc)" for q by (auto simp: strict_prefix_def prefix_order.antisym)
  then show ?case by auto
next
  case (Cons c cs)
  let ?p = "acc @ [c]"
  have step: "strict_prefix acc q \<and> prefix q (acc @ c # cs) \<longleftrightarrow> q = ?p \<or> strict_prefix ?p q \<and> prefix q (?p @ cs)" for q
    by (auto simp: strict_prefix_def prefix_def append_eq_append_conv2 append_eq_Cons_conv Cons_eq_append_conv)
  have IH: "\<exists>d'. create_dirs d0 ?p cs = Some d' \<and>
    (\<forall>q. hm_get d' q = (if strict_prefix ?p q \<and> prefix q (?p @ cs) then Some DDir else hm_get d0 q)) \<and> (hm_wf d0 \<longrightarrow> hm_wf d')"
    if "\<And>q. q \<noteq> ?p \<Longrightarrow> hm_get d0 q = hm_get d q" for d0
  proof (rule Cons.IH)
    fix n assume n: "0 < n" "n \<le> length cs" "hm_get d0 (?p @ take n cs) \<noteq> None"
    have "?p @ take n cs \<noteq> ?p" using n by auto
    then show "hm_get d0 (?p @ take n cs) = Some DDir"
      using Cons.prems [of "Suc n"] n that by auto
  qed
  show ?case
  proof (cases "hm_get d ?p")
    case None
    obtain d' where d': "create_dirs (hm_insert ?p DDir d) ?p cs = Some d'"
      "\<And>q. hm_get d' q = (if strict_prefix ?p q \<and> prefix q (?p @ cs) then Some DDir else hm_get (hm_insert ?p DDir d) q)"
      "hm_wf (hm_insert ?p DDir d) \<longrightarrow> hm_wf d'"
      using IH [of "hm_insert ?p DDir d"] by (auto simp: hm_simps)
    then show ?thesis
      using None by (auto simp: step hm_simps hm.wf_insert)
  next
    case (Some n)
    then have n: "n = DDir" using Cons.prems [of 1] by auto
    obtain d' where d': "create_dirs d ?p cs = Some d'"
      "\<And>q. hm_get d' q = (if strict_prefix ?p q \<and> prefix q (?p @ cs) then Some DDir else hm_get d q)" "hm_wf d \<longrightarrow> hm_wf d'"
      using IH [of d] by auto
    then show ?thesis
      using Some n by (auto simp: step)
  qed
qed

text \<open>A change at \<open>u\<close> that at most adds directories above it.\<close>

definition touched :: "disk \<Rightarrow> path \<Rightarrow> disk \<Rightarrow> bool" where
  "touched d u d' \<longleftrightarrow>
     (\<forall>q. q \<noteq> u \<longrightarrow> node_at d' q = node_at d q \<or> (strict_prefix q u \<and> node_at d q = None \<and> node_at d' q = Some DDir))"

lemma create_and_write_ok:
  assumes u: "u \<noteq> []" and pre: "\<And>v. strict_prefix v u \<Longrightarrow> node_at d v = None \<or> node_at d v = Some DDir"
    and n: "node_at d u \<noteq> Some DDir"
  shows "\<exists>d'. create_and_write d u c = Inr d' \<and> touched d u d' \<and> node_at d' u = Some (DFile c) \<and>
    node_at d' (butlast u) = Some DDir"
proof -
  have sp: "strict_prefix v u" if "prefix v (butlast u)" for v
    using u that by (metis append_butlast_last_id prefix_snoc prefix_order.less_le snoc_eq_iff_butlast prefix_length_le
        Suc_n_not_le_n length_append_singleton)
  have "\<exists>d1. create_dirs d [] (butlast u) = Some d1 \<and>
    (\<forall>q. hm_get d1 q = (if strict_prefix [] q \<and> prefix q ([] @ butlast u) then Some DDir else hm_get d q)) \<and> (hm_wf d \<longrightarrow> hm_wf d1)"
  proof (rule create_dirs_some)
    fix k assume k: "0 < k" "k \<le> length (butlast u)" "hm_get d ([] @ take k (butlast u)) \<noteq> None"
    have "strict_prefix (take k (butlast u)) u" by (rule sp) (rule take_is_prefix)
    moreover have "take k (butlast u) \<noteq> []" using k(1,2) by (metis length_0_conv length_take min.absorb2 not_gr_zero)
    ultimately show "hm_get d ([] @ take k (butlast u)) = Some DDir"
      using pre [of "take k (butlast u)"] k(3) by (auto simp: node_at_def)
  qed
  then obtain d1 where d1: "create_dir_all d (butlast u) = Some d1"
      "\<And>q. hm_get d1 q = (if q \<noteq> [] \<and> prefix q (butlast u) then Some DDir else hm_get d q)"
    by (auto simp: create_dir_all_def strict_prefix_def)
  have nu: "node_at d1 u \<noteq> Some DDir"
    using n u sp [of u] by (auto simp: node_at_def d1(2))
  have nb: "node_at d1 (butlast u) = Some DDir" by (simp add: node_at_def d1(2))
  have w: "write_at d1 u c = Some (hm_insert u (DFile c) d1)" using nu nb by (simp add: write_at_def)
  have "touched d u (hm_insert u (DFile c) d1)"
    unfolding touched_def
  proof (intro allI impI)
    fix q assume "q \<noteq> u"
    then show "node_at (hm_insert u (DFile c) d1) q = node_at d q \<or>
        strict_prefix q u \<and> node_at d q = None \<and> node_at (hm_insert u (DFile c) d1) q = Some DDir"
      using u pre [of q] sp [of q] by (auto simp: node_at_insert) (auto simp: node_at_def d1(2) split: if_splits)
  qed
  moreover have "butlast u \<noteq> u" using u by (metis append_butlast_last_id not_Cons_self2 self_append_conv)
  ultimately show ?thesis
    using d1(1) w nb u by (auto simp: create_and_write_def node_at_insert)
qed

section \<open>Families of file paths\<close>

text \<open>
  A set of path texts that name files, none below another; \<open>up\<close> gives the path of each. A disk on which
  none of them and nothing above them is the wrong kind of node.
\<close>

definition antichain :: "(string \<Rightarrow> path) \<Rightarrow> string set \<Rightarrow> bool" where
  "antichain up F \<longleftrightarrow> (\<forall>p \<in> F. up p \<noteq> []) \<and> (\<forall>p \<in> F. \<forall>q \<in> F. prefix (up p) (up q) \<longrightarrow> p = q)"

definition dirs_ok :: "(string \<Rightarrow> path) \<Rightarrow> string set \<Rightarrow> disk \<Rightarrow> bool" where
  "dirs_ok up F d \<longleftrightarrow>
     (\<forall>p \<in> F. node_at d (up p) \<noteq> Some DDir \<and>
        (\<forall>v. strict_prefix v (up p) \<longrightarrow> node_at d v = None \<or> node_at d v = Some DDir) \<and>
        (file_at d (up p) \<noteq> None \<longrightarrow> node_at d (butlast (up p)) = Some DDir))"

lemma antichain_facts:
  assumes "antichain up F" "p \<in> F" "q \<in> F" "q \<noteq> p"
  shows "up q \<noteq> up p" "\<not> strict_prefix (up q) (up p)" "\<not> strict_prefix (up p) (up q)"
  using assms by (auto simp: antichain_def strict_prefix_def)

lemma antichain_below:
  assumes "antichain up F" "p \<in> F" "q \<in> F"
  shows "strict_prefix v (up q) \<Longrightarrow> v \<noteq> up p" and "butlast (up q) \<noteq> up p"
proof -
  show sp: "v \<noteq> up p" if "strict_prefix v (up q)" for v
    using antichain_facts(3) [OF assms] that by (metis prefix_order.less_irrefl)
  have "up q \<noteq> []" using assms by (simp add: antichain_def)
  then have "strict_prefix (butlast (up q)) (up q)"
    by (metis append_butlast_last_id strict_prefixI')
  then show "butlast (up q) \<noteq> up p" by (rule sp)
qed

lemma touched_other:
  assumes "antichain up F" "p \<in> F" "q \<in> F" "q \<noteq> p" "touched d (up p) d'"
  shows "node_at d' (up q) = node_at d (up q)"
  using antichain_facts [OF assms(1-4)] assms(5) unfolding touched_def by blast

lemma dirs_ok_touched:
  assumes F: "antichain up F" and d: "dirs_ok up F d" and p: "p \<in> F" and t: "touched d (up p) d'"
    and c: "file_at d' (up p) = Some c" and b: "node_at d' (butlast (up p)) = Some DDir"
  shows "dirs_ok up F d'"
  unfolding dirs_ok_def
proof (intro ballI conjI allI impI)
  fix q assume q: "q \<in> F"
  have keep: "node_at d' v = None \<or> node_at d' v = Some DDir"
    if "v \<noteq> up p" "node_at d v = None \<or> node_at d v = Some DDir" for v
    using t that unfolding touched_def by metis
  have up: "node_at d' v = Some DDir" if "v \<noteq> up p" "node_at d v = Some DDir" for v
    using t that unfolding touched_def by (metis option.distinct(1))
  show "node_at d' v = None \<or> node_at d' v = Some DDir" if "strict_prefix v (up q)" for v
    using keep [OF antichain_below(1) [OF F p q that]] d q that by (simp add: dirs_ok_def)
  show "node_at d' (up q) \<noteq> Some DDir"
    using c d q touched_other [OF F p q _ t] by (cases "q = p") (auto simp: dirs_ok_def file_at_def)
  show "node_at d' (butlast (up q)) = Some DDir" if "file_at d' (up q) \<noteq> None"
    using that b d q touched_other [OF F p q _ t] up [OF antichain_below(2) [OF F p q]]
    by (cases "q = p") (auto simp: dirs_ok_def file_at_def)
qed

lemma dirs_ok_remove:
  assumes F: "antichain up F" and d: "dirs_ok up F d" and p: "p \<in> F"
  shows "dirs_ok up F (hm_remove (up p) d)"
proof -
  have "up p \<noteq> []" using F p by (simp add: antichain_def)
  then show ?thesis
    using d antichain_below [OF F p] by (auto simp: dirs_ok_def node_at_remove file_at_def)
qed

lemma dirs_ok_cong:
  assumes "dirs_ok up F d" "\<And>q v. q \<in> F \<Longrightarrow> prefix v (up q) \<Longrightarrow> node_at d' v = node_at d v"
  shows "dirs_ok up F d'"
proof -
  have "node_at d' (butlast (up q)) = node_at d (butlast (up q))" if "q \<in> F" for q
    using assms(2) [OF that prefixeq_butlast] .
  then show ?thesis
    using assms by (auto simp: dirs_ok_def file_at_def strict_prefix_def)
qed

lemma dirs_ok_Nil: "antichain up F \<Longrightarrow> dirs_ok up F []"
  by (auto simp: dirs_ok_def antichain_def node_at_def file_at_def)

lemma create_ok:
  assumes F: "antichain up F" and d: "dirs_ok up F d" and p: "p \<in> F"
  shows "\<exists>d'. create_and_write d (up p) c = Inr d' \<and> touched d (up p) d' \<and> file_at d' (up p) = Some c \<and>
    node_at d' (butlast (up p)) = Some DDir"
proof -
  have u: "up p \<noteq> []" using F p by (simp add: antichain_def)
  then show ?thesis
    using create_and_write_ok [OF u, of d c] d p by (auto simp: dirs_ok_def file_at_def)
qed

end
