(* ===== verification/Vfs_Overlay.thy ===== *)
theory Vfs_Overlay
  imports Vfs_Disk "HOL-Library.List_Lexorder" "HOL-Library.Char_ord" "HOL-Library.Product_Lexorder"
begin

text \<open>
  The copy-on-write overlay of the virtual file system (\<open>crates/runesh-vfs/src/overlay.rs\<close>).

  The lower provider is a parameter, read only through its trait. The upper directory is a \<open>disk\<close>; the list of
  deleted paths is a file in it, written and read by serde_json, which is the parameter \<open>json_set\<close>. The
  sets of modified and deleted paths hold path texts, while the upper directory is addressed by
  components: the model keeps both. Time stamps of entries are left out, a directory has size 0, and names in listings are compared by
  their ASCII lower case.
\<close>

record vfs_entry =
  name :: string
  entry_path :: string
  is_dir :: bool
  entry_size :: nat
  readonly :: bool
  is_hydrated :: bool
  content_hash :: "string option"
  content_type :: "string option"
  uid :: "u32 option"
  gid :: "u32 option"

record provider =
  p_list :: "string \<Rightarrow> vfs_error + vfs_entry list"
  p_stat :: "string \<Rightarrow> vfs_error + vfs_entry"
  p_read :: "string \<Rightarrow> nat \<Rightarrow> nat \<Rightarrow> vfs_error + bytes"

record json_set =
  enc :: "string set \<Rightarrow> bytes"
  dec :: "bytes \<Rightarrow> string set option"

record overlay =
  upper :: disk
  modified :: "string set"
  deleted :: "string set"

definition safe_join :: "string \<Rightarrow> vfs_error + path" where
  "safe_join relative =
     (if CHR 0x00 \<in> set relative then Inl PathTraversal else join_components [] (components relative))"

definition has_upper :: "overlay \<Rightarrow> string \<Rightarrow> bool" where
  "has_upper s p = (p \<in> modified s)"

definition is_deleted :: "overlay \<Rightarrow> string \<Rightarrow> bool" where
  "is_deleted s p = (p \<in> deleted s)"

definition copy_up :: "provider \<Rightarrow> overlay \<Rightarrow> string \<Rightarrow> vfs_error + overlay" where
  "copy_up lower s p =
     (if has_upper s p then Inr s
      else rbind (p_read lower p 0 0) (\<lambda>content.
           rbind (safe_join p) (\<lambda>u.
           rbind (create_and_write (upper s) u content) (\<lambda>d.
           Inr (s\<lparr>upper := d, modified := insert p (modified s)\<rparr>)))))"

definition DELETED_LIST :: path where
  "DELETED_LIST = [''.overlay-deleted.json'']"

definition save_deleted_list :: "json_set \<Rightarrow> overlay \<Rightarrow> overlay" where
  "save_deleted_list j s =
     (case write_at (upper s) DELETED_LIST (enc j (deleted s)) of Some d \<Rightarrow> s\<lparr>upper := d\<rparr> | None \<Rightarrow> s)"

definition modified_files :: "overlay \<Rightarrow> string set" where
  "modified_files s = modified s"

definition is_safe_deleted_entry :: "string \<Rightarrow> bool" where
  "is_safe_deleted_entry p =
     (if p = [] \<or> CHR 0x00 \<in> set p then False
      else if starts_with ''/'' p \<or> starts_with [CHR 0x5C] p then False
      else list_all (\<lambda>c. case c of Normal _ \<Rightarrow> True | CurDir \<Rightarrow> True | _ \<Rightarrow> False) (components p))"

definition load_deleted_list :: "json_set \<Rightarrow> disk \<Rightarrow> string set" where
  "load_deleted_list j d =
     (case file_at d DELETED_LIST of
        None \<Rightarrow> {}
      | Some b \<Rightarrow> (case dec j b of Some ps \<Rightarrow> Set.filter is_safe_deleted_entry ps | None \<Rightarrow> {}))"

text \<open>The scan skips names that start with \<open>.overlay-\<close> and does not descend into them.\<close>

definition scan_upper_dir :: "disk \<Rightarrow> string set" where
  "scan_upper_dir d = join_path ` Set.filter (list_all (\<lambda>c. \<not> starts_with ''.overlay-'' c)) (set (hm_keys d))"

definition overlay_new :: "json_set \<Rightarrow> disk \<Rightarrow> overlay" where
  "overlay_new j d = \<lparr>upper = d, modified = scan_upper_dir d, deleted = load_deleted_list j d\<rparr>"

section \<open>The provider's methods\<close>

definition upper_entry :: "string \<Rightarrow> string \<Rightarrow> dnode \<Rightarrow> vfs_entry" where
  "upper_entry n p node =
     \<lparr>name = n, entry_path = p, is_dir = (node = DDir), entry_size = (case node of DFile b \<Rightarrow> length b | DDir \<Rightarrow> 0),
      readonly = False, is_hydrated = True, content_hash = None, content_type = None, uid = None, gid = None\<rparr>"

text \<open>One turn of the loop over the upper directory: replace the entry of that name or add one.\<close>

definition merge_entry :: "vfs_entry list \<Rightarrow> vfs_entry \<Rightarrow> vfs_entry list" where
  "merge_entry es e =
     (if list_ex (\<lambda>x. name x = name e) es
      then takeWhile (\<lambda>x. name x \<noteq> name e) es @ e # tl (dropWhile (\<lambda>x. name x \<noteq> name e) es)
      else es @ [e])"

definition upper_children :: "disk \<Rightarrow> path \<Rightarrow> (string \<times> dnode) list" where
  "upper_children d u =
     map (\<lambda>(q, n). (last q, n)) (filter (\<lambda>(q, n). q \<noteq> [] \<and> butlast q = u \<and> \<not> starts_with ''.overlay-'' (last q)) d)"

definition list_dir :: "provider \<Rightarrow> overlay \<Rightarrow> string \<Rightarrow> vfs_error + vfs_entry list" where
  "list_dir lower s p =
     rbind (p_list lower p) (\<lambda>entries.
       let entries = filter (\<lambda>e. entry_path e \<notin> deleted s) entries in
       rbind (safe_join p) (\<lambda>u.
         let entries =
           (if node_at (upper s) u = Some DDir
            then foldl merge_entry entries
              (map (\<lambda>(n, node). upper_entry n (if p = [] then n else p @ ''/'' @ n) node) (upper_children (upper s) u))
            else entries)
         in Inr (sort_key (\<lambda>e. (\<not> is_dir e, to_ascii_lowercase (name e))) entries)))"

definition stat :: "provider \<Rightarrow> overlay \<Rightarrow> string \<Rightarrow> vfs_error + vfs_entry" where
  "stat lower s p =
     (if is_deleted s p then Inl (NotFound p)
      else rbind (safe_join p) (\<lambda>u.
        case node_at (upper s) u of
          Some node \<Rightarrow> Inr (upper_entry (if u = [] then [] else last u) p node)
        | None \<Rightarrow> p_stat lower p))"

definition read_from_disk :: "bytes \<Rightarrow> nat \<Rightarrow> nat \<Rightarrow> bytes" where
  "read_from_disk b off len = (if len > 0 then take len (drop off b) else drop off b)"

definition read_file :: "provider \<Rightarrow> overlay \<Rightarrow> string \<Rightarrow> nat \<Rightarrow> nat \<Rightarrow> vfs_error + bytes" where
  "read_file lower s p off len =
     (if is_deleted s p then Inl (NotFound p)
      else rbind (safe_join p) (\<lambda>u.
        case node_at (upper s) u of
          Some (DFile b) \<Rightarrow> Inr (read_from_disk b off len)
        | Some DDir \<Rightarrow> Inl Io
        | None \<Rightarrow> p_read lower p off len))"

text \<open>The copy-on-write step of \<open>write_file\<close>.\<close>

definition ensure_upper :: "provider \<Rightarrow> overlay \<Rightarrow> string \<Rightarrow> vfs_error + overlay" where
  "ensure_upper lower s p =
     (if has_upper s p then Inr s
      else rbind (safe_join p) (\<lambda>u.
        rbind (case p_read lower p 0 0 of
                 Inr content \<Rightarrow> create_and_write (upper s) u content
               | Inl (NotFound _) \<Rightarrow> create_and_write (upper s) u []
               | Inl e \<Rightarrow> Inl e) (\<lambda>d.
        Inr (s\<lparr>upper := d, modified := insert p (modified s)\<rparr>))))"

definition write_file :: "provider \<Rightarrow> overlay \<Rightarrow> string \<Rightarrow> bytes \<Rightarrow> nat \<Rightarrow> (vfs_error + unit) \<times> overlay" where
  "write_file lower s p dat off =
     (case ensure_upper lower s p of
        Inl e \<Rightarrow> (Inl e, s)
      | Inr s \<Rightarrow>
          (case safe_join p of
             Inl e \<Rightarrow> (Inl e, s)
           | Inr u \<Rightarrow>
               (let len = (case file_at (upper s) u of Some b \<Rightarrow> length b | None \<Rightarrow> 0) in
                case (if off = 0 \<and> length dat \<ge> len then write_at (upper s) u dat else write_offset (upper s) u off dat) of
                  None \<Rightarrow> (Inl Io, s)
                | Some d \<Rightarrow> (Inr (), s\<lparr>upper := d, deleted := deleted s - {p}\<rparr>))))"

definition delete :: "json_set \<Rightarrow> overlay \<Rightarrow> string \<Rightarrow> (vfs_error + unit) \<times> overlay" where
  "delete j s p =
     (case safe_join p of
        Inl e \<Rightarrow> (Inl e, s)
      | Inr u \<Rightarrow>
          (let s = (case node_at (upper s) u of
                      Some DDir \<Rightarrow> s\<lparr>upper := remove_tree (upper s) u, modified := modified s - {p}\<rparr>
                    | Some (DFile _) \<Rightarrow> s\<lparr>upper := hm_remove u (upper s), modified := modified s - {p}\<rparr>
                    | None \<Rightarrow> s)
           in (Inr (), save_deleted_list j (s\<lparr>deleted := insert p (deleted s)\<rparr>))))"

definition mkdir :: "overlay \<Rightarrow> string \<Rightarrow> (vfs_error + unit) \<times> overlay" where
  "mkdir s p =
     (case safe_join p of
        Inl e \<Rightarrow> (Inl e, s)
      | Inr u \<Rightarrow>
          (case create_dir_all (upper s) u of
             None \<Rightarrow> (Inl Io, s)
           | Some d \<Rightarrow> (Inr (), s\<lparr>upper := d, modified := insert p (modified s), deleted := deleted s - {p}\<rparr>)))"

definition rename :: "provider \<Rightarrow> json_set \<Rightarrow> overlay \<Rightarrow> string \<Rightarrow> string \<Rightarrow> (vfs_error + unit) \<times> overlay" where
  "rename lower j s old new =
     (case copy_up lower s old of
        Inl e \<Rightarrow> (Inl e, s)
      | Inr s \<Rightarrow>
          (case (safe_join old, safe_join new) of
             (Inr u, Inr v) \<Rightarrow>
               (case create_dir_all (upper s) (butlast v) of
                  None \<Rightarrow> (Inl Io, s)
                | Some d \<Rightarrow>
                    (case rename_at d u v of
                       None \<Rightarrow> (Inl Io, s\<lparr>upper := d\<rparr>)
                     | Some d \<Rightarrow>
                         (Inr (), save_deleted_list j (s\<lparr>upper := d, modified := insert new (modified s - {old}),
                            deleted := insert old (deleted s)\<rparr>))))
           | (Inl e, _) \<Rightarrow> (Inl e, s)
           | (_, Inl e) \<Rightarrow> (Inl e, s)))"

section \<open>Paths stay below the base directory\<close>

lemma join_components_iff:
  "join_components acc cs = Inr u \<longleftrightarrow>
     list_all (\<lambda>c. case c of Normal _ \<Rightarrow> True | CurDir \<Rightarrow> True | _ \<Rightarrow> False) cs \<and>
     u = acc @ concat (map (\<lambda>c. case c of Normal s \<Rightarrow> [s] | _ \<Rightarrow> []) cs)"
  by (induction acc cs rule: join_components.induct) (auto split: component.splits)

lemma component_part: "Normal s \<in> set (components p) \<Longrightarrow> s \<noteq> [] \<and> s \<noteq> ''.'' \<and> s \<noteq> ''..'' \<and> CHR ''/'' \<notin> set s"
  by (auto simp: components_def Let_def split: if_splits dest: split_on_no_sep)

text \<open>
  A relative path is accepted only if it has no NUL byte, is not absolute and has no \<open>..\<close>; the result
  is then the base directory followed by plain names, so it lies below it.
\<close>

theorem safe_join_confined:
  assumes "safe_join p = Inr u"
  shows "CHR 0x00 \<notin> set p \<and> RootDir \<notin> set (components p) \<and> ParentDir \<notin> set (components p) \<and>
    (\<forall>s \<in> set u. s \<noteq> [] \<and> s \<noteq> ''.'' \<and> s \<noteq> ''..'' \<and> CHR ''/'' \<notin> set s)"
proof -
  have nul: "CHR 0x00 \<notin> set p" and j: "join_components [] (components p) = Inr u"
    using assms by (auto simp: safe_join_def split: if_splits)
  have all: "list_all (\<lambda>c. case c of Normal _ \<Rightarrow> True | CurDir \<Rightarrow> True | _ \<Rightarrow> False) (components p)"
    and u: "u = concat (map (\<lambda>c. case c of Normal s \<Rightarrow> [s] | _ \<Rightarrow> []) (components p))"
    using j by (auto simp: join_components_iff)
  have "Normal s \<in> set (components p)" if "s \<in> set u" for s
    using that unfolding u by (auto split: component.splits)
  then show ?thesis using nul all component_part by (auto simp: list_all_iff)
qed

theorem safe_join_confined_witness:
  "safe_join ''./a//b/'' = Inr [''a'', ''b''] \<and> (\<forall>s \<in> set [''a'', ''b'']. s \<noteq> ''..'')"
proof -
  have "safe_join ''./a//b/'' = Inr [''a'', ''b'']" by code_simp
  from this safe_join_confined [OF this] show ?thesis by blast
qed

section \<open>Reading what was written\<close>

text \<open>
  A set of file paths of which none lies below another and none meets the list of deleted files. An
  application that uses these paths as files never makes one of them a directory.
\<close>

definition upath :: "string \<Rightarrow> path" where
  "upath p = (case safe_join p of Inr u \<Rightarrow> u | Inl _ \<Rightarrow> [])"

definition file_paths :: "string set \<Rightarrow> bool" where
  "file_paths F \<longleftrightarrow>
     antichain upath F \<and>
     (\<forall>p \<in> F. safe_join p = Inr (upath p) \<and> hd (upath p) \<noteq> ''.overlay-deleted.json'')"

text \<open>The upper directory agrees with the sets of paths.\<close>

definition synced :: "string set \<Rightarrow> overlay \<Rightarrow> bool" where
  "synced F s \<longleftrightarrow>
     dirs_ok upath F (upper s) \<and>
     (\<forall>p \<in> F. (p \<in> modified s \<longleftrightarrow> file_at (upper s) (upath p) \<noteq> None) \<and> (p \<in> deleted s \<longrightarrow> p \<notin> modified s))"

text \<open>The content that a reader sees.\<close>

definition view :: "provider \<Rightarrow> overlay \<Rightarrow> string \<Rightarrow> bytes option" where
  "view lower s p = (case read_file lower s p 0 0 of Inr b \<Rightarrow> Some b | Inl _ \<Rightarrow> None)"

definition base :: "provider \<Rightarrow> string \<Rightarrow> bytes option" where
  "base lower p = (case p_read lower p 0 0 of Inr b \<Rightarrow> Some b | Inl _ \<Rightarrow> None)"

lemma read_whole [simp]: "read_from_disk b 0 0 = b"
  by (simp add: read_from_disk_def)

lemma file_paths_antichain: "file_paths F \<Longrightarrow> antichain upath F"
  by (simp add: file_paths_def)

lemma file_pathsD: "file_paths F \<Longrightarrow> p \<in> F \<Longrightarrow> safe_join p = Inr (upath p) \<and> upath p \<noteq> []"
  by (simp add: file_paths_def antichain_def)

lemma view_synced:
  assumes "file_paths F" "synced F s" "p \<in> F"
  shows "view lower s p =
    (if p \<in> deleted s then None else case file_at (upper s) (upath p) of Some b \<Rightarrow> Some b | None \<Rightarrow> base lower p)"
proof -
  have "node_at (upper s) (upath p) \<noteq> Some DDir" using assms by (simp add: synced_def dirs_ok_def)
  then show ?thesis
    using file_pathsD [OF assms(1,3)]
    by (auto simp: view_def base_def read_file_def is_deleted_def file_at_def split: option.splits dnode.splits)
qed

lemma synced_touched:
  assumes F: "file_paths F" and s: "synced F s" and p: "p \<in> F" and t: "touched (upper s) (upath p) d'"
    and c: "file_at d' (upath p) = Some c" and b: "node_at d' (butlast (upath p)) = Some DDir"
  shows "synced F (s\<lparr>upper := d', modified := insert p (modified s), deleted := deleted s - {p}\<rparr>)"
proof -
  note a = file_paths_antichain [OF F]
  have d: "dirs_ok upath F d'"
    using dirs_ok_touched [OF a _ p t c b] s by (simp add: synced_def)
  have "(q \<in> insert p (modified s) \<longleftrightarrow> file_at d' (upath q) \<noteq> None) \<and> (q \<in> deleted s - {p} \<longrightarrow> q \<notin> insert p (modified s))"
    if q: "q \<in> F" for q
    using s c q touched_other [OF a p q _ t] by (cases "q = p") (auto simp: synced_def file_at_def)
  then show ?thesis using d by (simp add: synced_def)
qed

text \<open>The lower provider answers with a content or with \<open>NotFound\<close>.\<close>

definition lower_ok :: "provider \<Rightarrow> string \<Rightarrow> bool" where
  "lower_ok lower p = (case p_read lower p 0 0 of Inr _ \<Rightarrow> True | Inl (NotFound _) \<Rightarrow> True | _ \<Rightarrow> False)"

definition or_empty :: "bytes option \<Rightarrow> bytes" where
  "or_empty c = (case c of Some b \<Rightarrow> b | None \<Rightarrow> [])"

lemma ensure_upper_ok:
  assumes F: "file_paths F" and s: "synced F s" and p: "p \<in> F" and l: "lower_ok lower p"
  shows "\<exists>d'. ensure_upper lower s p = Inr (s\<lparr>upper := d', modified := insert p (modified s)\<rparr>) \<and>
    touched (upper s) (upath p) d' \<and> node_at d' (butlast (upath p)) = Some DDir \<and>
    file_at d' (upath p) = Some (if p \<in> modified s then or_empty (file_at (upper s) (upath p)) else or_empty (base lower p))"
proof (cases "p \<in> modified s")
  case True
  then have "insert p (modified s) = modified s" by auto
  moreover have "file_at (upper s) (upath p) \<noteq> None" "dirs_ok upath F (upper s)" using True s p by (auto simp: synced_def)
  ultimately show ?thesis
    using True p by (intro exI [of _ "upper s"])
      (auto simp: ensure_upper_def has_upper_def touched_def dirs_ok_def or_empty_def)
next
  case False
  have "dirs_ok upath F (upper s)" using s by (simp add: synced_def)
  then obtain d' where d': "create_and_write (upper s) (upath p) (or_empty (base lower p)) = Inr d'"
      "touched (upper s) (upath p) d'" "file_at d' (upath p) = Some (or_empty (base lower p))"
      "node_at d' (butlast (upath p)) = Some DDir"
    using create_ok [OF file_paths_antichain [OF F] _ p] by blast
  then show ?thesis
    using False file_pathsD [OF F p] l
    by (intro exI [of _ d'])
      (auto simp: ensure_upper_def has_upper_def lower_ok_def base_def or_empty_def rbind_def
        split: sum.splits vfs_error.splits)
qed

lemma write_file_ok:
  assumes F: "file_paths F" and s: "synced F s" and p: "p \<in> F" and l: "lower_ok lower p"
  shows "\<exists>s'. write_file lower s p dat off = (Inr (), s') \<and> synced F s' \<and>
    (\<forall>q \<in> F. view lower s' q =
      (if q = p then Some (splice (case view lower s p of Some c \<Rightarrow> c | None \<Rightarrow> or_empty (base lower p)) off dat)
       else view lower s q))"
proof -
  let ?c = "if p \<in> modified s then or_empty (file_at (upper s) (upath p)) else or_empty (base lower p)"
  obtain d1 where e: "ensure_upper lower s p = Inr (s\<lparr>upper := d1, modified := insert p (modified s)\<rparr>)"
      and t: "touched (upper s) (upath p) d1" "node_at d1 (butlast (upath p)) = Some DDir" "file_at d1 (upath p) = Some ?c"
    using ensure_upper_ok [OF F s p l] by blast
  have u: "safe_join p = Inr (upath p)" "upath p \<noteq> []" using file_pathsD [OF F p] by auto
  let ?d = "hm_insert (upath p) (DFile (splice ?c off dat)) d1"
  let ?s = "s\<lparr>upper := ?d, modified := insert p (modified s), deleted := deleted s - {p}\<rparr>"
  have nd: "node_at d1 (upath p) = Some (DFile ?c)"
    using t(3) by (auto simp: file_at_def split: option.splits dnode.splits)
  have w: "write_file lower s p dat off = (Inr (), ?s)"
    using nd t by (auto simp: write_file_def e u write_at_def write_offset_def splice_full Let_def)
  have bl: "butlast (upath p) \<noteq> upath p"
    using u(2) by (metis append_butlast_last_id not_Cons_self2 self_append_conv)
  have td: "touched (upper s) (upath p) ?d" using t(1) u(2) by (simp add: touched_def node_at_insert)
  have fd: "file_at ?d (upath p) = Some (splice ?c off dat)" using u(2) by (simp add: file_at_def node_at_insert)
  have sy: "synced F ?s"
    using synced_touched [OF F s p td fd] t(2) u(2) bl by (simp add: node_at_insert)
  have old: "?c = (case view lower s p of Some c \<Rightarrow> c | None \<Rightarrow> or_empty (base lower p))"
    using s p by (auto simp: view_synced [OF F s p] synced_def or_empty_def split: option.splits)
  have "view lower ?s q = view lower s q" if "q \<in> F" "q \<noteq> p" for q
    using touched_other [OF file_paths_antichain [OF F] p that td] that by (simp add: view_synced [OF F sy] view_synced [OF F s] file_at_def)
  moreover have "view lower ?s p = Some (splice ?c off dat)"
    by (simp add: view_synced [OF F sy p] fd)
  ultimately show ?thesis using w sy old by auto
qed

lemma save_list_other:
  assumes "q \<noteq> DELETED_LIST"
  shows "node_at (upper (save_deleted_list j s)) q = node_at (upper s) q"
  using assms by (auto simp: save_deleted_list_def write_at_def node_at_insert DELETED_LIST_def split: option.splits)

lemma save_list_sets [simp]:
  "modified (save_deleted_list j s) = modified s" "deleted (save_deleted_list j s) = deleted s"
  by (auto simp: save_deleted_list_def split: option.splits)

lemma not_list_path:
  assumes "file_paths F" "p \<in> F" "prefix v (upath p)"
  shows "v \<noteq> DELETED_LIST"
proof
  assume v: "v = DELETED_LIST"
  obtain w where "upath p = DELETED_LIST @ w" using assms(3) v by (auto simp: prefix_def)
  then show False using assms(1,2) by (auto simp: file_paths_def DELETED_LIST_def)
qed

lemma delete_ok:
  assumes F: "file_paths F" and s: "synced F s" and p: "p \<in> F"
  shows "\<exists>s'. delete j s p = (Inr (), s') \<and> synced F s' \<and>
    (\<forall>q \<in> F. view lower s' q = (if q = p then None else view lower s q))"
proof -
  have u: "safe_join p = Inr (upath p)" "upath p \<noteq> []" using file_pathsD [OF F p] by auto
  define s1 where "s1 = s\<lparr>upper := hm_remove (upath p) (upper s), modified := modified s - {p}, deleted := insert p (deleted s)\<rparr>"
  have gone: "hm_remove (upath p) (upper s) = upper s \<and> modified s - {p} = modified s" if "node_at (upper s) (upath p) = None"
  proof -
    have "p \<notin> modified s" using s p that by (auto simp: synced_def file_at_def)
    moreover have "hm_get (upper s) (upath p) = None" using that u(2) by (simp add: node_at_def)
    then have "hm_remove (upath p) (upper s) = upper s"
      by (auto simp: hm_remove_def hm_get_def filter_id_conv map_of_eq_None_iff rev_image_eqI)
    ultimately show ?thesis by simp
  qed
  have d: "delete j s p = (Inr (), save_deleted_list j s1)"
  proof (cases "node_at (upper s) (upath p)")
    case None
    then show ?thesis using gone by (simp add: delete_def u s1_def)
  next
    case (Some n)
    then obtain b where "n = DFile b" using s p by (cases n) (auto simp: synced_def dirs_ok_def)
    then show ?thesis using Some by (simp add: delete_def u s1_def)
  qed
  let ?s = "save_deleted_list j s1"
  have node: "node_at (upper ?s) v = (if v = upath p then None else node_at (upper s) v)" if "q \<in> F" "prefix v (upath q)" for q v
    using save_list_other [OF not_list_path [OF F that]] u(2) by (simp add: s1_def node_at_remove)
  have sets: "modified ?s = modified s - {p}" "deleted ?s = insert p (deleted s)" by (simp_all add: s1_def)
  have sy: "synced F ?s"
  proof -
    note a = file_paths_antichain [OF F]
    have "node_at (upper ?s) v = node_at (hm_remove (upath p) (upper s)) v" if "q \<in> F" "prefix v (upath q)" for q v
      using node [OF that] u(2) by (simp add: node_at_remove)
    then have "dirs_ok upath F (upper ?s)"
      using dirs_ok_remove [OF a _ p, of "upper s"] s by (auto simp: synced_def intro: dirs_ok_cong)
    moreover have "(q \<in> modified s - {p} \<longleftrightarrow> file_at (upper ?s) (upath q) \<noteq> None) \<and>
        (q \<in> insert p (deleted s) \<longrightarrow> q \<notin> modified s - {p})" if q: "q \<in> F" for q
      using node [OF q prefix_order.refl] s q antichain_facts(1) [OF a p q]
      by (cases "q = p") (auto simp: synced_def file_at_def)
    ultimately show ?thesis unfolding synced_def sets by blast
  qed
  have "view lower ?s q = (if q = p then None else view lower s q)" if q: "q \<in> F" for q
  proof (cases "q = p")
    case True
    then show ?thesis using sets(2) view_synced [OF F sy p, of lower] by (simp del: save_list_sets)
  next
    case False
    have "upath q \<noteq> upath p" using antichain_facts(1) [OF file_paths_antichain [OF F] p q False] .
    then show ?thesis
      using node [OF q prefix_order.refl] sets(2) False
      by (simp add: view_synced [OF F sy q] view_synced [OF F s q] file_at_def del: save_list_sets)
  qed
  then show ?thesis using d sy by auto
qed

datatype overlay_op = Write string bytes nat | Delete string

definition overlay_step :: "provider \<Rightarrow> json_set \<Rightarrow> overlay \<Rightarrow> overlay_op \<Rightarrow> overlay" where
  "overlay_step lower j s op =
     (case op of Write p dat off \<Rightarrow> snd (write_file lower s p dat off) | Delete p \<Rightarrow> snd (delete j s p))"

fun op_path :: "overlay_op \<Rightarrow> string" where
  "op_path (Write p dat off) = p"
| "op_path (Delete p) = p"

text \<open>
  The specification is a map from paths to contents over the lower layer. A write to a path without content starts
  from the content of the lower layer, if it has one.
\<close>

definition spec_step :: "provider \<Rightarrow> (string \<Rightarrow> bytes option) \<Rightarrow> overlay_op \<Rightarrow> string \<Rightarrow> bytes option" where
  "spec_step lower v op =
     (case op of
        Write p dat off \<Rightarrow> v(p \<mapsto> splice (case v p of Some c \<Rightarrow> c | None \<Rightarrow> or_empty (base lower p)) off dat)
      | Delete p \<Rightarrow> v(p := None))"

definition mirrors :: "string set \<Rightarrow> provider \<Rightarrow> overlay \<Rightarrow> (string \<Rightarrow> bytes option) \<Rightarrow> bool" where
  "mirrors F lower s v \<longleftrightarrow>
     file_paths F \<and> (\<forall>p \<in> F. lower_ok lower p) \<and> synced F s \<and> (\<forall>q \<in> F. view lower s q = v q)"

lemma overlay_step_mirrors:
  assumes m: "mirrors F lower s v" and p: "op_path op \<in> F"
  shows "mirrors F lower (overlay_step lower j s op) (spec_step lower v op)"
proof -
  have F: "file_paths F" "\<forall>p \<in> F. lower_ok lower p" and s: "synced F s" and v: "\<forall>q \<in> F. view lower s q = v q"
    using m by (auto simp: mirrors_def)
  have "synced F (overlay_step lower j s op) \<and> (\<forall>q \<in> F. view lower (overlay_step lower j s op) q = spec_step lower v op q)"
  proof (cases op)
    case (Write w dat off)
    have w: "w \<in> F" "lower_ok lower w" using p F(2) Write by auto
    from write_file_ok [OF F(1) s w, of dat off] show ?thesis
      using v w(1) Write by (auto simp: overlay_step_def spec_step_def)
  next
    case (Delete w)
    have w: "w \<in> F" using p Delete by auto
    from delete_ok [OF F(1) s w, of j lower] show ?thesis
      using v w Delete by (auto simp: overlay_step_def spec_step_def)
  qed
  then show ?thesis using F by (simp add: mirrors_def)
qed

interpretation overlay_sim: simulation "overlay_step lower j" "spec_step lower" "mirrors F lower" "\<lambda>op. op_path op \<in> F"
  for lower j F
  by unfold_locales (rule overlay_step_mirrors)

lemma new_synced:
  assumes "file_paths F"
  shows "synced F (overlay_new j [])"
proof -
  have "file_at [] (upath p) = None" if "p \<in> F" for p
    using file_pathsD [OF assms that] by (simp add: file_at_def node_at_def)
  then show ?thesis
    using dirs_ok_Nil [OF file_paths_antichain [OF assms]]
    by (simp add: synced_def overlay_new_def scan_upper_dir_def hm_keys_def)
qed


definition ex_lower :: provider where
  "ex_lower = \<lparr>p_list = (\<lambda>p. if p = [] then Inr [] else Inl (NotFound p)),
     p_stat = (\<lambda>p. Inl (NotFound p)),
     p_read = (\<lambda>p off len. if p = ''a'' \<or> p = ''d/x'' then Inr (read_from_disk [1, 2, 3] off len) else Inl (NotFound p))\<rparr>"

definition ex_json :: json_set where
  "ex_json = \<lparr>enc = (\<lambda>ps. if ''a'' \<in> ps then [1] else [0]), dec = (\<lambda>b. if b = [1] then Some {''a''} else Some {})\<rparr>"

lemma ex_paths: "safe_join ''a'' = Inr [''a'']" "safe_join ''b'' = Inr [''b'']" "safe_join ''d'' = Inr [''d'']"
  "safe_join ''d/x'' = Inr [''d'', ''x'']"
  by code_simp+


section \<open>Where the overlay differs from a file system\<close>

lemmas overlay_defs = write_file_def ensure_upper_def has_upper_def delete_def save_deleted_list_def DELETED_LIST_def
  view_def read_file_def is_deleted_def overlay_new_def scan_upper_dir_def load_deleted_list_def file_at_def node_at_def
  create_and_write_def create_dir_all_def write_at_def write_offset_def splice_def rbind_def hm_keys_def Let_def
  rename_def copy_up_def rename_at_def mkdir_def list_dir_def ex_paths

text \<open>
  A file that is deleted and then created again is not new. Its first write starts from the deleted content of
  the lower layer, so three bytes of which one is written read as one new and two old bytes; and since the
  write does not save the list of deleted files, after a restart the file is gone.
\<close>

theorem overlay_revives_deleted:
  "let s = snd (write_file ex_lower (snd (delete ex_json (overlay_new ex_json []) ''a'')) ''a'' [9] 0) in
   view ex_lower s ''a'' = Some [9, 2, 3] \<and> view ex_lower (overlay_new ex_json (upper s)) ''a'' = None"
proof -
  have safe: "is_safe_deleted_entry ''a''" by code_simp
  show ?thesis
    by (simp add: overlay_defs ex_lower_def ex_json_def hm_simps hm_insert_def hm_get_def safe)
qed

text \<open>
  A rename onto a path that was deleted succeeds and leaves nothing visible under either name; a new
  directory cannot be listed; the files of a deleted directory can still be read.
\<close>

theorem overlay_directory_anomalies:
  "(let s = snd (rename ex_lower ex_json (snd (delete ex_json (overlay_new ex_json []) ''b'')) ''a'' ''b'') in
    fst (rename ex_lower ex_json (snd (delete ex_json (overlay_new ex_json []) ''b'')) ''a'' ''b'') = Inr () \<and>
    view ex_lower s ''a'' = None \<and> view ex_lower s ''b'' = None) \<and>
   fst (mkdir (overlay_new ex_json []) ''d'') = Inr () \<and>
   list_dir ex_lower (snd (mkdir (overlay_new ex_json []) ''d'')) ''d'' = Inl (NotFound ''d'') \<and>
   view ex_lower (snd (delete ex_json (overlay_new ex_json []) ''d'')) ''d/x'' = Some [1, 2, 3]"
  by (simp add: overlay_defs ex_lower_def ex_json_def hm_simps hm_insert_def hm_get_def hm_remove_def)

end
