(* ===== verification/Vfs_Cache.thy ===== *)
theory Vfs_Cache
  imports Vfs_Disk Rust_Float
begin

text \<open>
  The cache of hydrated files (\<open>crates/runesh-vfs/src/cache.rs\<close>): a directory on the local disk, an entry per
  cached path with its size and last access, and eviction of the least recently used files.

  The cache directory is a \<open>disk\<close>; each reading of the clock is an argument; a call is one step, since \<open>put\<close>
  and \<open>evict\<close> do their bookkeeping under one lock.
\<close>

record cache_entry =
  cpath :: string
  csize :: u64
  last_access :: nat

record cache =
  dir :: disk
  max_bytes :: u64
  centries :: "(string, cache_entry) hash_map"
  current_bytes :: u64

definition cache_path :: "string \<Rightarrow> vfs_error + path" where
  "cache_path p =
     (if contains_str ''..'' p \<or> CHR 0x00 \<in> set p then Inl PathTraversal else join_components [] (components p))"

definition evict_target :: "u64 \<Rightarrow> nat" where
  "evict_target mx = f64_as_u64 (f64_mul (f64_of_nat (unat mx)) (round_f64 (4 / 5)))"

text \<open>The loop over the entries, oldest first.\<close>

fun evict_loop :: "nat \<Rightarrow> cache_entry list \<Rightarrow> cache \<Rightarrow> cache" where
  "evict_loop tgt [] c = c"
| "evict_loop tgt (e # es) c =
     (if unat (current_bytes c) \<le> tgt then c
      else case cache_path (cpath e) of
        Inl _ \<Rightarrow> evict_loop tgt es (c\<lparr>centries := hm_remove (cpath e) (centries c)\<rparr>)
      | Inr u \<Rightarrow>
          (case remove_file_at (dir c) u of
             Some d \<Rightarrow> evict_loop tgt es (c\<lparr>dir := d, current_bytes := sat_sub (current_bytes c) (csize e),
                 centries := hm_remove (cpath e) (centries c)\<rparr>)
           | None \<Rightarrow> evict_loop tgt es c))"

definition evict_lru_locked :: "cache \<Rightarrow> cache" where
  "evict_lru_locked c =
     evict_loop (evict_target (max_bytes c)) (sort_key last_access (hm_values (centries c))) c"

text \<open>\<open>put\<close>: the file is written, then the entry is replaced and the size is adjusted.\<close>

definition account :: "cache \<Rightarrow> string \<Rightarrow> u64 \<Rightarrow> nat \<Rightarrow> cache" where
  "account c p n now =
     (let old = hm_get (centries c) p;
          bytes = (case old of Some e \<Rightarrow> sat_sub (current_bytes c) (csize e) | None \<Rightarrow> current_bytes c)
      in c\<lparr>centries := hm_insert p \<lparr>cpath = p, csize = n, last_access = now\<rparr> (centries c),
           current_bytes := sat_add bytes n\<rparr>)"

definition put :: "cache \<Rightarrow> string \<Rightarrow> bytes \<Rightarrow> nat \<Rightarrow> (vfs_error + unit) \<times> cache" where
  "put c p dat now =
     (case cache_path p of
        Inl e \<Rightarrow> (Inl e, c)
      | Inr u \<Rightarrow>
          (case create_and_write (dir c) u dat of
             Inl e \<Rightarrow> (Inl e, c)
           | Inr d \<Rightarrow>
               (let c = account (c\<lparr>dir := d\<rparr>) p (of_nat (length dat)) now in
                (Inr (), if current_bytes c > max_bytes c then evict_lru_locked c else c))))"

definition get :: "cache \<Rightarrow> string \<Rightarrow> nat \<Rightarrow> bytes option \<times> cache" where
  "get c p now =
     (case cache_path p of
        Inl _ \<Rightarrow> (None, c)
      | Inr u \<Rightarrow>
          if node_at (dir c) u = None then (None, c)
          else
            (let c = (case hm_get (centries c) p of
                        Some e \<Rightarrow> c\<lparr>centries := hm_insert p (e\<lparr>last_access := now\<rparr>) (centries c)\<rparr>
                      | None \<Rightarrow> c)
             in (file_at (dir c) u, c)))"

definition contains :: "cache \<Rightarrow> string \<Rightarrow> bool" where
  "contains c p = (case cache_path p of Inr u \<Rightarrow> node_at (dir c) u \<noteq> None | Inl _ \<Rightarrow> False)"

definition evict :: "cache \<Rightarrow> string \<Rightarrow> (vfs_error + unit) \<times> cache" where
  "evict c p =
     (case cache_path p of
        Inl e \<Rightarrow> (Inl e, c)
      | Inr u \<Rightarrow>
          (case remove_file_at (dir c) u of
             Some d \<Rightarrow>
               (let n = (case hm_get (centries c) p of Some e \<Rightarrow> csize e | None \<Rightarrow> 0) in
                (Inr (), c\<lparr>dir := d, centries := hm_remove p (centries c), current_bytes := sat_sub (current_bytes c) n\<rparr>))
           | None \<Rightarrow> if node_at (dir c) u = None then (Inr (), c) else (Inl Io, c)))"

text \<open>The scan of an existing directory: all its files, without eviction.\<close>

definition scan_existing :: "disk \<Rightarrow> nat \<Rightarrow> (string, cache_entry) hash_map \<times> u64" where
  "scan_existing d now =
     foldl (\<lambda>(es, n) (p, node). case node of
         DFile b \<Rightarrow> (hm_insert (join_path p) \<lparr>cpath = join_path p, csize = of_nat (length b), last_access = now\<rparr> es,
                     n + of_nat (length b))
       | DDir \<Rightarrow> (es, n)) ([], 0) d"

definition cache_new :: "disk \<Rightarrow> u64 \<Rightarrow> nat \<Rightarrow> cache" where
  "cache_new d mx now =
     (let (es, n) = scan_existing d now in \<lparr>dir = d, max_bytes = mx, centries = es, current_bytes = n\<rparr>)"

section \<open>The target of an eviction\<close>

lemma evict_target_le: "unat mx < 2 ^ 53 \<Longrightarrow> evict_target mx \<le> unat mx"
proof -
  define m where "m = unat mx"
  assume "unat mx < 2 ^ 53"
  then have mx: "m < 2 ^ 53" by (simp add: m_def)
  obtain f where f: "round_f64 (4 / 5) = Fin f" "0 \<le> f" "f \<le> 1"
    using round_f64_le [of "4 / 5" 1] by auto
  have "rat_of_nat m * f \<le> rat_of_nat m * 1" by (intro mult_left_mono f(3)) simp
  then obtain r where r: "round_f64 (of_nat m * f) = Fin r" "0 \<le> r" "r \<le> of_nat m"
    using round_f64_le [of "of_nat m * f" m] f(2) mx by auto
  have "nat (floor r) \<le> m" using r(2,3) by linarith
  then show "evict_target mx \<le> unat mx"
    unfolding evict_target_def m_def [symmetric] f64_of_nat_exact [OF mx] f(1) f64_mul.simps r(1)
    by (simp add: f64_as_u64_def)
qed

section \<open>The bookkeeping\<close>

definition up :: "string \<Rightarrow> path" where
  "up p = (case cache_path p of Inr u \<Rightarrow> u | Inl _ \<Rightarrow> [])"

definition cache_paths :: "string set \<Rightarrow> bool" where
  "cache_paths F \<longleftrightarrow> antichain up F \<and> (\<forall>p \<in> F. cache_path p = Inr (up p))"

definition sizes :: "(string, cache_entry) hash_map \<Rightarrow> nat" where
  "sizes m = (\<Sum>e \<leftarrow> hm_values m. unat (csize e))"

text \<open>
  Every entry has its file and every file its entry, with the right size; the counter is the sum of the
  sizes; every file holds the bytes last put (\<open>ghost\<close>).
\<close>

definition books :: "string set \<Rightarrow> (string \<Rightarrow> bytes option) \<Rightarrow> cache \<Rightarrow> bool" where
  "books F ghost c \<longleftrightarrow>
     dirs_ok up F (dir c) \<and> hm_wf (centries c) \<and> unat (current_bytes c) = sizes (centries c) \<and>
     (\<forall>p e. hm_get (centries c) p = Some e \<longrightarrow> p \<in> F \<and> cpath e = p) \<and>
     (\<forall>p \<in> F. map_option (\<lambda>b. length b) (file_at (dir c) (up p)) = map_option (\<lambda>e. unat (csize e)) (hm_get (centries c) p)) \<and>
     (\<forall>p \<in> F. file_at (dir c) (up p) = None \<or> file_at (dir c) (up p) = ghost p)"

lemma sizes_insert:
  assumes "hm_wf m"
  shows "sizes (hm_insert p e m) + (case hm_get m p of Some o' \<Rightarrow> unat (csize o') | None \<Rightarrow> 0) = sizes m + unat (csize e)"
  using assms
proof (induction m)
  case (Cons kv m)
  obtain k v where "kv = (k, v)" by fastforce
  with Cons show ?case by (auto simp: sizes_def hm_values_def hm_insert_def hm_get_def hm_wf_def)
qed (simp add: sizes_def hm_values_def hm_insert_def)

lemma sizes_remove:
  assumes "hm_wf m"
  shows "sizes (hm_remove p m) + (case hm_get m p of Some o' \<Rightarrow> unat (csize o') | None \<Rightarrow> 0) = sizes m"
  using assms
proof (induction m)
  case (Cons kv m)
  obtain k v where kv: "kv = (k, v)" by fastforce
  have "hm_get m k = None" using Cons.prems kv by (simp add: hm_wf_def hm_get_def map_of_eq_None_iff)
  with Cons kv show ?case by (auto simp: sizes_def hm_values_def hm_remove_def hm_get_def hm_wf_def)
qed (simp add: sizes_def hm_values_def hm_remove_def)

text \<open>Removing a file and its entry.\<close>

lemma books_remove:
  assumes F: "cache_paths F" and b: "books F gh c" and p: "p \<in> F" and e: "hm_get (centries c) p = Some e"
  defines "c' \<equiv> c\<lparr>dir := hm_remove (up p) (dir c), current_bytes := sat_sub (current_bytes c) (csize e),
      centries := hm_remove p (centries c)\<rparr>"
  shows "books F gh c'" "remove_file_at (dir c) (up p) = Some (hm_remove (up p) (dir c))"
    "unat (current_bytes c') + unat (csize e) = unat (current_bytes c)"
proof -
  have a: "antichain up F" and u: "up p \<noteq> []" using F p by (auto simp: cache_paths_def antichain_def)
  have ex: "file_at (dir c) (up p) \<noteq> None"
  proof -
    have "map_option (\<lambda>b. length b) (file_at (dir c) (up p)) = Some (unat (csize e))"
      using b p e by (simp add: books_def)
    then show ?thesis by auto
  qed
  then show "remove_file_at (dir c) (up p) = Some (hm_remove (up p) (dir c))" by (simp add: remove_file_at_def)
  have sz: "sizes (hm_remove p (centries c)) + unat (csize e) = sizes (centries c)"
    using sizes_remove [of "centries c" p] b e by (simp add: books_def)
  then show cur: "unat (current_bytes c') + unat (csize e) = unat (current_bytes c)"
    using b by (simp add: c'_def unat_sat_sub books_def)
  have f: "file_at (dir c') (up q) = (if q = p then None else file_at (dir c) (up q))" if "q \<in> F" for q
    using u antichain_facts(1) [OF a p that] by (simp add: c'_def file_at_def node_at_remove)
  have g: "hm_get (centries c') q = (if q = p then None else hm_get (centries c) q)" for q
    by (simp add: c'_def hm_simps)
  have "dirs_ok up F (dir c')" using b by (simp add: c'_def books_def dirs_ok_remove [OF a _ p])
  moreover have "hm_wf (centries c')" using b by (simp add: c'_def books_def hm.wf_remove)
  moreover have "unat (current_bytes c') = sizes (centries c')" using cur sz b by (simp add: c'_def books_def)
  ultimately show "books F gh c'"
    using b by (auto simp: books_def f g)
qed

lemma evict_loop_books:
  assumes F: "cache_paths F" and b: "books F gh c" and dist: "distinct (map cpath es)"
    and es: "\<And>p e. hm_get (centries c) p = Some e \<longleftrightarrow> e \<in> set es \<and> cpath e = p"
  shows "books F gh (evict_loop tgt es c) \<and> unat (current_bytes (evict_loop tgt es c)) \<le> tgt \<and>
    max_bytes (evict_loop tgt es c) = max_bytes c"
  using b dist es
proof (induction es arbitrary: c)
  case Nil
  have "centries c = []"
  proof (cases "centries c")
    case (Cons kv m)
    then show ?thesis using Nil.prems(3) [of "fst kv" "snd kv"] by (simp add: hm_get_def)
  qed
  then show ?case using Nil.prems(1) by (simp add: books_def sizes_def hm_values_def)
next
  case (Cons e es)
  show ?case
  proof (cases "unat (current_bytes c) \<le> tgt")
    case False
    have e: "hm_get (centries c) (cpath e) = Some e" using Cons.prems(3) by simp
    then have p: "cpath e \<in> F" using Cons.prems(1) unfolding books_def by blast
    then have u: "cache_path (cpath e) = Inr (up (cpath e))" using F by (simp add: cache_paths_def)
    let ?c = "c\<lparr>dir := hm_remove (up (cpath e)) (dir c), current_bytes := sat_sub (current_bytes c) (csize e),
      centries := hm_remove (cpath e) (centries c)\<rparr>"
    note rm = books_remove [OF F Cons.prems(1) p e]
    have "hm_get (centries ?c) q = Some e' \<longleftrightarrow> e' \<in> set es \<and> cpath e' = q" for q e'
      using Cons.prems(2,3) by (auto simp: hm_simps) (metis image_eqI)
    from Cons.IH [OF rm(1) _ this] Cons.prems(2)
    show ?thesis using False u rm(2) by simp
  qed (use Cons.prems in auto)
qed

lemma evict_lru_books:
  assumes F: "cache_paths F" and b: "books F gh c"
  shows "books F gh (evict_lru_locked c)" "unat (current_bytes (evict_lru_locked c)) \<le> evict_target (max_bytes c)"
    "max_bytes (evict_lru_locked c) = max_bytes c"
proof -
  let ?es = "sort_key last_access (hm_values (centries c))"
  have wf: "hm_wf (centries c)" and key: "\<And>p e. hm_get (centries c) p = Some e \<Longrightarrow> cpath e = p"
    using b unfolding books_def by blast+
  have mem: "(p, e) \<in> set (centries c) \<longleftrightarrow> hm_get (centries c) p = Some e" for p e
    using hm_get_mem [OF wf] by blast
  have "map cpath (hm_values (centries c)) = map fst (centries c)"
    using key mem by (auto simp: hm_values_def)
  then have "distinct (map cpath (hm_values (centries c)))" using wf by (simp add: hm_wf_def)
  then have "distinct (map cpath ?es)"
    by (metis distinct_map distinct_sort set_sort)
  moreover have "hm_get (centries c) p = Some e \<longleftrightarrow> e \<in> set ?es \<and> cpath e = p" for p e
    using key mem by (auto simp: hm_values_def) (metis snd_conv image_eqI)
  ultimately show "books F gh (evict_lru_locked c)" "unat (current_bytes (evict_lru_locked c)) \<le> evict_target (max_bytes c)"
    "max_bytes (evict_lru_locked c) = max_bytes c"
    using evict_loop_books [OF F b] unfolding evict_lru_locked_def by blast+
qed

definition in_limit :: "string set \<Rightarrow> (string \<Rightarrow> bytes option) \<Rightarrow> u64 \<Rightarrow> cache \<Rightarrow> bool" where
  "in_limit F gh mx c \<longleftrightarrow> books F gh c \<and> max_bytes c = mx \<and> unat (current_bytes c) \<le> unat mx"

lemma account_books:
  assumes F: "cache_paths F" and w: "in_limit F gh mx c" and p: "p \<in> F" and room: "unat mx + length dat < 2 ^ 64"
    and t: "touched (dir c) (up p) d'" "file_at d' (up p) = Some dat" "node_at d' (butlast (up p)) = Some DDir"
  shows "books F (gh(p \<mapsto> dat)) (account (c\<lparr>dir := d'\<rparr>) p (of_nat (length dat)) now)"
proof -
  have b: "books F gh c" and le: "unat (current_bytes c) \<le> unat mx" using w by (auto simp: in_limit_def)
  have a: "antichain up F" using F by (simp add: cache_paths_def)
  have len: "unat (of_nat (length dat) :: u64) = length dat"
    using room by (intro unat_of_nat_small) simp
  let ?c = "account (c\<lparr>dir := d'\<rparr>) p (of_nat (length dat)) now"
  let ?old = "case hm_get (centries c) p of Some e \<Rightarrow> unat (csize e) | None \<Rightarrow> 0"
  have sz: "sizes (centries ?c) + ?old = sizes (centries c) + length dat"
    using sizes_insert [of "centries c" p "\<lparr>cpath = p, csize = of_nat (length dat), last_access = now\<rparr>"] b
    by (simp add: account_def books_def len Let_def)
  have "unat (current_bytes ?c) = unat (current_bytes c) - ?old + length dat"
    using le room by (auto simp: account_def Let_def unat_sat_add unat_sat_sub len split: option.splits)
  moreover have "?old \<le> sizes (centries c)"
    using sizes_remove [of "centries c" p] b by (simp add: books_def)
  ultimately have cur: "unat (current_bytes ?c) = sizes (centries ?c)" using sz b by (simp add: books_def)
  have f: "file_at d' (up q) = (if q = p then Some dat else file_at (dir c) (up q))" if "q \<in> F" for q
    using t(2) touched_other [OF a p that _ t(1)] by (simp add: file_at_def)
  have g: "hm_get (centries ?c) q = (if q = p then Some \<lparr>cpath = p, csize = of_nat (length dat), last_access = now\<rparr>
      else hm_get (centries c) q)" for q
    by (simp add: account_def Let_def hm_simps)
  have d: "dir ?c = d'" by (simp add: account_def Let_def)
  have "dirs_ok up F d'" using dirs_ok_touched [OF a _ p t] b by (simp add: books_def)
  moreover have "hm_wf (centries ?c)" using b by (simp add: account_def Let_def books_def hm.wf_insert)
  ultimately show ?thesis
    using b cur p by (auto simp: books_def f g d len)
qed

lemma put_within:
  assumes F: "cache_paths F" and w: "in_limit F gh mx c" and p: "p \<in> F" and room: "unat mx + length dat < 2 ^ 64"
    and mx: "unat mx < 2 ^ 53"
  shows "fst (put c p dat now) = Inr () \<and> in_limit F (gh(p \<mapsto> dat)) mx (snd (put c p dat now))"
proof -
  have a: "antichain up F" and u: "cache_path p = Inr (up p)" using F p by (auto simp: cache_paths_def)
  have "dirs_ok up F (dir c)" using w by (simp add: in_limit_def books_def)
  then obtain d' where d': "create_and_write (dir c) (up p) dat = Inr d'" "touched (dir c) (up p) d'"
      "file_at d' (up p) = Some dat" "node_at d' (butlast (up p)) = Some DDir"
    using create_ok [OF a _ p] by blast
  let ?c = "account (c\<lparr>dir := d'\<rparr>) p (of_nat (length dat)) now"
  have b: "books F (gh(p \<mapsto> dat)) ?c" by (rule account_books [OF F w p room d'(2-4)])
  have m: "max_bytes ?c = mx" using w by (simp add: account_def Let_def in_limit_def)
  note ev = evict_lru_books [OF F b]
  show ?thesis
  proof (cases "current_bytes ?c > max_bytes ?c")
    case True
    have "put c p dat now = (Inr (), evict_lru_locked ?c)"
      using True by (simp add: put_def u d'(1) Let_def)
    then show ?thesis using ev evict_target_le [OF mx] m by (simp add: in_limit_def)
  next
    case False
    have "put c p dat now = (Inr (), ?c)"
      using False by (simp add: put_def u d'(1) Let_def)
    then show ?thesis using False b m by (simp add: in_limit_def not_less word_le_nat_alt)
  qed
qed

lemma evict_in_limit:
  assumes F: "cache_paths F" and w: "in_limit F gh mx c" and p: "p \<in> F"
  shows "in_limit F gh mx (snd (evict c p))"
proof (cases "hm_get (centries c) p")
  case None
  have u: "cache_path p = Inr (up p)" using F p by (simp add: cache_paths_def)
  have "map_option (\<lambda>b. length b) (file_at (dir c) (up p)) = None"
    using w p None by (simp add: in_limit_def books_def)
  then have "file_at (dir c) (up p) = None" by simp
  then have "snd (evict c p) = c" by (simp add: evict_def u remove_file_at_def)
  then show ?thesis using w by simp
next
  case (Some e)
  have u: "cache_path p = Inr (up p)" using F p by (simp add: cache_paths_def)
  have b: "books F gh c" using w by (simp add: in_limit_def)
  note rm = books_remove [OF F b p Some]
  have "snd (evict c p) = c\<lparr>dir := hm_remove (up p) (dir c), current_bytes := sat_sub (current_bytes c) (csize e),
      centries := hm_remove p (centries c)\<rparr>"
    using rm(2) by (simp add: evict_def u Some Let_def)
  then show ?thesis using rm(1,3) w by (simp add: in_limit_def)
qed

lemma get_in_limit:
  assumes F: "cache_paths F" and w: "in_limit F gh mx c" and p: "p \<in> F"
  shows "in_limit F gh mx (snd (get c p now))" "fst (get c p now) = file_at (dir c) (up p)"
proof -
  have u: "cache_path p = Inr (up p)" using F p by (simp add: cache_paths_def)
  show "fst (get c p now) = file_at (dir c) (up p)"
    by (auto simp: get_def u file_at_def Let_def split: option.splits)
  show "in_limit F gh mx (snd (get c p now))"
  proof (cases "hm_get (centries c) p")
    case None
    then have "snd (get c p now) = c" by (simp add: get_def u Let_def)
    then show ?thesis using w by simp
  next
    case (Some e)
    let ?e = "e\<lparr>last_access := now\<rparr>"
    have sz: "sizes (hm_insert p ?e (centries c)) = sizes (centries c)"
      using sizes_insert [of "centries c" p ?e] Some w by (simp add: in_limit_def books_def)
    have "in_limit F gh mx (c\<lparr>centries := hm_insert p ?e (centries c)\<rparr>)"
      using w Some sz by (auto simp: in_limit_def books_def hm_simps hm.wf_insert)
    then show ?thesis using w by (simp add: get_def u Some Let_def)
  qed
qed

datatype cache_op = Put string bytes nat | Get string nat | Evict string

definition cache_step :: "cache \<Rightarrow> cache_op \<Rightarrow> cache" where
  "cache_step c op =
     (case op of Put p dat now \<Rightarrow> snd (put c p dat now) | Get p now \<Rightarrow> snd (get c p now) | Evict p \<Rightarrow> snd (evict c p))"

definition last_put :: "(string \<Rightarrow> bytes option) \<Rightarrow> cache_op \<Rightarrow> string \<Rightarrow> bytes option" where
  "last_put gh op = (case op of Put p dat now \<Rightarrow> gh(p \<mapsto> dat) | _ \<Rightarrow> gh)"

definition op_ok :: "string set \<Rightarrow> u64 \<Rightarrow> cache_op \<Rightarrow> bool" where
  "op_ok F mx op =
     (case op of Put p dat now \<Rightarrow> p \<in> F \<and> unat mx + length dat < 2 ^ 64 | Get p now \<Rightarrow> p \<in> F | Evict p \<Rightarrow> p \<in> F)"

interpretation cache_sim: simulation cache_step last_put
  "\<lambda>c gh. cache_paths F \<and> unat mx < 2 ^ 53 \<and> in_limit F gh mx c" "op_ok F mx" for F mx
proof
  fix c gh op
  assume a: "cache_paths F \<and> unat mx < 2 ^ 53 \<and> in_limit F gh mx c" "op_ok F mx op"
  then have F: "cache_paths F" and mx: "unat mx < 2 ^ 53" and c: "in_limit F gh mx c" by auto
  have "in_limit F (last_put gh op) mx (cache_step c op)"
    using a(2) put_within [OF F c _ _ mx] evict_in_limit [OF F c] get_in_limit(1) [OF F c]
    by (cases op) (auto simp: cache_step_def last_put_def op_ok_def)
  with a(1) show "cache_paths F \<and> unat mx < 2 ^ 53 \<and> in_limit F (last_put gh op) mx (cache_step c op)" by simp
qed

lemma cache_run:
  assumes "cache_paths F" "unat mx < 2 ^ 53" "in_limit F gh mx c" "\<forall>op \<in> set ops. op_ok F mx op"
  shows "in_limit F (foldl last_put gh ops) mx (foldl cache_step c ops)"
  using cache_sim.run_rel [where F = F and mx = mx, OF _ assms(4)] assms(1,2,3) by blast

lemma cache_new_empty: "cache_paths F \<Longrightarrow> in_limit F (\<lambda>_. None) mx (cache_new [] mx t0)"
proof -
  assume F: "cache_paths F"
  have "file_at [] (up p) = None" if "p \<in> F" for p
    using F that by (auto simp: cache_paths_def antichain_def file_at_def node_at_def)
  then show ?thesis
    using F by (simp add: in_limit_def books_def cache_new_def scan_existing_def sizes_def hm_values_def
        cache_paths_def dirs_ok_Nil)
qed


lemma ex_cache_paths: "cache_path ''a'' = Inr [''a'']" "cache_path ''b'' = Inr [''b'']" "cache_path ''./a'' = Inr [''a'']"
  by code_simp+


text \<open>
  Several spellings of one path are several entries for one file. The cache then counts the file once per
  spelling and can evict it only once: after these three puts the counter stands above the maximum and no
  file is left.
\<close>

theorem cache_alias_exceeds_max:
  "let c = foldl cache_step (cache_new [] 4 0) [Put ''a'' [1] 1, Put ''./a'' [1, 2, 3] 2, Put ''././a'' [1, 2, 3] 3] in
   current_bytes c = 6 \<and> current_bytes c > max_bytes c \<and> dir c = []"
proof -
  have t: "evict_target 4 \<le> 4" using evict_target_le [of 4] by simp
  have p: "cache_path ''././a'' = Inr [''a'']" by code_simp
  have a: "sat_add 1 (3 :: u64) = 4" "sat_add 4 (3 :: u64) = 7" "sat_sub 7 (1 :: u64) = 6" "sat_add 0 (1 :: u64) = 1"
    by (simp_all add: sat_add_def sat_sub_def)
  show ?thesis
    using t
    by (simp add: cache_step_def cache_new_def scan_existing_def put_def ex_cache_paths p create_and_write_def
        create_dir_all_def write_at_def node_at_def account_def a evict_lru_locked_def remove_file_at_def file_at_def
        hm_simps hm_insert_def hm_get_def hm_remove_def hm_values_def Let_def)
qed

end
