(* ===== verification/Backup.thy ===== *)
theory Backup
  imports Rust_Std
begin

text \<open>
  The backup engine (\<open>crates/runesh-backup/src/lib.rs\<close> and \<open>scan.rs\<close>): content-addressed chunks, the in-memory
  repository with its snapshots, restore and garbage collection, the retention policy, and the backup of
  a directory.

  SHA-256 is the parameter \<open>sha\<close>; that it has no collision among the chunks at hand is the hypothesis of
  the theorems that need it. The calendar (chrono) is the parameter \<open>calendar\<close>. The content-defined chunkers
  (fastcdc) are parameters that give the cut points or the pieces. The random id and the clock are
  arguments. Time stamps are nanoseconds. A panic is \<open>None\<close>.
\<close>

type_synonym bytes = "u8 list"

type_synonym hasher = "bytes \<Rightarrow> bytes"

datatype backup_error =
  SnapshotNotFound string | ChunkMissing string | HashMismatch string string | StorageError string | SerdeError string

record manifest =
  snap_id :: string
  hostname :: string
  paths :: "string list"
  created_at :: int
  total_size :: u64
  chunk_ids :: "string list"
  tags :: "string list"

record chunk =
  chunk_id :: string
  chunk_bytes :: bytes
  original_size :: nat

definition content_hash :: "hasher \<Rightarrow> bytes \<Rightarrow> string" where
  "content_hash sha d = concat (map hex_u8 (sha d))"

section \<open>Chunkers\<close>

text \<open>The slices of \<open>slice::chunks\<close>, for a size that is not zero.\<close>

fun pieces :: "nat \<Rightarrow> 'a list \<Rightarrow> 'a list list" where
  "pieces n xs = (if n = 0 \<or> xs = [] then [] else take n xs # pieces n (drop n xs))"

declare pieces.simps [simp del]

definition mk_chunk :: "hasher \<Rightarrow> bytes \<Rightarrow> chunk" where
  "mk_chunk sha piece = \<lparr>chunk_id = content_hash sha piece, chunk_bytes = piece, original_size = length piece\<rparr>"

definition chunk_data :: "hasher \<Rightarrow> bytes \<Rightarrow> nat \<Rightarrow> chunk list option" where
  "chunk_data sha d chunk_size = (if chunk_size = 0 then None else Some (map (mk_chunk sha) (pieces chunk_size d)))"

definition subslice :: "bytes \<Rightarrow> nat \<Rightarrow> nat \<Rightarrow> bytes option" where
  "subslice d off len = (if off + len \<le> length d then Some (take len (drop off d)) else None)"

definition chunk_data_cdc ::
    "hasher \<Rightarrow> (bytes \<Rightarrow> nat \<Rightarrow> nat \<Rightarrow> nat \<Rightarrow> (nat \<times> nat) list) \<Rightarrow> bytes \<Rightarrow> u32 \<Rightarrow> u32 \<Rightarrow> u32 \<Rightarrow> chunk list option" where
  "chunk_data_cdc sha cdc d min_size avg_size max_size =
     those (map (\<lambda>(off, len). map_option (mk_chunk sha) (subslice d off len))
       (cdc d (unat min_size) (unat avg_size) (unat max_size)))"

section \<open>Retention\<close>

record retention_policy =
  keep_daily :: u32
  keep_weekly :: u32
  keep_monthly :: u32
  keep_yearly :: u32
  keep_last :: u32

definition default_policy :: retention_policy where
  "default_policy = \<lparr>keep_daily = 7, keep_weekly = 4, keep_monthly = 12, keep_yearly = 0, keep_last = 1\<rparr>"

record calendar =
  utc_date :: "int \<Rightarrow> int"
  iso_week :: "int \<Rightarrow> int \<times> nat"
  year_month :: "int \<Rightarrow> int \<times> nat"
  utc_year :: "int \<Rightarrow> int"

fun fill_loop :: "nat \<Rightarrow> (manifest \<Rightarrow> 'k) \<Rightarrow> 'k list \<Rightarrow> manifest list \<Rightarrow> string set \<Rightarrow> string set" where
  "fill_loop limit key seen [] dst = dst"
| "fill_loop limit key seen (s # ss) dst =
     (if length seen \<ge> limit then dst
      else if key s \<in> set seen then fill_loop limit key seen ss dst
      else fill_loop limit key (key s # seen) ss (insert (snap_id s) dst))"

definition fill :: "string set \<Rightarrow> manifest list \<Rightarrow> u32 \<Rightarrow> (manifest \<Rightarrow> 'k) \<Rightarrow> string set" where
  "fill dst ordered limit key = (if limit = 0 then dst else fill_loop (unat limit) key [] ordered dst)"

definition newest_first :: "manifest list \<Rightarrow> manifest list" where
  "newest_first ms = sort_key (\<lambda>m. - created_at m) ms"

definition select_keep :: "calendar \<Rightarrow> retention_policy \<Rightarrow> manifest list \<Rightarrow> string set" where
  "select_keep cal p ms =
     (let ordered = newest_first ms;
          keep = snap_id ` set (take (unat (keep_last p)) ordered);
          keep = fill keep ordered (keep_daily p) (\<lambda>s. utc_date cal (created_at s));
          keep = fill keep ordered (keep_weekly p) (\<lambda>s. iso_week cal (created_at s));
          keep = fill keep ordered (keep_monthly p) (\<lambda>s. year_month cal (created_at s));
          keep = fill keep ordered (keep_yearly p) (\<lambda>s. utc_year cal (created_at s))
      in keep)"

definition select_delete :: "calendar \<Rightarrow> retention_policy \<Rightarrow> manifest list \<Rightarrow> string list" where
  "select_delete cal p ms =
     (let keep = select_keep cal p ms in map snap_id (filter (\<lambda>s. snap_id s \<notin> keep) ms))"

section \<open>The repository\<close>

record backup_repo =
  snapshots :: "manifest list"
  repo_chunks :: "(string, bytes) hash_map"

definition repo_new :: backup_repo where
  "repo_new = \<lparr>snapshots = [], repo_chunks = []\<rparr>"

definition store_chunk :: "chunk \<Rightarrow> backup_repo \<Rightarrow> bool \<times> backup_repo" where
  "store_chunk c r =
     (if hm_contains (repo_chunks r) (chunk_id c) then (False, r)
      else (True, r\<lparr>repo_chunks := hm_insert (chunk_id c) (chunk_bytes c) (repo_chunks r)\<rparr>))"

definition get_chunk :: "backup_repo \<Rightarrow> string \<Rightarrow> bytes option" where
  "get_chunk r i = hm_get (repo_chunks r) i"

definition manifest_of :: "string \<Rightarrow> int \<Rightarrow> string \<Rightarrow> string list \<Rightarrow> chunk list \<Rightarrow> string list \<Rightarrow> manifest" where
  "manifest_of uuid now host ps cs ts =
     \<lparr>snap_id = uuid, hostname = host, paths = ps, created_at = now,
      total_size = sum_list (map (\<lambda>c. of_nat (original_size c)) cs), chunk_ids = map chunk_id cs, tags = ts\<rparr>"

definition create_snapshot ::
    "string \<Rightarrow> int \<Rightarrow> string \<Rightarrow> string list \<Rightarrow> chunk list \<Rightarrow> string list \<Rightarrow> backup_repo \<Rightarrow> manifest \<times> backup_repo" where
  "create_snapshot uuid now host ps cs ts r =
     (let r = foldl (\<lambda>r c. snd (store_chunk c r)) r cs;
          snapshot = manifest_of uuid now host ps cs ts
      in (snapshot, r\<lparr>snapshots := snapshots r @ [snapshot]\<rparr>))"

record 'w writer =
  write_all :: "'w \<Rightarrow> bytes \<Rightarrow> (string + unit) \<times> 'w"
  flush :: "'w \<Rightarrow> (string + unit) \<times> 'w"

definition verified_chunk :: "hasher \<Rightarrow> backup_repo \<Rightarrow> string \<Rightarrow> backup_error + bytes" where
  "verified_chunk sha r i =
     (case hm_get (repo_chunks r) i of
        None \<Rightarrow> Inl (ChunkMissing i)
      | Some d \<Rightarrow> (let computed = content_hash sha d in if computed \<noteq> i then Inl (HashMismatch i computed) else Inr d))"

fun restore_to_loop :: "'w writer \<Rightarrow> hasher \<Rightarrow> backup_repo \<Rightarrow> string list \<Rightarrow> 'w \<Rightarrow> (backup_error + unit) \<times> 'w" where
  "restore_to_loop wr sha r [] w =
     (case flush wr w of (Inl e, w) \<Rightarrow> (Inl (StorageError (''flush: '' @ e)), w) | (Inr _, w) \<Rightarrow> (Inr (), w))"
| "restore_to_loop wr sha r (i # is) w =
     (case verified_chunk sha r i of
        Inl e \<Rightarrow> (Inl e, w)
      | Inr d \<Rightarrow>
          (case write_all wr w d of
             (Inl e, w) \<Rightarrow> (Inl (StorageError (''write: '' @ e)), w)
           | (Inr _, w) \<Rightarrow> restore_to_loop wr sha r is w))"

definition restore_to :: "'w writer \<Rightarrow> hasher \<Rightarrow> backup_repo \<Rightarrow> string \<Rightarrow> 'w \<Rightarrow> (backup_error + unit) \<times> 'w" where
  "restore_to wr sha r i w =
     (case find (\<lambda>s. snap_id s = i) (snapshots r) of
        None \<Rightarrow> (Inl (SnapshotNotFound i), w)
      | Some s \<Rightarrow> restore_to_loop wr sha r (chunk_ids s) w)"

fun restore_loop :: "hasher \<Rightarrow> backup_repo \<Rightarrow> string list \<Rightarrow> bytes \<Rightarrow> backup_error + bytes" where
  "restore_loop sha r [] acc = Inr acc"
| "restore_loop sha r (i # is) acc = rbind (verified_chunk sha r i) (\<lambda>d. restore_loop sha r is (acc @ d))"

definition restore :: "hasher \<Rightarrow> backup_repo \<Rightarrow> string \<Rightarrow> backup_error + bytes" where
  "restore sha r i =
     (case find (\<lambda>s. snap_id s = i) (snapshots r) of
        None \<Rightarrow> Inl (SnapshotNotFound i)
      | Some s \<Rightarrow> restore_loop sha r (chunk_ids s) [])"

definition list_snapshots :: "backup_repo \<Rightarrow> manifest list" where
  "list_snapshots r = snapshots r"

definition delete_snapshot :: "string \<Rightarrow> backup_repo \<Rightarrow> bool \<times> backup_repo" where
  "delete_snapshot i r =
     (let ss = filter (\<lambda>s. snap_id s \<noteq> i) (snapshots r) in (length ss < length (snapshots r), r\<lparr>snapshots := ss\<rparr>))"

definition chunk_count :: "backup_repo \<Rightarrow> nat" where
  "chunk_count r = length (repo_chunks r)"

definition storage_bytes :: "backup_repo \<Rightarrow> u64" where
  "storage_bytes r = sum_list (map (\<lambda>d. of_nat (length d)) (hm_values (repo_chunks r)))"

definition referenced :: "backup_repo \<Rightarrow> string set" where
  "referenced r = (\<Union>s \<in> set (snapshots r). set (chunk_ids s))"

definition gc :: "backup_repo \<Rightarrow> nat \<times> backup_repo" where
  "gc r =
     (let cs = hm_retain (\<lambda>i _. i \<in> referenced r) (repo_chunks r)
      in (length (repo_chunks r) - length cs, r\<lparr>repo_chunks := cs\<rparr>))"

definition apply_retention :: "calendar \<Rightarrow> retention_policy \<Rightarrow> backup_repo \<Rightarrow> (nat \<times> nat) \<times> backup_repo" where
  "apply_retention cal p r =
     (let to_delete = select_delete cal p (snapshots r);
          ss = filter (\<lambda>s. snap_id s \<notin> set to_delete) (snapshots r);
          removed = length (snapshots r) - length ss;
          (chunks_removed, r) = gc (r\<lparr>snapshots := ss\<rparr>)
      in ((removed, chunks_removed), r))"

section \<open>Backing up a directory\<close>

text \<open>
  A directory tree as the scan sees it, without following symbolic links, which are \<open>Special\<close>. A file has a
  modification time and its content, \<open>None\<close> if reading it fails; a directory that cannot be listed is \<open>Dir None\<close>. The
  file is opened again for chunking; \<open>file_bytes\<close> is what it holds then.
\<close>

datatype fs_tree = File int "bytes option" | Dir "(string \<times> fs_tree) list option" | Special

record scanned_file =
  file_path :: string
  file_size :: nat
  file_hash :: string
  file_modified :: int
  file_bytes :: bytes

definition path_join :: "string \<Rightarrow> string \<Rightarrow> string" where
  "path_join dir n = (if dir = [] \<or> ends_with ''/'' dir then dir @ n else dir @ ''/'' @ n)"

definition hash_file_streaming :: "hasher \<Rightarrow> string \<Rightarrow> bytes option \<Rightarrow> backup_error + string" where
  "hash_file_streaming sha path content =
     (case content of None \<Rightarrow> Inl (StorageError (''read '' @ path)) | Some b \<Rightarrow> Inr (content_hash sha b))"

definition read_again :: "bytes option \<Rightarrow> bytes" where
  "read_again content = (case content of Some b \<Rightarrow> b | None \<Rightarrow> [])"

fun scan_recursive :: "hasher \<Rightarrow> string \<Rightarrow> fs_tree \<Rightarrow> scanned_file list \<Rightarrow> backup_error + scanned_file list"
  and scan_entries :: "hasher \<Rightarrow> string \<Rightarrow> (string \<times> fs_tree) list \<Rightarrow> scanned_file list \<Rightarrow> backup_error + scanned_file list" where
  "scan_recursive sha dir (Dir (Some es)) files = scan_entries sha dir es files"
| "scan_recursive sha dir _ files = Inl (StorageError (''read_dir '' @ dir))"
| "scan_entries sha dir [] files = Inr files"
| "scan_entries sha dir ((n, t) # es) files =
     (let path = path_join dir n in
      case t of
        Dir _ \<Rightarrow> rbind (scan_recursive sha path t files) (\<lambda>files. scan_entries sha dir es files)
      | File mtime content \<Rightarrow>
          rbind (hash_file_streaming sha path content) (\<lambda>h.
          scan_entries sha dir es (files @
            [\<lparr>file_path = path, file_size = length (read_again content), file_hash = h, file_modified = mtime, file_bytes = read_again content\<rparr>]))
      | Special \<Rightarrow> scan_entries sha dir es files)"

definition scan_directory :: "hasher \<Rightarrow> string \<Rightarrow> fs_tree \<Rightarrow> backup_error + scanned_file list" where
  "scan_directory sha top_dir t = scan_recursive sha top_dir t []"

text \<open>The streaming chunker of fastcdc: its sizes and the stream; \<open>None\<close> when it refuses the sizes.\<close>

type_synonym stream_cdc = "nat \<Rightarrow> nat \<Rightarrow> nat \<Rightarrow> bytes \<Rightarrow> bytes list option"

definition chunk_file_streaming :: "hasher \<Rightarrow> stream_cdc \<Rightarrow> bytes \<Rightarrow> u32 \<Rightarrow> u32 \<Rightarrow> u32 \<Rightarrow> chunk list option" where
  "chunk_file_streaming sha cdc b min_size avg_size max_size =
     map_option (map (mk_chunk sha)) (cdc (unat min_size) (unat avg_size) (unat max_size) b)"

definition sat_mul :: "u32 \<Rightarrow> u32 \<Rightarrow> u32" where
  "sat_mul a b = (if unat a * unat b < 2 ^ 32 then a * b else - 1)"

definition cdc_sizes :: "nat \<Rightarrow> u32 \<times> u32 \<times> u32" where
  "cdc_sizes chunk_size = (let avg = of_nat (max chunk_size 1024) in (max (avg div 4) 256, avg, sat_mul avg 4))"

definition backup_directory ::
    "hasher \<Rightarrow> stream_cdc \<Rightarrow> string \<Rightarrow> int \<Rightarrow> string \<Rightarrow> fs_tree \<Rightarrow> string \<Rightarrow> nat \<Rightarrow> string list \<Rightarrow> backup_repo \<Rightarrow>
     ((backup_error + manifest) \<times> backup_repo) option" where
  "backup_directory sha cdc uuid now top_dir t host chunk_size ts repo =
     (case scan_directory sha top_dir t of
        Inl e \<Rightarrow> Some (Inl e, repo)
      | Inr files \<Rightarrow>
          (let (mn, avg, mx) = cdc_sizes chunk_size in
           map_option (\<lambda>css.
               let (snapshot, repo) = create_snapshot uuid now host (map file_path files) (concat css) ts repo
               in (Inr snapshot, repo))
             (those (map (\<lambda>f. chunk_file_streaming sha cdc (file_bytes f) mn avg mx) files))))"

section \<open>Chunkers lose nothing\<close>

lemma concat_pieces: "0 < n \<Longrightarrow> concat (pieces n xs) = xs"
  by (induction n xs rule: pieces.induct) (subst pieces.simps, simp)

lemma pieces_size: "p \<in> set (pieces n xs) \<Longrightarrow> p \<noteq> [] \<and> length p \<le> n"
proof (induction n xs rule: pieces.induct)
  case (1 n xs)
  then show ?case
    using pieces.simps [of n xs] by (auto split: if_splits)
qed

section \<open>The repository holds the history\<close>

text \<open>
  The calls on a repository; \<open>CreateOp\<close> has the pieces that a chunker cut, in their order. The specification
  knows no chunks: it is the list of snapshots taken and not yet deleted, each with its bytes.
\<close>

datatype repo_op =
  CreateOp string int string "string list" "bytes list" "string list" | DeleteOp string | GcOp | RetainOp retention_policy

definition repo_step :: "hasher \<Rightarrow> calendar \<Rightarrow> backup_repo \<Rightarrow> repo_op \<Rightarrow> backup_repo" where
  "repo_step sha cal r op =
     (case op of
        CreateOp u now h ps ds ts \<Rightarrow> snd (create_snapshot u now h ps (map (mk_chunk sha) ds) ts r)
      | DeleteOp i \<Rightarrow> snd (delete_snapshot i r)
      | GcOp \<Rightarrow> snd (gc r)
      | RetainOp p \<Rightarrow> snd (apply_retention cal p r))"

type_synonym history = "(manifest \<times> bytes) list"

definition history_step :: "hasher \<Rightarrow> calendar \<Rightarrow> history \<Rightarrow> repo_op \<Rightarrow> history" where
  "history_step sha cal h op =
     (case op of
        CreateOp u now n ps ds ts \<Rightarrow> h @ [(manifest_of u now n ps (map (mk_chunk sha) ds) ts, concat ds)]
      | DeleteOp i \<Rightarrow> filter (\<lambda>(m, _). snap_id m \<noteq> i) h
      | GcOp \<Rightarrow> h
      | RetainOp p \<Rightarrow> filter (\<lambda>(m, _). snap_id m \<in> select_keep cal p (map fst h)) h)"

definition op_pieces :: "repo_op \<Rightarrow> bytes set" where
  "op_pieces op = (case op of CreateOp u now n ps ds ts \<Rightarrow> set ds | _ \<Rightarrow> {})"

definition stored :: "hasher \<Rightarrow> bytes set \<Rightarrow> backup_repo \<Rightarrow> manifest \<Rightarrow> bytes \<Rightarrow> bool" where
  "stored sha D r m b \<longleftrightarrow>
     (\<exists>ds. set ds \<subseteq> D \<and> chunk_ids m = map (content_hash sha) ds \<and> b = concat ds \<and>
        (\<forall>d \<in> set ds. hm_get (repo_chunks r) (content_hash sha d) = Some d))"

definition addressed :: "hasher \<Rightarrow> bytes set \<Rightarrow> backup_repo \<Rightarrow> bool" where
  "addressed sha D r \<longleftrightarrow>
     hm_wf (repo_chunks r) \<and> (\<forall>k b. hm_get (repo_chunks r) k = Some b \<longrightarrow> b \<in> D \<and> k = content_hash sha b)"

definition holds :: "hasher \<Rightarrow> bytes set \<Rightarrow> backup_repo \<Rightarrow> history \<Rightarrow> bool" where
  "holds sha D r h \<longleftrightarrow>
     inj_on (content_hash sha) D \<and> addressed sha D r \<and> snapshots r = map fst h \<and> (\<forall>(m, b) \<in> set h. stored sha D r m b)"

lemma stored_mono:
  assumes "stored sha D r m b" "\<And>k d. k \<in> set (chunk_ids m) \<Longrightarrow> hm_get (repo_chunks r) k = Some d \<Longrightarrow> hm_get (repo_chunks r') k = Some d"
  shows "stored sha D r' m b"
proof -
  obtain ds where ds: "set ds \<subseteq> D" "chunk_ids m = map (content_hash sha) ds" "b = concat ds"
      "\<forall>d \<in> set ds. hm_get (repo_chunks r) (content_hash sha d) = Some d"
    using assms(1) unfolding stored_def by blast
  then have "\<forall>d \<in> set ds. hm_get (repo_chunks r') (content_hash sha d) = Some d" using assms(2) by simp
  then show ?thesis unfolding stored_def using ds(1-3) by blast
qed

lemma restore_loop_stored:
  "\<forall>d \<in> set ds. hm_get (repo_chunks r) (content_hash sha d) = Some d \<Longrightarrow>
   restore_loop sha r (map (content_hash sha) ds) acc = Inr (acc @ concat ds)"
  by (induction ds arbitrary: acc) (auto simp: verified_chunk_def)

lemma store_chunks:
  assumes "inj_on (content_hash sha) D" "addressed sha D r" "set ds \<subseteq> D"
  shows "let r' = foldl (\<lambda>r c. snd (store_chunk c r)) r (map (mk_chunk sha) ds) in
    snapshots r' = snapshots r \<and> addressed sha D r' \<and> (\<forall>d \<in> set ds. hm_get (repo_chunks r') (content_hash sha d) = Some d) \<and>
    (\<forall>k b. hm_get (repo_chunks r) k = Some b \<longrightarrow> hm_get (repo_chunks r') k = Some b)"
  using assms(2,3)
proof (induction ds arbitrary: r)
  case (Cons d ds)
  let ?h = "content_hash sha d" and ?r = "snd (store_chunk (mk_chunk sha d) r)"
  have r: "snapshots ?r = snapshots r \<and> addressed sha D ?r \<and> hm_get (repo_chunks ?r) ?h = Some d \<and>
    (\<forall>k b. hm_get (repo_chunks r) k = Some b \<longrightarrow> hm_get (repo_chunks ?r) k = Some b)"
  proof (cases "hm_get (repo_chunks r) ?h")
    case None
    then have "?r = r\<lparr>repo_chunks := hm_insert ?h d (repo_chunks r)\<rparr>"
      by (simp add: store_chunk_def mk_chunk_def hm_contains_def)
    then show ?thesis using Cons.prems None by (simp add: addressed_def hm_simps hm.wf_insert)
  next
    case (Some b)
    then have b: "b = d" using Cons.prems assms(1) by (simp add: addressed_def inj_on_def)
    have "?r = r" using Some by (simp add: store_chunk_def mk_chunk_def hm_contains_def)
    then show ?thesis using Cons.prems(1) Some b by simp
  qed
  show ?case
    using Cons.IH [of ?r] Cons.prems(2) r by (simp add: Let_def)
qed simp

lemma create_holds:
  assumes h: "holds sha D r h" and ds: "set ds \<subseteq> D"
  shows "holds sha D (snd (create_snapshot u now n ps (map (mk_chunk sha) ds) ts r))
    (h @ [(manifest_of u now n ps (map (mk_chunk sha) ds) ts, concat ds)])"
proof -
  define r' where "r' = foldl (\<lambda>r c. snd (store_chunk c r)) r (map (mk_chunk sha) ds)"
  have r': "snapshots r' = snapshots r" "addressed sha D r'" "\<forall>d \<in> set ds. hm_get (repo_chunks r') (content_hash sha d) = Some d"
    "\<And>k b. hm_get (repo_chunks r) k = Some b \<Longrightarrow> hm_get (repo_chunks r') k = Some b"
    using store_chunks [of sha D r ds] h ds by (auto simp: holds_def r'_def Let_def)
  let ?m = "manifest_of u now n ps (map (mk_chunk sha) ds) ts"
  let ?r = "r'\<lparr>snapshots := snapshots r' @ [?m]\<rparr>"
  have new: "stored sha D ?r ?m (concat ds)"
    unfolding stored_def by (rule exI [of _ ds]) (use ds r'(3) in \<open>simp add: manifest_of_def mk_chunk_def\<close>)
  have old: "stored sha D ?r m b" if "(m, b) \<in> set h" for m b
  proof (rule stored_mono)
    show "stored sha D r m b" using h that by (auto simp: holds_def)
  qed (use r'(4) in simp)
  show ?thesis
    using h new old r'(1,2) by (auto simp: holds_def create_snapshot_def Let_def r'_def [symmetric] addressed_def)
qed

lemma filter_holds:
  assumes "holds sha D r h"
  shows "holds sha D (r\<lparr>snapshots := map fst (filter P h)\<rparr>) (filter P h)"
  using assms by (auto simp: holds_def addressed_def stored_def)

lemma map_fst_filter: "filter Q (map fst h) = map fst (filter (\<lambda>(m, _). Q m) h)"
  by (induction h) auto

lemma gc_holds:
  assumes h: "holds sha D r h"
  shows "holds sha D (snd (gc r)) h"
proof -
  have keep: "stored sha D (snd (gc r)) m b" if "(m, b) \<in> set h" for m b
  proof (rule stored_mono)
    show "stored sha D r m b" using h that by (auto simp: holds_def)
    fix k d assume "k \<in> set (chunk_ids m)" "hm_get (repo_chunks r) k = Some d"
    then show "hm_get (repo_chunks (snd (gc r))) k = Some d"
      using h that by (force simp: gc_def Let_def holds_def addressed_def hm_get_retain referenced_def)
  qed
  then show ?thesis
    using h by (auto simp: holds_def addressed_def gc_def Let_def hm_wf_retain hm_get_retain split: option.splits if_splits)
qed

lemma kept_iff: "s \<in> set ms \<Longrightarrow> snap_id s \<notin> set (select_delete cal p ms) \<longleftrightarrow> snap_id s \<in> select_keep cal p ms"
  by (auto simp: select_delete_def Let_def)

lemma retain_snapshots:
  "filter (\<lambda>s. snap_id s \<notin> set (select_delete cal p ms)) ms = filter (\<lambda>s. snap_id s \<in> select_keep cal p ms) ms"
  by (rule filter_cong) (simp_all add: kept_iff)

lemma repo_step_holds:
  assumes h: "holds sha D r h" and op: "op_pieces op \<subseteq> D"
  shows "holds sha D (repo_step sha cal r op) (history_step sha cal h op)"
proof (cases op)
  case (CreateOp u now n ps ds ts)
  then show ?thesis using create_holds [OF h] op by (simp add: repo_step_def history_step_def op_pieces_def)
next
  case (DeleteOp i)
  have "snapshots r = map fst h" using h by (simp add: holds_def)
  then show ?thesis
    using DeleteOp filter_holds [OF h] by (simp add: repo_step_def history_step_def delete_snapshot_def Let_def map_fst_filter)
next
  case GcOp
  then show ?thesis using gc_holds [OF h] by (simp add: repo_step_def history_step_def)
next
  case (RetainOp p)
  have s: "snapshots r = map fst h" using h by (simp add: holds_def)
  have "snd (apply_retention cal p r) = snd (gc (r\<lparr>snapshots := filter (\<lambda>s. snap_id s \<in> select_keep cal p (snapshots r)) (snapshots r)\<rparr>))"
    by (simp add: apply_retention_def Let_def retain_snapshots split: prod.splits)
  then show ?thesis
    using RetainOp gc_holds [OF filter_holds [OF h]] by (simp add: repo_step_def history_step_def s map_fst_filter)
qed

interpretation backup_sim: simulation "repo_step sha cal" "history_step sha cal" "holds sha D" "\<lambda>op. op_pieces op \<subseteq> D"
  for sha cal D
  by unfold_locales (rule repo_step_holds)

lemma find_fst: "find P (map fst h) = map_option fst (find (\<lambda>(m, _). P m) h)"
  by (induction h) auto

lemma holds_restore:
  assumes h: "holds sha D r h"
  shows "restore sha r i = (case find (\<lambda>(m, _). snap_id m = i) h of Some (_, b) \<Rightarrow> Inr b | None \<Rightarrow> Inl (SnapshotNotFound i))"
proof (cases "find (\<lambda>(m, _). snap_id m = i) h")
  case None
  then show ?thesis using h by (simp add: restore_def holds_def find_fst)
next
  case (Some mb)
  obtain m b where mb: "mb = (m, b)" by (cases mb)
  then have "(m, b) \<in> set h" using find_SomeD [OF Some] by simp
  then obtain ds where "chunk_ids m = map (content_hash sha) ds" "b = concat ds"
      "\<forall>d \<in> set ds. hm_get (repo_chunks r) (content_hash sha d) = Some d"
    using h by (auto simp: holds_def stored_def)
  then show ?thesis using Some mb h restore_loop_stored [of ds r sha "[]"] by (simp add: restore_def holds_def find_fst)
qed

text \<open>
  C6. Whatever is backed up, deleted, collected and pruned, and however the pieces of the snapshots overlap,
  a restore returns exactly the bytes of the snapshot with that id, as long as neither a delete nor a retention policy has
  removed it, and reports a missing snapshot otherwise. Deduplication and garbage collection are not observable,
  provided that the digest has no collision among the pieces.
\<close>

theorem restore_returns_history:
  assumes "inj_on (content_hash sha) (\<Union>op \<in> set ops. op_pieces op)"
  shows "restore sha (foldl (repo_step sha cal) repo_new ops) i =
    (case find (\<lambda>(m, _). snap_id m = i) (foldl (history_step sha cal) [] ops) of
       Some (_, b) \<Rightarrow> Inr b
     | None \<Rightarrow> Inl (SnapshotNotFound i))"
proof -
  let ?D = "\<Union>op \<in> set ops. op_pieces op"
  have "holds sha ?D repo_new []" using assms by (simp add: holds_def addressed_def repo_new_def)
  then have "holds sha ?D (foldl (repo_step sha cal) repo_new ops) (foldl (history_step sha cal) [] ops)"
    by (rule backup_sim.run_rel) auto
  then show ?thesis by (rule holds_restore)
qed

definition ex_calendar :: calendar where
  "ex_calendar = \<lparr>utc_date = (\<lambda>t. t div 10), iso_week = (\<lambda>t. (0, nat (t div 70))), year_month = (\<lambda>t. (0, nat (t div 300))),
     utc_year = (\<lambda>t. t div 3650)\<rparr>"

theorem restore_returns_history_witness:
  "let ops = [CreateOp ''s'' 3 ''h'' [''/a''] [[1], [2], [1]] [], CreateOp ''t'' 5 ''h'' [''/b''] [[2]] [], DeleteOp ''s'', GcOp] in
   inj_on (content_hash (\<lambda>b. b)) (\<Union>op \<in> set ops. op_pieces op) \<and>
   restore (\<lambda>b. b) (foldl (repo_step (\<lambda>b. b) ex_calendar) repo_new ops) ''t'' = Inr [2] \<and>
   restore (\<lambda>b. b) (foldl (repo_step (\<lambda>b. b) ex_calendar) repo_new ops) ''s'' = Inl (SnapshotNotFound ''s'')"
proof -
  let ?ops = "[CreateOp ''s'' 3 ''h'' [''/a''] [[1], [2], [1]] [], CreateOp ''t'' 5 ''h'' [''/b''] [[2]] [], DeleteOp ''s'', GcOp]"
  have "content_hash (\<lambda>b. b) [1] \<noteq> content_hash (\<lambda>b. b) [2]" by code_simp
  then have i: "inj_on (content_hash (\<lambda>b. b)) (\<Union>op \<in> set ?ops. op_pieces op)"
    by (simp add: op_pieces_def insert_commute)
  show ?thesis
    using i restore_returns_history [OF i, of ex_calendar "''t''"] restore_returns_history [OF i, of ex_calendar "''s''"]
    by (simp add: Let_def history_step_def manifest_of_def)
qed

lemma gc_keys:
  assumes "hm_wf (repo_chunks r)"
  shows "hm_get (repo_chunks (snd (gc r))) k = (if k \<in> referenced r then hm_get (repo_chunks r) k else None)"
proof -
  have "hm_get (repo_chunks (snd (gc r))) k = Some v \<longleftrightarrow> hm_get (repo_chunks r) k = Some v \<and> k \<in> referenced r" for v
    by (simp add: gc_def Let_def hm_get_retain [OF assms])
  then show ?thesis by (metis not_None_eq)
qed

lemma restore_to_agrees:
  assumes "\<And>w d. write_all wr w d = (Inr (), put w d)" "\<And>w. flush wr w = (Inr (), w)"
  shows "restore sha r i = Inr b \<Longrightarrow> \<exists>ds. concat ds = b \<and> restore_to wr sha r i w = (Inr (), foldl put w ds)"
    and "restore sha r i = Inl e \<Longrightarrow> fst (restore_to wr sha r i w) = Inl e"
proof -
  have "restore_loop sha r is acc = Inr b \<Longrightarrow> \<exists>ds. acc @ concat ds = b \<and> restore_to_loop wr sha r is w = (Inr (), foldl put w ds)"
    for "is" acc b w
  proof (induction "is" arbitrary: acc w)
    case Nil
    then show ?case by (auto simp: assms(2) intro: exI [of _ "[]"])
  next
    case (Cons i "is")
    then obtain d where d: "verified_chunk sha r i = Inr d" "restore_loop sha r is (acc @ d) = Inr b"
      by (auto simp: rbind_eq_Inr)
    from Cons.IH [OF d(2), of "put w d"] obtain ds where
      "(acc @ d) @ concat ds = b" "restore_to_loop wr sha r is (put w d) = (Inr (), foldl put (put w d) ds)" by blast
    then show ?case using d(1) by (intro exI [of _ "d # ds"]) (simp add: assms(1))
  qed
  from this [of _ "[]"] show "restore sha r i = Inr b \<Longrightarrow> \<exists>ds. concat ds = b \<and> restore_to wr sha r i w = (Inr (), foldl put w ds)"
    by (cases "find (\<lambda>s. snap_id s = i) (snapshots r)") (simp_all add: restore_def restore_to_def)
  have "restore_loop sha r is acc = Inl e \<Longrightarrow> fst (restore_to_loop wr sha r is w) = Inl e" for "is" acc w
    by (induction "is" arbitrary: acc w) (auto simp: rbind_eq_Inl assms(1))
  then show "restore sha r i = Inl e \<Longrightarrow> fst (restore_to wr sha r i w) = Inl e"
    by (auto simp: restore_def restore_to_def split: option.splits)
qed

section \<open>What a retention policy keeps\<close>

text \<open>The snapshots that are newer, and the rule for one kind of period: no newer snapshot of that period, and few enough newer periods.\<close>

definition newer :: "manifest list \<Rightarrow> manifest \<Rightarrow> manifest set" where
  "newer ms s = {t \<in> set ms. created_at t > created_at s}"

definition newest_in_recent :: "nat \<Rightarrow> (manifest \<Rightarrow> 'k) \<Rightarrow> manifest list \<Rightarrow> manifest \<Rightarrow> bool" where
  "newest_in_recent limit key ms s \<longleftrightarrow> key s \<notin> key ` newer ms s \<and> card (key ` newer ms s) < limit"

definition picks :: "nat \<Rightarrow> (manifest \<Rightarrow> 'k) \<Rightarrow> 'k set \<Rightarrow> manifest list \<Rightarrow> string set" where
  "picks limit key seen ss =
     {snap_id s |s xs ys. ss = xs @ s # ys \<and> key s \<notin> seen \<union> key ` set xs \<and> card (seen \<union> key ` set xs) < limit}"

lemma picks_Cons:
  "picks limit key seen (s # ss) =
   (if key s \<notin> seen \<and> card seen < limit then {snap_id s} else {}) \<union> picks limit key (insert (key s) seen) ss"
proof (intro set_eqI iffI)
  fix i assume "i \<in> picks limit key seen (s # ss)"
  then obtain t xs ys where t: "i = snap_id t" "s # ss = xs @ t # ys" "key t \<notin> seen \<union> key ` set xs" "card (seen \<union> key ` set xs) < limit"
    by (auto simp: picks_def)
  show "i \<in> (if key s \<notin> seen \<and> card seen < limit then {snap_id s} else {}) \<union> picks limit key (insert (key s) seen) ss"
  proof (cases xs)
    case Nil
    then show ?thesis using t by simp
  next
    case (Cons x xs')
    then have "ss = xs' @ t # ys" "key t \<notin> insert (key s) seen \<union> key ` set xs'" "card (insert (key s) seen \<union> key ` set xs') < limit"
      using t by auto
    then show ?thesis using t(1) by (auto simp: picks_def)
  qed
next
  fix i assume i: "i \<in> (if key s \<notin> seen \<and> card seen < limit then {snap_id s} else {}) \<union> picks limit key (insert (key s) seen) ss"
  show "i \<in> picks limit key seen (s # ss)"
  proof (cases "i \<in> picks limit key (insert (key s) seen) ss")
    case True
    then obtain t xs ys where t: "i = snap_id t" "ss = xs @ t # ys" "key t \<notin> insert (key s) seen \<union> key ` set xs"
        "card (insert (key s) seen \<union> key ` set xs) < limit"
      by (auto simp: picks_def)
    then have "s # ss = (s # xs) @ t # ys \<and> key t \<notin> seen \<union> key ` set (s # xs) \<and> card (seen \<union> key ` set (s # xs)) < limit" by auto
    then show ?thesis unfolding picks_def using t(1) by blast
  next
    case False
    then have "i = snap_id s" "key s \<notin> seen" "card seen < limit" using i by (auto split: if_splits)
    then have "s # ss = [] @ s # ss \<and> key s \<notin> seen \<union> key ` set [] \<and> card (seen \<union> key ` set []) < limit" by simp
    then show ?thesis unfolding picks_def using \<open>i = snap_id s\<close> by blast
  qed
qed

lemma picks_full:
  assumes "finite seen" "limit \<le> card seen"
  shows "picks limit key seen ss = {}"
proof -
  have "card seen \<le> card (seen \<union> key ` set xs)" for xs using assms(1) by (intro card_mono) auto
  then have "\<not> card (seen \<union> key ` set xs) < limit" for xs using assms(2) by (meson le_trans not_less)
  then show ?thesis unfolding picks_def by simp
qed

lemma fill_loop_picks: "distinct seen \<Longrightarrow> fill_loop limit key seen ss dst = dst \<union> picks limit key (set seen) ss"
proof (induction ss arbitrary: seen dst)
  case Nil
  then show ?case by (simp add: picks_def)
next
  case (Cons s ss)
  have c: "card (set seen) = length seen" using Cons.prems by (rule distinct_card)
  show ?case
  proof (cases "limit \<le> length seen")
    case True
    then show ?thesis using picks_full [of "set seen" limit key "s # ss"] c by simp
  next
    case False
    then show ?thesis
      using Cons.IH [of seen dst] Cons.IH [of "key s # seen" "insert (snap_id s) dst"] Cons.prems c
      by (auto simp: picks_Cons insert_absorb)
  qed
qed

lemma split_newer:
  assumes "newest_first ms = xs @ s # ys" "distinct (map created_at ms)"
  shows "set xs = newer ms s" "distinct xs"
proof -
  let ?o = "newest_first ms"
  have so: "sorted (map (\<lambda>m. - created_at m) ?o)" and se: "set ?o = set ms" by (simp_all add: newest_first_def)
  have "distinct (map created_at ?o)"
    using assms(2) by (simp add: newest_first_def distinct_map)
  then have "distinct (map created_at xs)" "created_at s \<notin> created_at ` set xs" by (auto simp: assms(1))
  then have d: "distinct xs" "\<forall>x \<in> set xs. created_at x \<noteq> created_at s" by (auto simp: distinct_map) (metis imageI)
  have "\<forall>x \<in> set xs. created_at s \<le> created_at x" "\<forall>y \<in> set ys. created_at y \<le> created_at s"
    using so by (auto simp: assms(1) sorted_append)
  then show "set xs = newer ms s" using d(2) se by (force simp: assms(1) newer_def)
  show "distinct xs" by (rule d(1))
qed

lemma picks_newer:
  assumes "distinct (map created_at ms)"
  shows "picks limit key {} (newest_first ms) = {snap_id s |s. s \<in> set ms \<and> newest_in_recent limit key ms s}"
proof (intro set_eqI iffI)
  fix i assume "i \<in> picks limit key {} (newest_first ms)"
  then obtain s xs ys where s: "i = snap_id s" "newest_first ms = xs @ s # ys" "key s \<notin> key ` set xs" "card (key ` set xs) < limit"
    by (auto simp: picks_def)
  have "set (newest_first ms) = set ms" by (simp add: newest_first_def)
  then have "s \<in> set ms" using s(2) by auto
  then show "i \<in> {snap_id s |s. s \<in> set ms \<and> newest_in_recent limit key ms s}"
    using s split_newer(1) [OF s(2) assms] by (auto simp: newest_in_recent_def)
next
  fix i assume "i \<in> {snap_id s |s. s \<in> set ms \<and> newest_in_recent limit key ms s}"
  then obtain s where s: "i = snap_id s" "s \<in> set ms" "newest_in_recent limit key ms s" by auto
  then obtain xs ys where o: "newest_first ms = xs @ s # ys" by (metis newest_first_def set_sort split_list)
  then have "key s \<notin> {} \<union> key ` set xs \<and> card ({} \<union> key ` set xs) < limit"
    using s(3) split_newer(1) [OF o assms] by (simp add: newest_in_recent_def)
  then show "i \<in> picks limit key {} (newest_first ms)"
    unfolding picks_def using o s(1) by blast
qed

lemma fill_newer:
  assumes "distinct (map created_at ms)" "distinct (map snap_id ms)" "s \<in> set ms"
  shows "snap_id s \<in> fill dst (newest_first ms) limit key \<longleftrightarrow> snap_id s \<in> dst \<or> newest_in_recent (unat limit) key ms s"
proof -
  have "t = s" if "t \<in> set ms" "snap_id t = snap_id s" for t
    using assms(2,3) that by (auto simp: distinct_map dest: inj_onD)
  then have "snap_id s \<in> picks (unat limit) key {} (newest_first ms) \<longleftrightarrow> newest_in_recent (unat limit) key ms s"
    using assms(3) by (auto simp: picks_newer [OF assms(1)])
  then show ?thesis
    by (cases "limit = 0") (auto simp: fill_def fill_loop_picks newest_in_recent_def)
qed

lemma take_newer:
  assumes "distinct (map created_at ms)" "distinct (map snap_id ms)" "s \<in> set ms"
  shows "snap_id s \<in> snap_id ` set (take n (newest_first ms)) \<longleftrightarrow> card (newer ms s) < n"
proof -
  have se: "set (newest_first ms) = set ms" "distinct (newest_first ms)"
    using assms(1) by (auto simp: newest_first_def distinct_map)
  then obtain xs ys where o: "newest_first ms = xs @ s # ys" using assms(3) by (metis split_list)
  have "card (newer ms s) = length xs" using split_newer [OF o assms(1)] by (metis distinct_card)
  moreover have "s \<in> set (take n (newest_first ms)) \<longleftrightarrow> length xs < n"
    using se(2) o by (auto simp: take_Cons' dest: in_set_takeD)
  moreover have "snap_id s \<in> snap_id ` set (take n (newest_first ms)) \<longleftrightarrow> s \<in> set (take n (newest_first ms))"
    using assms(2,3) se(1) by (intro inj_on_image_mem_iff) (auto simp: distinct_map dest: in_set_takeD)
  ultimately show ?thesis by simp
qed

text \<open>
  C28. A retention policy keeps exactly what it says, in whatever order the snapshots are listed: a snapshot
  stays if fewer than \<open>keep_last\<close> are newer, or if it is the newest of its day and fewer than \<open>keep_daily\<close> days with a snapshot are newer,
  and likewise for weeks, months and years.
\<close>

theorem retention_keeps_exactly:
  assumes "distinct (map created_at ms)" "distinct (map snap_id ms)" "s \<in> set ms"
  shows "snap_id s \<notin> set (select_delete cal p ms) \<longleftrightarrow>
    card (newer ms s) < unat (keep_last p) \<or>
    newest_in_recent (unat (keep_daily p)) (\<lambda>s. utc_date cal (created_at s)) ms s \<or>
    newest_in_recent (unat (keep_weekly p)) (\<lambda>s. iso_week cal (created_at s)) ms s \<or>
    newest_in_recent (unat (keep_monthly p)) (\<lambda>s. year_month cal (created_at s)) ms s \<or>
    newest_in_recent (unat (keep_yearly p)) (\<lambda>s. utc_year cal (created_at s)) ms s"
  unfolding kept_iff [OF assms(3)] select_keep_def Let_def fill_newer [OF assms] take_newer [OF assms] by blast

definition ex_snap :: "string \<Rightarrow> int \<Rightarrow> manifest" where
  "ex_snap i t = manifest_of i t ''h'' [] [] []"

theorem retention_keeps_exactly_witness:
  "let ms = [ex_snap ''a'' 3, ex_snap ''b'' 5, ex_snap ''c'' 15];
       p = \<lparr>keep_daily = 2, keep_weekly = 0, keep_monthly = 0, keep_yearly = 0, keep_last = 1\<rparr>
   in distinct (map created_at ms) \<and> distinct (map snap_id ms) \<and>
      \<not> newest_in_recent 2 (\<lambda>s. utc_date ex_calendar (created_at s)) ms (ex_snap ''a'' 3) \<and>
      set (select_delete ex_calendar p ms) = {''a''}"
proof -
  let ?ms = "[ex_snap ''a'' 3, ex_snap ''b'' 5, ex_snap ''c'' 15]"
  let ?p = "\<lparr>keep_daily = 2, keep_weekly = 0, keep_monthly = 0, keep_yearly = 0, keep_last = 1\<rparr>"
  have d: "distinct (map created_at ?ms)" "distinct (map snap_id ?ms)" by (simp_all add: ex_snap_def manifest_of_def)
  have k: "select_delete ex_calendar ?p ?ms = [''a'']" by code_simp
  have "\<not> newest_in_recent 2 (\<lambda>s. utc_date ex_calendar (created_at s)) ?ms (ex_snap ''a'' 3)"
    using retention_keeps_exactly [OF d, of "ex_snap ''a'' 3" ex_calendar ?p]
    by (simp add: k) (simp add: ex_snap_def manifest_of_def)
  then show ?thesis using d k by (simp add: Let_def)
qed

section \<open>A directory is backed up completely\<close>

text \<open>The regular files of a tree in the order of the listing, with their paths.\<close>

fun tree_files :: "string \<Rightarrow> fs_tree \<Rightarrow> (string \<times> bytes) list"
  and entry_files :: "string \<Rightarrow> (string \<times> fs_tree) list \<Rightarrow> (string \<times> bytes) list" where
  "tree_files dir (Dir (Some es)) = entry_files dir es"
| "tree_files dir _ = []"
| "entry_files dir [] = []"
| "entry_files dir ((n, t) # es) =
     (case t of
        Dir _ \<Rightarrow> tree_files (path_join dir n) t
      | File _ (Some b) \<Rightarrow> [(path_join dir n, b)]
      | _ \<Rightarrow> []) @ entry_files dir es"

lemma scan_lists_files:
  "scan_recursive sha dir t files = Inr fs \<Longrightarrow>
     map (\<lambda>f. (file_path f, file_bytes f)) fs = map (\<lambda>f. (file_path f, file_bytes f)) files @ tree_files dir t"
  "scan_entries sha dir es files = Inr fs \<Longrightarrow>
     map (\<lambda>f. (file_path f, file_bytes f)) fs = map (\<lambda>f. (file_path f, file_bytes f)) files @ entry_files dir es"
  by (induction sha dir t files and sha dir es files arbitrary: fs and fs rule: scan_recursive_scan_entries.induct)
    (auto simp: Let_def rbind_eq_Inr hash_file_streaming_def read_again_def split: fs_tree.splits option.splits)

lemma those_concat:
  assumes "those (map g xs) = Some css" "\<And>x cs. x \<in> set xs \<Longrightarrow> g x = Some cs \<Longrightarrow> concat (map h cs) = b x"
  shows "concat (map h (concat css)) = concat (map b xs)"
  using assms by (induction xs arbitrary: css) (auto split: option.splits)

lemma those_map_map:
  "those (map (\<lambda>x. map_option (map f) (g x)) xs) = map_option (map (map f)) (those (map g xs))"
  by (induction xs) (auto simp: option.map_comp comp_def split: option.splits)

lemma those_set: "those (map g xs) = Some css \<Longrightarrow> cs \<in> set css \<Longrightarrow> \<exists>x \<in> set xs. g x = Some cs"
  by (induction xs arbitrary: css) (auto split: option.splits)

lemma find_append: "find P (xs @ ys) = (case find P xs of Some x \<Rightarrow> Some x | None \<Rightarrow> find P ys)"
  by (induction xs) auto


definition ex_cdc :: stream_cdc where
  "ex_cdc mn av mx x = (if x = [] then Some [] else if x = [1] then Some [[1]] else if x = [2, 3] then Some [[2], [3]] else None)"

definition ex_dir :: fs_tree where
  "ex_dir = Dir (Some [(''a'', File 0 (Some [1])), (''l'', Special), (''s'', Dir (Some [(''b'', File 0 (Some [2, 3]))]))])"


text \<open>
  A manifest does not record where a file ends: if an empty file has no pieces, a directory in which the first of two files
  is empty and one in which the second is empty, with the same bytes in the other, give the same manifest.
\<close>

theorem manifest_loses_boundaries:
  assumes "\<And>a b c. cdc a b c [] = Some []"
  shows "map_option fst (backup_directory sha cdc uuid now top_dir (Dir (Some [(x, File t (Some b)), (y, File t (Some []))])) host n ts r) =
    map_option fst (backup_directory sha cdc uuid now top_dir (Dir (Some [(x, File t (Some [])), (y, File t (Some b))])) host n ts r)"
  by (simp add: backup_directory_def scan_directory_def Let_def hash_file_streaming_def read_again_def
      chunk_file_streaming_def assms case_prod_unfold option.map_comp comp_def split: option.splits)

text \<open>The chunk size is cut to 32 bits after the lower bound was applied: for \<open>2 ^ 32\<close> the chunker gets the average and the maximum 0.\<close>

theorem chunk_size_truncated: "cdc_sizes (2 ^ 32) = (256, 0, 0)"
  by (simp add: cdc_sizes_def sat_mul_def)

end
