(* ===== verification/Backup_Store.thy ===== *)
theory Backup_Store
  imports Backup Vfs_Disk
begin

text \<open>
  The storage back ends of the backup engine (\<open>crates/runesh-backup/src/store.rs\<close>): the trait \<open>BackupStore\<close> as a record
  of operations, its two implementations, and the garbage collection and retention that work with every
  store.

  The file store works on the \<open>disk\<close> below its root directory. Compression (zstd) and JSON (serde_json) are parameters. Names of
  manifests and hashes are taken to be single file names, which the code does not check. The text of an error of the operating system is left out.
\<close>

section \<open>The trait\<close>

record 's backup_store =
  put_chunk :: "'s \<Rightarrow> string \<Rightarrow> bytes \<Rightarrow> (backup_error + unit) \<times> 's"
  read_chunk :: "'s \<Rightarrow> string \<Rightarrow> backup_error + bytes"
  has_chunk :: "'s \<Rightarrow> string \<Rightarrow> backup_error + bool"
  write_manifest :: "'s \<Rightarrow> string \<Rightarrow> manifest \<Rightarrow> (backup_error + unit) \<times> 's"
  read_manifest :: "'s \<Rightarrow> string \<Rightarrow> backup_error + manifest"
  list_manifests :: "'s \<Rightarrow> backup_error + string list"
  delete_manifest :: "'s \<Rightarrow> string \<Rightarrow> (backup_error + unit) \<times> 's"
  delete_chunk :: "'s \<Rightarrow> string \<Rightarrow> (backup_error + unit) \<times> 's"
  list_chunks :: "'s \<Rightarrow> backup_error + string list"

fun gc_mark :: "'s backup_store \<Rightarrow> 's \<Rightarrow> string list \<Rightarrow> string set \<Rightarrow> backup_error + string set" where
  "gc_mark st s [] refs = Inr refs"
| "gc_mark st s (n # ns) refs = rbind (read_manifest st s n) (\<lambda>m. gc_mark st s ns (refs \<union> set (chunk_ids m)))"

fun gc_sweep :: "'s backup_store \<Rightarrow> string set \<Rightarrow> string list \<Rightarrow> nat \<Rightarrow> 's \<Rightarrow> (backup_error + nat) \<times> 's" where
  "gc_sweep st refs [] removed s = (Inr removed, s)"
| "gc_sweep st refs (c # cs) removed s =
     (if c \<notin> refs then
        (case delete_chunk st s c of
           (Inl e, s) \<Rightarrow> (Inl e, s)
         | (Inr _, s) \<Rightarrow> gc_sweep st refs cs (removed + 1) s)
      else gc_sweep st refs cs removed s)"

definition gc_offline :: "'s backup_store \<Rightarrow> 's \<Rightarrow> (backup_error + nat) \<times> 's" where
  "gc_offline st s =
     (case rbind (list_manifests st s) (\<lambda>ns. gc_mark st s ns {}) of
        Inl e \<Rightarrow> (Inl e, s)
      | Inr refs \<Rightarrow>
          (case list_chunks st s of
             Inl e \<Rightarrow> (Inl e, s)
           | Inr cs \<Rightarrow> gc_sweep st refs cs 0 s))"

fun read_all :: "'s backup_store \<Rightarrow> 's \<Rightarrow> string list \<Rightarrow> (string, string) hash_map \<Rightarrow> manifest list \<Rightarrow>
    backup_error + ((string, string) hash_map \<times> manifest list)" where
  "read_all st s [] names ms = Inr (names, ms)"
| "read_all st s (n # ns) names ms =
     rbind (read_manifest st s n) (\<lambda>m. read_all st s ns (hm_insert (snap_id m) n names) (ms @ [m]))"

fun delete_all :: "'s backup_store \<Rightarrow> (string, string) hash_map \<Rightarrow> string list \<Rightarrow> nat \<Rightarrow> 's \<Rightarrow> (backup_error + nat) \<times> 's" where
  "delete_all st names [] removed s = (Inr removed, s)"
| "delete_all st names (i # is) removed s =
     (case hm_get names i of
        None \<Rightarrow> delete_all st names is removed s
      | Some n \<Rightarrow>
          (case delete_manifest st s n of
             (Inl e, s) \<Rightarrow> (Inl e, s)
           | (Inr _, s) \<Rightarrow> delete_all st names is (removed + 1) s))"

definition apply_retention_offline ::
    "'s backup_store \<Rightarrow> calendar \<Rightarrow> retention_policy \<Rightarrow> 's \<Rightarrow> (backup_error + nat \<times> nat) \<times> 's" where
  "apply_retention_offline st cal p s =
     (case rbind (list_manifests st s) (\<lambda>ns. read_all st s ns [] []) of
        Inl e \<Rightarrow> (Inl e, s)
      | Inr (names, ms) \<Rightarrow>
          (case delete_all st names (select_delete cal p ms) 0 s of
             (Inl e, s) \<Rightarrow> (Inl e, s)
           | (Inr removed, s) \<Rightarrow>
               (case gc_offline st s of
                  (Inl e, s) \<Rightarrow> (Inl e, s)
                | (Inr chunks, s) \<Rightarrow> (Inr (removed, chunks), s))))"

fun restore_manifest_loop :: "'s backup_store \<Rightarrow> hasher \<Rightarrow> 'w writer \<Rightarrow> 's \<Rightarrow> string list \<Rightarrow> 'w \<Rightarrow> (backup_error + unit) \<times> 'w" where
  "restore_manifest_loop st sha wr s [] w =
     (case flush wr w of (Inl e, w) \<Rightarrow> (Inl (StorageError (''flush: '' @ e)), w) | (Inr _, w) \<Rightarrow> (Inr (), w))"
| "restore_manifest_loop st sha wr s (h # hs) w =
     (case read_chunk st s h of
        Inl e \<Rightarrow> (Inl e, w)
      | Inr b \<Rightarrow>
          (let actual = content_hash sha b in
           if actual \<noteq> h then (Inl (HashMismatch h actual), w)
           else case write_all wr w b of
                  (Inl e, w) \<Rightarrow> (Inl (StorageError (''write: '' @ e)), w)
                | (Inr _, w) \<Rightarrow> restore_manifest_loop st sha wr s hs w))"

definition restore_manifest_to :: "'s backup_store \<Rightarrow> hasher \<Rightarrow> 'w writer \<Rightarrow> 's \<Rightarrow> manifest \<Rightarrow> 'w \<Rightarrow> (backup_error + unit) \<times> 'w" where
  "restore_manifest_to st sha wr s m w = restore_manifest_loop st sha wr s (chunk_ids m) w"

lemma restore_manifest_ok:
  assumes "\<And>w d. write_all wr w d = (Inr (), put w d)" "\<And>w. flush wr w = (Inr (), w)"
    and "\<forall>h \<in> set (chunk_ids m). read_chunk st s h = Inr (g h) \<and> content_hash sha (g h) = h"
  shows "restore_manifest_to st sha wr s m w = (Inr (), foldl put w (map g (chunk_ids m)))"
proof -
  have "\<forall>h \<in> set hs. read_chunk st s h = Inr (g h) \<and> content_hash sha (g h) = h \<Longrightarrow>
      restore_manifest_loop st sha wr s hs w = (Inr (), foldl put w (map g hs))" for hs w
    by (induction hs arbitrary: w) (auto simp: assms(1,2))
  then show ?thesis using assms(3) by (simp add: restore_manifest_to_def)
qed

section \<open>The store in memory\<close>

record mem_store =
  mem_chunks :: "(string, bytes) hash_map"
  mem_manifests :: "(string, manifest) hash_map"

definition mem_put_chunk :: "mem_store \<Rightarrow> string \<Rightarrow> bytes \<Rightarrow> (backup_error + unit) \<times> mem_store" where
  "mem_put_chunk s h d = (Inr (), s\<lparr>mem_chunks := hm_insert h d (mem_chunks s)\<rparr>)"

definition mem_get_chunk :: "hasher \<Rightarrow> mem_store \<Rightarrow> string \<Rightarrow> backup_error + bytes" where
  "mem_get_chunk sha s h =
     rbind (ok_or (ChunkMissing h) (hm_get (mem_chunks s) h)) (\<lambda>d.
       let actual = content_hash sha d in if actual \<noteq> h then Inl (HashMismatch h actual) else Inr d)"

definition mem_has_chunk :: "mem_store \<Rightarrow> string \<Rightarrow> backup_error + bool" where
  "mem_has_chunk s h = Inr (hm_contains (mem_chunks s) h)"

definition mem_write_manifest :: "mem_store \<Rightarrow> string \<Rightarrow> manifest \<Rightarrow> (backup_error + unit) \<times> mem_store" where
  "mem_write_manifest s n m = (Inr (), s\<lparr>mem_manifests := hm_insert n m (mem_manifests s)\<rparr>)"

definition mem_read_manifest :: "mem_store \<Rightarrow> string \<Rightarrow> backup_error + manifest" where
  "mem_read_manifest s n = ok_or (SnapshotNotFound n) (hm_get (mem_manifests s) n)"

definition mem_list_manifests :: "mem_store \<Rightarrow> backup_error + string list" where
  "mem_list_manifests s = Inr (hm_keys (mem_manifests s))"

definition mem_delete_manifest :: "mem_store \<Rightarrow> string \<Rightarrow> (backup_error + unit) \<times> mem_store" where
  "mem_delete_manifest s n = (Inr (), s\<lparr>mem_manifests := hm_remove n (mem_manifests s)\<rparr>)"

definition mem_delete_chunk :: "mem_store \<Rightarrow> string \<Rightarrow> (backup_error + unit) \<times> mem_store" where
  "mem_delete_chunk s h = (Inr (), s\<lparr>mem_chunks := hm_remove h (mem_chunks s)\<rparr>)"

definition mem_list_chunks :: "mem_store \<Rightarrow> backup_error + string list" where
  "mem_list_chunks s = Inr (hm_keys (mem_chunks s))"

definition memory_store :: "hasher \<Rightarrow> mem_store backup_store" where
  "memory_store sha = \<lparr>put_chunk = mem_put_chunk, read_chunk = mem_get_chunk sha, has_chunk = mem_has_chunk,
     write_manifest = mem_write_manifest, read_manifest = mem_read_manifest, list_manifests = mem_list_manifests,
     delete_manifest = mem_delete_manifest, delete_chunk = mem_delete_chunk, list_chunks = mem_list_chunks\<rparr>"

section \<open>The store on disk\<close>

record store_env =
  env_sha :: hasher
  zstd_encode :: "bytes \<Rightarrow> bytes option"
  zstd_decode :: "bytes \<Rightarrow> bytes option"
  json_encode :: "manifest \<Rightarrow> bytes option"
  json_decode :: "bytes \<Rightarrow> manifest option"

text \<open>\<open>Path::file_stem\<close> and \<open>Path::with_extension\<close> on a file name.\<close>

definition file_stem :: "string \<Rightarrow> string" where
  "file_stem s = (case rfind_char (CHR ''.'') s of Some (Suc i) \<Rightarrow> take (Suc i) s | _ \<Rightarrow> s)"

definition with_extension :: "path \<Rightarrow> string \<Rightarrow> path" where
  "with_extension p e = butlast p @ [file_stem (last p) @ ''.'' @ e]"

definition chunk_path :: "string \<Rightarrow> path" where
  "chunk_path h = [''chunks'', if length h \<ge> 2 then take 2 h else ''00'', h @ ''.zst'']"

definition manifest_path :: "string \<Rightarrow> path" where
  "manifest_path n = [''manifests'', n @ ''.json'']"

definition file_store_new :: "disk \<Rightarrow> backup_error + disk" where
  "file_store_new d =
     rbind (ok_or (StorageError ''mkdir chunks'') (create_dir_all d [''chunks''])) (\<lambda>d.
       ok_or (StorageError ''mkdir manifests'') (create_dir_all d [''manifests'']))"

text \<open>Write to a temporary file beside the target and rename it; \<open>msg\<close> gives the text of an error.\<close>

definition write_then_rename ::
    "(string \<Rightarrow> string) \<Rightarrow> disk \<Rightarrow> path \<Rightarrow> string \<Rightarrow> backup_error + bytes \<Rightarrow> (backup_error + unit) \<times> disk" where
  "write_then_rename msg d path ext content =
     (case create_dir_all d (butlast path) of
        None \<Rightarrow> (Inl (StorageError (msg ''mkdir'')), d)
      | Some d \<Rightarrow>
          (case content of
             Inl e \<Rightarrow> (Inl e, d)
           | Inr b \<Rightarrow>
               (let tmp = with_extension path ext in
                case write_at d tmp b of
                  None \<Rightarrow> (Inl (StorageError (msg ''write tmp'')), d)
                | Some d \<Rightarrow>
                    (case rename_at d tmp path of
                       None \<Rightarrow> (Inl (StorageError (msg ''rename'')), d)
                     | Some d \<Rightarrow> (Inr (), d)))))"

definition file_put_chunk :: "store_env \<Rightarrow> disk \<Rightarrow> string \<Rightarrow> bytes \<Rightarrow> (backup_error + unit) \<times> disk" where
  "file_put_chunk env d h b =
     (let path = chunk_path h; actual = content_hash (env_sha env) b in
      if actual \<noteq> h then (Inl (HashMismatch h actual), d)
      else if node_at d path \<noteq> None then (Inr (), d)
      else write_then_rename (\<lambda>x. x) d path ''zst.tmp'' (ok_or (StorageError ''zstd encode'') (zstd_encode env b)))"

definition file_get_chunk :: "store_env \<Rightarrow> disk \<Rightarrow> string \<Rightarrow> backup_error + bytes" where
  "file_get_chunk env d h =
     (case node_at d (chunk_path h) of
        None \<Rightarrow> Inl (ChunkMissing h)
      | Some DDir \<Rightarrow> Inl (StorageError ''read'')
      | Some (DFile c) \<Rightarrow>
          rbind (ok_or (StorageError ''zstd decode'') (zstd_decode env c)) (\<lambda>b.
            let actual = content_hash (env_sha env) b in
            if actual \<noteq> h then Inl (HashMismatch h actual) else Inr b))"

definition file_has_chunk :: "disk \<Rightarrow> string \<Rightarrow> backup_error + bool" where
  "file_has_chunk d h = Inr (node_at d (chunk_path h) \<noteq> None)"

definition file_write_manifest :: "store_env \<Rightarrow> disk \<Rightarrow> string \<Rightarrow> manifest \<Rightarrow> (backup_error + unit) \<times> disk" where
  "file_write_manifest env d n m =
     (case json_encode env m of
        None \<Rightarrow> (Inl (SerdeError ''encode''), d)
      | Some b \<Rightarrow> write_then_rename (\<lambda>_. ''manifest write'') d (manifest_path n) ''json.tmp'' (Inr b))"

definition file_read_manifest :: "store_env \<Rightarrow> disk \<Rightarrow> string \<Rightarrow> backup_error + manifest" where
  "file_read_manifest env d n =
     (case node_at d (manifest_path n) of
        None \<Rightarrow> Inl (SnapshotNotFound ''not found'')
      | Some DDir \<Rightarrow> Inl (StorageError ''read'')
      | Some (DFile b) \<Rightarrow> ok_or (SerdeError ''decode'') (json_decode env b))"

definition children :: "disk \<Rightarrow> path \<Rightarrow> (string \<times> dnode) list" where
  "children d u = map (\<lambda>(q, n). (last q, n)) (filter (\<lambda>(q, n). q \<noteq> [] \<and> butlast q = u) d)"

definition read_dir :: "disk \<Rightarrow> path \<Rightarrow> backup_error + (string \<times> dnode) list" where
  "read_dir d u =
     (case node_at d u of
        None \<Rightarrow> Inr []
      | Some (DFile _) \<Rightarrow> Inl (StorageError ''read_dir'')
      | Some DDir \<Rightarrow> Inr (children d u))"

definition file_list_manifests :: "disk \<Rightarrow> backup_error + string list" where
  "file_list_manifests d = rbind (read_dir d [''manifests'']) (\<lambda>es. Inr (map (\<lambda>(n, _). file_stem n) es))"

definition file_remove :: "disk \<Rightarrow> path \<Rightarrow> (backup_error + unit) \<times> disk" where
  "file_remove d p =
     (case node_at d p of
        None \<Rightarrow> (Inr (), d)
      | Some DDir \<Rightarrow> (Inl (StorageError ''remove''), d)
      | Some (DFile _) \<Rightarrow> (Inr (), hm_remove p d))"

definition file_delete_manifest :: "disk \<Rightarrow> string \<Rightarrow> (backup_error + unit) \<times> disk" where
  "file_delete_manifest d n = file_remove d (manifest_path n)"

definition file_delete_chunk :: "disk \<Rightarrow> string \<Rightarrow> (backup_error + unit) \<times> disk" where
  "file_delete_chunk d h = file_remove d (chunk_path h)"

definition file_list_chunks :: "disk \<Rightarrow> backup_error + string list" where
  "file_list_chunks d =
     rbind (read_dir d [''chunks'']) (\<lambda>shards.
       Inr (concat (map (\<lambda>(p, n). if n = DDir then map (\<lambda>(f, _). file_stem f) (children d [''chunks'', p]) else []) shards)))"

definition file_store :: "store_env \<Rightarrow> disk backup_store" where
  "file_store env = \<lparr>put_chunk = file_put_chunk env, read_chunk = file_get_chunk env, has_chunk = file_has_chunk,
     write_manifest = file_write_manifest env, read_manifest = file_read_manifest env, list_manifests = file_list_manifests,
     delete_manifest = file_delete_manifest, delete_chunk = file_delete_chunk, list_chunks = file_list_chunks\<rparr>"

section \<open>The contract of a store and its clients\<close>

text \<open>
  What a client does with a store, and its specification: a map of chunks and a map of manifests, where a
  collection leaves the chunks that some manifest names.
\<close>

datatype store_op = PutOp bytes | WriteOp string manifest | DropOp string | CollectOp

definition store_step :: "hasher \<Rightarrow> 's backup_store \<Rightarrow> 's \<Rightarrow> store_op \<Rightarrow> 's" where
  "store_step sha st s op =
     (case op of
        PutOp b \<Rightarrow> snd (put_chunk st s (content_hash sha b) b)
      | WriteOp n m \<Rightarrow> snd (write_manifest st s n m)
      | DropOp n \<Rightarrow> snd (delete_manifest st s n)
      | CollectOp \<Rightarrow> snd (gc_offline st s))"

type_synonym store_maps = "(string \<Rightarrow> bytes option) \<times> (string \<Rightarrow> manifest option)"

definition spec_store_step :: "hasher \<Rightarrow> store_maps \<Rightarrow> store_op \<Rightarrow> store_maps" where
  "spec_store_step sha cm_mm op =
     (let (C, M) = cm_mm in
      case op of
        PutOp b \<Rightarrow> (C(content_hash sha b \<mapsto> b), M)
      | WriteOp n m \<Rightarrow> (C, M(n \<mapsto> m))
      | DropOp n \<Rightarrow> (C, M(n := None))
      | CollectOp \<Rightarrow> (C |` (\<Union>m \<in> ran M. set (chunk_ids m)), M))"

definition put_bytes :: "store_op \<Rightarrow> bytes set" where
  "put_bytes op = (case op of PutOp b \<Rightarrow> {b} | _ \<Rightarrow> {})"

text \<open>
  A store is seen as two maps, the chunks \<open>cm\<close> by their hash and the manifests \<open>mm\<close> by their name.
\<close>

locale chunk_store =
  fixes st :: "'s backup_store"
    and inv :: "'s \<Rightarrow> bool"
    and cm :: "'s \<Rightarrow> string \<Rightarrow> bytes option"
    and mm :: "'s \<Rightarrow> string \<Rightarrow> manifest option"
    and chunk_ok :: "string \<Rightarrow> bytes \<Rightarrow> bool"
    and name_ok :: "string \<Rightarrow> manifest \<Rightarrow> bool"
  assumes list_chunks: "inv s \<Longrightarrow> \<exists>l. list_chunks st s = Inr l \<and> set l = dom (cm s)"
    and list_manifests: "inv s \<Longrightarrow> \<exists>l. list_manifests st s = Inr l \<and> set l = dom (mm s)"
    and read_chunk: "inv s \<Longrightarrow> cm s h = Some b \<Longrightarrow> read_chunk st s h = Inr b"
    and read_manifest: "inv s \<Longrightarrow> mm s n = Some m \<Longrightarrow> read_manifest st s n = Inr m"
    and no_chunk: "inv s \<Longrightarrow> cm s h = None \<Longrightarrow> read_chunk st s h = Inl (ChunkMissing h)"
    and no_manifest: "inv s \<Longrightarrow> mm s n = None \<Longrightarrow> \<exists>e. read_manifest st s n = Inl e"
    and put_chunk: "inv s \<Longrightarrow> chunk_ok h b \<Longrightarrow> cm s h = None \<or> cm s h = Some b \<Longrightarrow>
      \<exists>s'. put_chunk st s h b = (Inr (), s') \<and> inv s' \<and> cm s' = (cm s)(h \<mapsto> b) \<and> mm s' = mm s"
    and write_manifest: "inv s \<Longrightarrow> name_ok n m \<Longrightarrow>
      \<exists>s'. write_manifest st s n m = (Inr (), s') \<and> inv s' \<and> cm s' = cm s \<and> mm s' = (mm s)(n \<mapsto> m)"
    and delete_chunk: "inv s \<Longrightarrow>
      \<exists>s'. delete_chunk st s h = (Inr (), s') \<and> inv s' \<and> cm s' = (cm s)(h := None) \<and> mm s' = mm s"
    and delete_manifest: "inv s \<Longrightarrow>
      \<exists>s'. delete_manifest st s n = (Inr (), s') \<and> inv s' \<and> cm s' = cm s \<and> mm s' = (mm s)(n := None)"
begin

lemma mark_refs:
  assumes "inv s" "set ns \<subseteq> dom (mm s)"
  shows "gc_mark st s ns refs = Inr (refs \<union> (\<Union>n \<in> set ns. set (chunk_ids (the (mm s n)))))"
  using assms(2)
proof (induction ns arbitrary: refs)
  case (Cons n ns)
  then obtain m where "mm s n = Some m" by auto
  then show ?case using Cons read_manifest [OF assms(1), of n m] by auto
qed simp

lemma sweep_deletes:
  "inv s \<Longrightarrow> \<exists>k s'. gc_sweep st refs cs removed s = (Inr k, s') \<and> inv s' \<and> mm s' = mm s \<and>
     cm s' = (\<lambda>h. if h \<in> set cs \<and> h \<notin> refs then None else cm s h)"
proof (induction cs arbitrary: removed s)
  case (Cons c cs)
  show ?case
  proof (cases "c \<in> refs")
    case True
    then show ?thesis using Cons.IH [OF Cons.prems, of removed] by fastforce
  next
    case False
    from delete_chunk [OF Cons.prems, of c] obtain s1 where
      s1: "delete_chunk st s c = (Inr (), s1)" "inv s1" "cm s1 = (cm s)(c := None)" "mm s1 = mm s" by blast
    from Cons.IH [OF s1(2), of "removed + 1"] obtain k s' where
      "gc_sweep st refs cs (removed + 1) s1 = (Inr k, s')" "inv s'" "mm s' = mm s1"
      "cm s' = (\<lambda>h. if h \<in> set cs \<and> h \<notin> refs then None else cm s1 h)" by blast
    then show ?thesis using False s1 by (intro exI [of _ k] exI [of _ s']) (auto simp: fun_eq_iff)
  qed
qed (auto simp: fun_eq_iff)

lemma gc_exact:
  assumes "inv s"
  shows "\<exists>k s'. gc_offline st s = (Inr k, s') \<and> inv s' \<and> mm s' = mm s \<and>
    cm s' = cm s |` (\<Union>m \<in> ran (mm s). set (chunk_ids m))"
proof -
  obtain ns where ns: "list_manifests st s = Inr ns" "set ns = dom (mm s)" using list_manifests [OF assms] by blast
  obtain cs where cs: "list_chunks st s = Inr cs" "set cs = dom (cm s)" using list_chunks [OF assms] by blast
  let ?refs = "\<Union>m \<in> ran (mm s). set (chunk_ids m)"
  have "(\<Union>n \<in> dom (mm s). set (chunk_ids (the (mm s n)))) = ?refs" by (force simp: ran_def)
  then have m: "gc_mark st s ns {} = Inr ?refs" using mark_refs [OF assms, of ns "{}"] ns(2) by simp
  from sweep_deletes [OF assms, of ?refs cs 0] obtain k s' where
    s': "gc_sweep st ?refs cs 0 s = (Inr k, s')" "inv s'" "mm s' = mm s"
    "cm s' = (\<lambda>h. if h \<in> dom (cm s) \<and> h \<notin> ?refs then None else cm s h)" unfolding cs(2) by blast
  have "cm s' = cm s |` ?refs" unfolding s'(4) by (auto simp: fun_eq_iff restrict_map_def)
  then show ?thesis using s' m ns cs by (simp add: gc_offline_def)
qed

lemma step_maps:
  assumes s: "inv s" and D: "inj_on (content_hash sha) D" "\<And>h b. cm s h = Some b \<Longrightarrow> b \<in> D \<and> content_hash sha b = h"
    and op: "put_bytes op \<subseteq> D" "\<And>b. op = PutOp b \<Longrightarrow> chunk_ok (content_hash sha b) b" "\<And>n m. op = WriteOp n m \<Longrightarrow> name_ok n m"
  shows "inv (store_step sha st s op) \<and>
    (cm (store_step sha st s op), mm (store_step sha st s op)) = spec_store_step sha (cm s, mm s) op"
proof (cases op)
  case (PutOp b)
  have "cm s (content_hash sha b) = None \<or> cm s (content_hash sha b) = Some b"
    using D(1) D(2) [of "content_hash sha b"] op(1) PutOp
    by (cases "cm s (content_hash sha b)") (auto simp: put_bytes_def inj_on_def)
  from put_chunk [OF s op(2) [OF PutOp] this] show ?thesis
    using PutOp by (auto simp: store_step_def spec_store_step_def)
next
  case (WriteOp n m)
  from write_manifest [OF s op(3) [OF WriteOp]] show ?thesis
    using WriteOp by (auto simp: store_step_def spec_store_step_def)
next
  case (DropOp n)
  from delete_manifest [OF s, of n] show ?thesis
    using DropOp by (auto simp: store_step_def spec_store_step_def)
next
  case CollectOp
  from gc_exact [OF s] show ?thesis
    using CollectOp by (auto simp: store_step_def spec_store_step_def)
qed

lemma run_maps:
  assumes "inj_on (content_hash sha) D"
  shows "inv s \<Longrightarrow> (\<forall>h b. cm s h = Some b \<longrightarrow> b \<in> D \<and> content_hash sha b = h) \<Longrightarrow>
    \<forall>op \<in> set ops. put_bytes op \<subseteq> D \<and> (\<forall>b. op = PutOp b \<longrightarrow> chunk_ok (content_hash sha b) b) \<and>
      (\<forall>n m. op = WriteOp n m \<longrightarrow> name_ok n m) \<Longrightarrow>
    inv (foldl (store_step sha st) s ops) \<and>
    (cm (foldl (store_step sha st) s ops), mm (foldl (store_step sha st) s ops)) = foldl (spec_store_step sha) (cm s, mm s) ops"
proof (induction ops arbitrary: s)
  case (Cons op ops)
  let ?s = "store_step sha st s op"
  have st: "inv ?s \<and> (cm ?s, mm ?s) = spec_store_step sha (cm s, mm s) op"
    using Cons.prems(2,3) by (intro step_maps [OF Cons.prems(1) assms]) auto
  have "put_bytes op \<subseteq> D" using Cons.prems(3) by simp
  then have "b \<in> D \<and> content_hash sha b = h" if "fst (spec_store_step sha (cm s, mm s) op) h = Some b" for h b
    using Cons.prems(2) that by (cases op) (auto simp: spec_store_step_def put_bytes_def restrict_map_def split: if_splits)
  moreover have "fst (spec_store_step sha (cm s, mm s) op) = cm ?s" using st by (metis fst_conv)
  ultimately have "\<forall>h b. cm ?s h = Some b \<longrightarrow> b \<in> D \<and> content_hash sha b = h" by simp
  then show ?case using Cons.IH [of ?s] Cons.prems(3) st by simp
qed simp

lemma reads:
  assumes "inv s"
  shows "read_chunk st s h = (case cm s h of Some b \<Rightarrow> Inr b | None \<Rightarrow> Inl (ChunkMissing h))"
    and "read_manifest st s n = Inr m \<longleftrightarrow> mm s n = Some m"
proof -
  show "read_chunk st s h = (case cm s h of Some b \<Rightarrow> Inr b | None \<Rightarrow> Inl (ChunkMissing h))"
    using read_chunk [OF assms] no_chunk [OF assms] by (auto split: option.splits)
  show "read_manifest st s n = Inr m \<longleftrightarrow> mm s n = Some m"
    using read_manifest [OF assms, of n] no_manifest [OF assms, of n] by (cases "mm s n") auto
qed

text \<open>Manifests have different ids under different names.\<close>

lemma read_all_ok:
  assumes s: "inv s" and u: "\<forall>n n' m m'. mm s n = Some m \<longrightarrow> mm s n' = Some m' \<longrightarrow> snap_id m = snap_id m' \<longrightarrow> n = n'"
  shows "set ns \<subseteq> dom (mm s) \<Longrightarrow> N \<subseteq> dom (mm s) \<Longrightarrow>
    \<forall>i n. hm_get names i = Some n \<longleftrightarrow> n \<in> N \<and> i = snap_id (the (mm s n)) \<Longrightarrow>
    \<exists>names'. read_all st s ns names ms = Inr (names', ms @ map (\<lambda>n. the (mm s n)) ns) \<and>
      (\<forall>i n. hm_get names' i = Some n \<longleftrightarrow> n \<in> N \<union> set ns \<and> i = snap_id (the (mm s n)))"
proof (induction ns arbitrary: names ms N)
  case (Cons n ns)
  obtain m where m: "mm s n = Some m" using Cons.prems(1) by auto
  have "hm_get (hm_insert (snap_id m) n names) i = Some k \<longleftrightarrow> k \<in> insert n N \<and> i = snap_id (the (mm s k))" for i k
    using Cons.prems(2,3) m u by (auto simp: hm_simps dom_def split: if_splits)
  then show ?case
    using Cons.IH [of "insert n N" "hm_insert (snap_id m) n names" "ms @ [m]"] Cons.prems(1,2) m read_manifest [OF s m] by simp
qed auto

lemma delete_all_ok:
  "inv s \<Longrightarrow> \<exists>k s'. delete_all st names is removed s = (Inr k, s') \<and> inv s' \<and> cm s' = cm s \<and>
     mm s' = (\<lambda>n. if \<exists>i \<in> set is. hm_get names i = Some n then None else mm s n)"
proof (induction "is" arbitrary: removed s)
  case (Cons i "is")
  show ?case
  proof (cases "hm_get names i")
    case None
    then show ?thesis using Cons.IH [OF Cons.prems, of removed] by simp
  next
    case (Some n)
    from delete_manifest [OF Cons.prems, of n] obtain s1 where
      s1: "delete_manifest st s n = (Inr (), s1)" "inv s1" "cm s1 = cm s" "mm s1 = (mm s)(n := None)" by blast
    from Cons.IH [OF s1(2), of "removed + 1"] obtain k s' where
      "delete_all st names is (removed + 1) s1 = (Inr k, s')" "inv s'" "cm s' = cm s1"
      "mm s' = (\<lambda>n. if \<exists>i \<in> set is. hm_get names i = Some n then None else mm s1 n)" by blast
    then show ?thesis using Some s1 by (intro exI [of _ k] exI [of _ s']) (auto simp: fun_eq_iff)
  qed
qed auto

lemma retention_exact:
  assumes s: "inv s" and u: "\<forall>n n' m m'. mm s n = Some m \<longrightarrow> mm s n' = Some m' \<longrightarrow> snap_id m = snap_id m' \<longrightarrow> n = n'"
  shows "\<exists>ms k s'. set ms = ran (mm s) \<and> apply_retention_offline st cal p s = (Inr k, s') \<and> inv s' \<and>
    mm s' = (\<lambda>n. case mm s n of Some m \<Rightarrow> if snap_id m \<in> select_keep cal p ms then Some m else None | None \<Rightarrow> None) \<and>
    cm s' = cm s |` (\<Union>m \<in> ran (mm s'). set (chunk_ids m))"
proof -
  obtain ns where ns: "list_manifests st s = Inr ns" "set ns = dom (mm s)" using list_manifests [OF s] by blast
  define ms where "ms = map (\<lambda>n. the (mm s n)) ns"
  have ms: "set ms = ran (mm s)" using ns(2) by (force simp: ms_def ran_def)
  have "\<exists>names. read_all st s ns [] [] = Inr (names, [] @ map (\<lambda>n. the (mm s n)) ns) \<and>
      (\<forall>i n. hm_get names i = Some n \<longleftrightarrow> n \<in> {} \<union> set ns \<and> i = snap_id (the (mm s n)))"
    by (rule read_all_ok [OF s u]) (use ns(2) in auto)
  then obtain names where names: "read_all st s ns [] [] = Inr (names, ms)"
    "\<And>i n. hm_get names i = Some n \<longleftrightarrow> n \<in> dom (mm s) \<and> i = snap_id (the (mm s n))"
    using ns(2) by (auto simp: ms_def)
  from delete_all_ok [OF s, of names "select_delete cal p ms" 0] obtain k s1 where
    s1: "delete_all st names (select_delete cal p ms) 0 s = (Inr k, s1)" "inv s1" "cm s1 = cm s"
    "mm s1 = (\<lambda>n. if \<exists>i \<in> set (select_delete cal p ms). hm_get names i = Some n then None else mm s n)" by blast
  have kept: "(\<exists>i \<in> set (select_delete cal p ms). hm_get names i = Some n) \<longleftrightarrow> snap_id m \<notin> select_keep cal p ms"
    if "mm s n = Some m" for n m
    using that kept_iff [of m ms cal p] ms by (auto simp: names(2) ran_def)
  have mm1: "mm s1 = (\<lambda>n. case mm s n of Some m \<Rightarrow> if snap_id m \<in> select_keep cal p ms then Some m else None | None \<Rightarrow> None)"
    unfolding s1(4) by (rule ext) (auto simp: kept split: option.splits)
  from gc_exact [OF s1(2)] obtain k' s2 where
    s2: "gc_offline st s1 = (Inr k', s2)" "inv s2" "mm s2 = mm s1" "cm s2 = cm s1 |` (\<Union>m \<in> ran (mm s1). set (chunk_ids m))" by blast
  have "apply_retention_offline st cal p s = (Inr (k, k'), s2)"
    using ns(1) names(1) s1(1) s2(1) by (simp add: apply_retention_offline_def)
  then show ?thesis using ms s2 mm1 s1(3) by (intro exI [of _ ms] exI [of _ "(k, k')"] exI [of _ s2]) simp
qed

end

section \<open>Both stores keep the contract\<close>

definition mem_inv :: "hasher \<Rightarrow> mem_store \<Rightarrow> bool" where
  "mem_inv sha s \<longleftrightarrow> hm_wf (mem_chunks s) \<and> hm_wf (mem_manifests s) \<and>
     (\<forall>h b. hm_get (mem_chunks s) h = Some b \<longrightarrow> content_hash sha b = h)"

interpretation mem: chunk_store "memory_store sha" "mem_inv sha" "\<lambda>s. hm_get (mem_chunks s)" "\<lambda>s. hm_get (mem_manifests s)"
  "\<lambda>h b. content_hash sha b = h" "\<lambda>n m. True" for sha
  by unfold_locales
    (auto simp: memory_store_def mem_inv_def mem_list_chunks_def mem_list_manifests_def mem_get_chunk_def mem_read_manifest_def
      mem_put_chunk_def mem_write_manifest_def mem_delete_chunk_def mem_delete_manifest_def hm_keys_get dom_def
      hm.wf_insert hm.wf_remove hm.get_insert_fun hm.get_remove_fun split: if_splits)

definition hash_ok :: "string \<Rightarrow> bool" where
  "hash_ok h \<longleftrightarrow> length h \<ge> 2 \<and> CHR ''/'' \<notin> set h"

definition plain :: "string \<Rightarrow> bool" where
  "plain n \<longleftrightarrow> n \<noteq> [] \<and> CHR ''/'' \<notin> set n"

definition file_cm :: "store_env \<Rightarrow> disk \<Rightarrow> string \<Rightarrow> bytes option" where
  "file_cm env d h =
     (if hash_ok h then case hm_get d (chunk_path h) of Some (DFile c) \<Rightarrow> zstd_decode env c | _ \<Rightarrow> None else None)"

definition file_mm :: "store_env \<Rightarrow> disk \<Rightarrow> string \<Rightarrow> manifest option" where
  "file_mm env d n =
     (if plain n then case hm_get d (manifest_path n) of Some (DFile c) \<Rightarrow> json_decode env c | _ \<Rightarrow> None else None)"

text \<open>What may be on the disk of a store: the two directories, shards, chunks that decode to their hash, manifests that decode.\<close>

definition entry_ok :: "store_env \<Rightarrow> path \<Rightarrow> dnode \<Rightarrow> bool" where
  "entry_ok env q n \<longleftrightarrow>
     (q = [''chunks''] \<or> q = [''manifests''] \<or> (\<exists>p. q = [''chunks'', p])) \<and> n = DDir \<or>
     (\<exists>h c b. q = chunk_path h \<and> n = DFile c \<and> hash_ok h \<and> zstd_decode env c = Some b \<and> content_hash (env_sha env) b = h) \<or>
     (\<exists>nm c m. q = manifest_path nm \<and> n = DFile c \<and> plain nm \<and> json_decode env c = Some m)"

definition file_inv :: "store_env \<Rightarrow> disk \<Rightarrow> bool" where
  "file_inv env d \<longleftrightarrow> hm_wf d \<and> hm_get d [''chunks''] = Some DDir \<and> hm_get d [''manifests''] = Some DDir \<and>
     (\<forall>q n. hm_get d q = Some n \<longrightarrow> entry_ok env q n) \<and>
     (\<forall>p x. hm_get d [''chunks'', p, x] \<noteq> None \<longrightarrow> hm_get d [''chunks'', p] = Some DDir)"

lemma file_stem_ext: "n \<noteq> [] \<Longrightarrow> CHR ''.'' \<notin> set e \<Longrightarrow> file_stem (n @ CHR ''.'' # e) = n"
  by (cases n) (simp_all add: file_stem_def rfind_char_append del: append_Cons)

lemma path_simps:
  "chunk_path h = chunk_path h' \<longleftrightarrow> h = h'" "manifest_path n = manifest_path n' \<longleftrightarrow> n = n'"
  "chunk_path h \<noteq> manifest_path n" "manifest_path n \<noteq> chunk_path h" "chunk_path h \<noteq> [a]" "chunk_path h \<noteq> [a, b]" "manifest_path n \<noteq> [a]" "manifest_path n \<noteq> [''chunks'', b]"
  by (auto simp: chunk_path_def manifest_path_def)

lemma node_at_path: "node_at d (chunk_path h) = hm_get d (chunk_path h)" "node_at d (manifest_path n) = hm_get d (manifest_path n)"
  by (simp_all add: node_at_def chunk_path_def manifest_path_def)

lemma chunk_path_ok: "hash_ok h \<Longrightarrow> chunk_path h = [''chunks'', take 2 h, h @ ''.zst'']"
  by (simp add: chunk_path_def hash_ok_def)

lemma entry_chunk: "entry_ok env (chunk_path h) n \<longleftrightarrow>
    (\<exists>c b. n = DFile c \<and> hash_ok h \<and> zstd_decode env c = Some b \<and> content_hash (env_sha env) b = h)"
  by (auto simp: entry_ok_def path_simps)

lemma entry_manifest: "entry_ok env (manifest_path nm) n \<longleftrightarrow> (\<exists>c m. n = DFile c \<and> plain nm \<and> json_decode env c = Some m)"
  by (auto simp: entry_ok_def path_simps)

lemma no_file:
  assumes "file_inv env d"
  shows "file_cm env d h = None \<Longrightarrow> hm_get d (chunk_path h) = None" "file_mm env d n = None \<Longrightarrow> hm_get d (manifest_path n) = None"
proof -
  have e: "\<And>q n. hm_get d q = Some n \<Longrightarrow> entry_ok env q n" using assms unfolding file_inv_def by blast
  show "hm_get d (chunk_path h) = None" if "file_cm env d h = None"
    using that e [of "chunk_path h"] by (cases "hm_get d (chunk_path h)") (auto simp: entry_chunk file_cm_def)
  show "hm_get d (manifest_path n) = None" if "file_mm env d n = None"
    using that e [of "manifest_path n"] by (cases "hm_get d (manifest_path n)") (auto simp: entry_manifest file_mm_def)
qed

lemma children_iff: "hm_wf d \<Longrightarrow> (x, n) \<in> set (children d u) \<longleftrightarrow> hm_get d (u @ [x]) = Some n"
proof -
  assume wf: "hm_wf d"
  have "(x, n) \<in> set (children d u) \<longleftrightarrow> (\<exists>q. (q, n) \<in> set d \<and> q \<noteq> [] \<and> butlast q = u \<and> last q = x)"
    by (force simp: children_def)
  also have "\<dots> \<longleftrightarrow> (u @ [x], n) \<in> set d"
    by (metis append_butlast_last_id butlast_snoc last_snoc snoc_eq_iff_butlast)
  finally show ?thesis by (simp add: hm_get_mem [OF wf])
qed

lemma file_list_chunks_dom:
  assumes "file_inv env d"
  shows "\<exists>l. file_list_chunks d = Inr l \<and> set l = dom (file_cm env d)"
proof -
  have wf: "hm_wf d" and c: "hm_get d [''chunks''] = Some DDir"
    and e: "\<And>q n. hm_get d q = Some n \<Longrightarrow> entry_ok env q n"
    and sh: "\<And>p x. hm_get d [''chunks'', p, x] \<noteq> None \<Longrightarrow> hm_get d [''chunks'', p] = Some DDir"
    using assms unfolding file_inv_def by blast+
  define l where "l = concat (map (\<lambda>(p, n). if n = DDir then map (\<lambda>(f, _). file_stem f) (children d [''chunks'', p]) else [])
    (children d [''chunks'']))"
  have l: "file_list_chunks d = Inr l" by (simp add: file_list_chunks_def read_dir_def node_at_def c l_def)
  have mem: "h \<in> set l \<longleftrightarrow> (\<exists>p f n. hm_get d [''chunks'', p] = Some DDir \<and> hm_get d [''chunks'', p, f] = Some n \<and> h = file_stem f)" for h
    unfolding l_def by (force simp: children_iff [OF wf] split: if_splits)
  have "h \<in> set l \<longleftrightarrow> h \<in> dom (file_cm env d)" for h
  proof
    assume "h \<in> set l"
    then obtain p f n where f: "hm_get d [''chunks'', p, f] = Some n" "h = file_stem f" by (auto simp: mem)
    from e [OF f(1)] obtain h' c b where h': "[''chunks'', p, f] = chunk_path h'" "n = DFile c" "hash_ok h'" "zstd_decode env c = Some b"
      by (auto simp: entry_ok_def manifest_path_def)
    then have "f = h' @ ''.zst''" by (simp add: chunk_path_def)
    then have "h = h'" using f(2) h'(3) file_stem_ext [of h' "''zst''"] by (cases h') (auto simp: hash_ok_def)
    then show "h \<in> dom (file_cm env d)" using f(1) h' by (auto simp: file_cm_def dom_def)
  next
    assume "h \<in> dom (file_cm env d)"
    then obtain c where h: "hash_ok h" "hm_get d (chunk_path h) = Some (DFile c)"
      by (auto simp: file_cm_def dom_def split: if_splits option.splits dnode.splits)
    have "file_stem (h @ ''.zst'') = h" using h(1) file_stem_ext [of h "''zst''"] by (cases h) (auto simp: hash_ok_def)
    then show "h \<in> set l" using h sh [of "take 2 h" "h @ ''.zst''"] by (auto simp: mem chunk_path_ok) metis
  qed
  then show ?thesis using l by blast
qed

lemma file_list_manifests_dom:
  assumes "file_inv env d"
  shows "\<exists>l. file_list_manifests d = Inr l \<and> set l = dom (file_mm env d)"
proof -
  have wf: "hm_wf d" and c: "hm_get d [''manifests''] = Some DDir"
    and e: "\<And>q n. hm_get d q = Some n \<Longrightarrow> entry_ok env q n"
    using assms unfolding file_inv_def by blast+
  define l where "l = map (\<lambda>(n, _). file_stem n) (children d [''manifests''])"
  have l: "file_list_manifests d = Inr l" by (simp add: file_list_manifests_def read_dir_def node_at_def c l_def)
  have mem: "h \<in> set l \<longleftrightarrow> (\<exists>f n. hm_get d [''manifests'', f] = Some n \<and> h = file_stem f)" for h
    unfolding l_def by (force simp: children_iff [OF wf])
  have "h \<in> set l \<longleftrightarrow> h \<in> dom (file_mm env d)" for h
  proof
    assume "h \<in> set l"
    then obtain f n where f: "hm_get d [''manifests'', f] = Some n" "h = file_stem f" by (auto simp: mem)
    from e [OF f(1)] obtain h' c b where h': "[''manifests'', f] = manifest_path h'" "n = DFile c" "plain h'" "json_decode env c = Some b"
      by (auto simp: entry_ok_def chunk_path_def)
    then have "f = h' @ ''.json''" by (simp add: manifest_path_def)
    then have "h = h'" using f(2) h'(3) file_stem_ext [of h' "''json''"] by (auto simp: plain_def)
    then show "h \<in> dom (file_mm env d)" using f(1) h' by (auto simp: file_mm_def dom_def)
  next
    assume "h \<in> dom (file_mm env d)"
    then obtain c where h: "plain h" "hm_get d (manifest_path h) = Some (DFile c)"
      by (auto simp: file_mm_def dom_def split: if_splits option.splits dnode.splits)
    have "file_stem (h @ ''.json'') = h" using h(1) file_stem_ext [of h "''json''"] by (auto simp: plain_def)
    then show "h \<in> set l" using h by (auto simp: mem manifest_path_def)
  qed
  then show ?thesis using l by blast
qed

lemma write_then_rename_ok:
  assumes "create_dir_all d (butlast path) = Some d1" "path \<noteq> []" "node_at d1 (butlast path) = Some DDir"
    and "with_extension path ext \<noteq> path" "node_at d1 (with_extension path ext) = None" "node_at d1 path \<noteq> Some DDir"
  shows "\<exists>d'. write_then_rename msg d path ext (Inr b) = (Inr (), d') \<and>
    (\<forall>q. hm_get d' q = (if q = path then Some (DFile b) else hm_get d1 q)) \<and> (hm_wf d1 \<longrightarrow> hm_wf d')"
proof -
  let ?t = "with_extension path ext"
  have t: "?t \<noteq> []" "butlast ?t = butlast path" by (simp_all add: with_extension_def)
  have "butlast path \<noteq> ?t" by (metis assms(3,5) option.distinct(1))
  then have "node_at (hm_insert ?t (DFile b) d1) (butlast path) = Some DDir"
    using assms(3) by (simp add: node_at_insert [OF t(1)])
  then have "write_then_rename msg d path ext (Inr b) =
      (Inr (), hm_insert path (DFile b) (hm_remove ?t (hm_insert ?t (DFile b) d1)))"
    using assms t by (simp add: write_then_rename_def write_at_def rename_at_def node_at_insert Let_def)
  moreover have "hm_get d1 ?t = None" using assms(5) t(1) by (simp add: node_at_def)
  ultimately show ?thesis using assms(4) by (auto simp: hm_simps hm.wf_insert hm.wf_remove)
qed

text \<open>Changing one file of a store and adding shards.\<close>

lemma file_change:
  assumes inv: "file_inv env d" and wf: "hm_wf d'" and P: "P = chunk_path h \<or> P = manifest_path nm"
    and get: "\<And>q. hm_get d' q = (if q = P then n else if q \<in> S then Some DDir else hm_get d q)"
    and S: "S \<subseteq> {[''chunks'', a] |a. True}" and e: "\<And>x. n = Some x \<Longrightarrow> entry_ok env P x"
    and sh: "\<And>p x. n \<noteq> None \<Longrightarrow> P = [''chunks'', p, x] \<Longrightarrow> [''chunks'', p] \<in> S"
  shows "file_inv env d'"
    and "P = chunk_path h \<Longrightarrow> hash_ok h \<Longrightarrow>
      file_cm env d' = (file_cm env d)(h := (case n of Some (DFile c) \<Rightarrow> zstd_decode env c | _ \<Rightarrow> None)) \<and> file_mm env d' = file_mm env d"
    and "P = manifest_path nm \<Longrightarrow> plain nm \<Longrightarrow>
      file_mm env d' = (file_mm env d)(nm := (case n of Some (DFile c) \<Rightarrow> json_decode env c | _ \<Rightarrow> None)) \<and> file_cm env d' = file_cm env d"
proof -
  have d: "hm_get d [''chunks''] = Some DDir" "hm_get d [''manifests''] = Some DDir" "\<And>q n. hm_get d q = Some n \<Longrightarrow> entry_ok env q n"
    "\<And>p x. hm_get d [''chunks'', p, x] \<noteq> None \<Longrightarrow> hm_get d [''chunks'', p] = Some DDir"
    using inv unfolding file_inv_def by blast+
  have np: "P \<noteq> [a]" "P \<noteq> [''chunks'', a]" for a using P path_simps by metis+
  have ns: "[a] \<notin> S" "chunk_path x \<notin> S" "manifest_path y \<notin> S" for a x y using S path_simps by fastforce+
  have "entry_ok env [''chunks'', a] DDir" for a by (auto simp: entry_ok_def)
  then have "hm_get d' q = Some x \<Longrightarrow> entry_ok env q x" for q x
    using e d(3) S by (auto simp: get split: if_splits)
  moreover have "hm_get d' [''chunks'', p] = Some DDir" if "hm_get d' [''chunks'', p, x] \<noteq> None" for p x
  proof (cases "P = [''chunks'', p, x]")
    case True
    then show ?thesis using that sh [of p x] np(2) [of p] by (simp add: get)
  next
    case False
    then have "hm_get d [''chunks'', p, x] \<noteq> None" using that S by (auto simp: get split: if_splits)
    then show ?thesis using d(4) np(2) [of p] by (simp add: get)
  qed
  moreover have "hm_get d' [''chunks''] = Some DDir" "hm_get d' [''manifests''] = Some DDir"
    using d(1,2) np(1) ns(1) by (metis get)+
  ultimately show "file_inv env d'" using wf unfolding file_inv_def by blast
  show "file_cm env d' = (file_cm env d)(h := (case n of Some (DFile c) \<Rightarrow> zstd_decode env c | _ \<Rightarrow> None)) \<and> file_mm env d' = file_mm env d"
    if "P = chunk_path h" "hash_ok h"
    using that ns by (auto simp: fun_eq_iff file_cm_def file_mm_def get path_simps)
  show "file_mm env d' = (file_mm env d)(nm := (case n of Some (DFile c) \<Rightarrow> json_decode env c | _ \<Rightarrow> None)) \<and> file_cm env d' = file_cm env d"
    if "P = manifest_path nm" "plain nm"
    using that ns by (auto simp: fun_eq_iff file_cm_def file_mm_def get path_simps)
qed

lemma file_removed:
  assumes inv: "file_inv env d" and P: "P = chunk_path h \<or> P = manifest_path nm"
  shows "\<exists>d'. file_remove d P = (Inr (), d') \<and> file_inv env d' \<and>
    (P = chunk_path h \<longrightarrow> file_cm env d' = (file_cm env d)(h := None) \<and> file_mm env d' = file_mm env d) \<and>
    (P = manifest_path nm \<longrightarrow> file_mm env d' = (file_mm env d)(nm := None) \<and> file_cm env d' = file_cm env d)"
proof (cases "hm_get d P")
  case None
  moreover have "P \<noteq> []" using P by (auto simp: chunk_path_def manifest_path_def)
  ultimately have "file_remove d P = (Inr (), d)" by (simp add: file_remove_def node_at_def)
  then show ?thesis using None inv by (auto simp: file_cm_def file_mm_def fun_eq_iff)
next
  case (Some n)
  have wf: "hm_wf d" and e: "entry_ok env P n" using inv Some unfolding file_inv_def by blast+
  have p: "P \<noteq> []" using P by (auto simp: chunk_path_def manifest_path_def)
  obtain c where c: "n = DFile c" "P = chunk_path h \<Longrightarrow> hash_ok h" "P = manifest_path nm \<Longrightarrow> plain nm"
    using e P by (auto simp: entry_chunk entry_manifest path_simps)
  have r: "file_remove d P = (Inr (), hm_remove P d)" using Some c(1) p by (simp add: file_remove_def node_at_def)
  have g: "hm_get (hm_remove P d) q = (if q = P then None else if q \<in> {} then Some DDir else hm_get d q)" for q
    by (simp add: hm_simps)
  note ch = file_change [OF inv hm.wf_remove [OF wf] P g]
  show ?thesis
    using r ch(1) ch(2) c(2) ch(3) c(3) by auto
qed

lemma file_shard:
  assumes "file_inv env d"
  shows "\<exists>d1. create_dir_all d [''chunks'', p] = Some d1 \<and> hm_wf d1 \<and>
    (\<forall>q. hm_get d1 q = (if q = [''chunks'', p] then Some DDir else hm_get d q))"
proof (cases "hm_get d [''chunks'', p]")
  case None
  then show ?thesis using assms by (auto simp: file_inv_def create_dir_all_def hm_simps hm.wf_insert)
next
  case (Some n)
  then have "entry_ok env [''chunks'', p] n" using assms unfolding file_inv_def by blast
  then have "n = DDir" using path_simps by (auto simp: entry_ok_def) metis+
  then show ?thesis using assms Some by (auto simp: file_inv_def create_dir_all_def)
qed

lemma tmp_not_stored:
  assumes "file_inv env d"
  shows "n \<noteq> [] \<Longrightarrow> hm_get d [''chunks'', p, n @ ''.zst.tmp''] = None" "n \<noteq> [] \<Longrightarrow> hm_get d [''manifests'', n @ ''.json.tmp''] = None"
proof -
  have e: "\<And>q n. hm_get d q = Some n \<Longrightarrow> entry_ok env q n" using assms unfolding file_inv_def by blast
  have "n @ ''.zst.tmp'' \<noteq> h @ ''.zst''" "n @ ''.json.tmp'' \<noteq> h @ ''.json''" for h
    by (auto dest: arg_cong [where f = last])
  then have "\<not> entry_ok env [''chunks'', p, n @ ''.zst.tmp''] x" "\<not> entry_ok env [''manifests'', n @ ''.json.tmp''] x" for x
    by (auto simp: entry_ok_def chunk_path_def manifest_path_def)
  then show "hm_get d [''chunks'', p, n @ ''.zst.tmp''] = None" "hm_get d [''manifests'', n @ ''.json.tmp''] = None"
    using e by (metis not_None_eq)+
qed

lemma file_put_ok:
  assumes inv: "file_inv env d" and h: "hash_ok h" "content_hash (env_sha env) b = h"
    and z: "zstd_encode env b = Some c" "zstd_decode env c = Some b" and new: "file_cm env d h = None"
  shows "\<exists>d'. file_put_chunk env d h b = (Inr (), d') \<and> file_inv env d' \<and>
    file_cm env d' = (file_cm env d)(h \<mapsto> b) \<and> file_mm env d' = file_mm env d"
proof -
  let ?p = "[''chunks'', take 2 h]" and ?q = "chunk_path h"
  have q: "?q = ?p @ [h @ ''.zst'']" using h(1) by (simp add: chunk_path_ok)
  have hn: "h \<noteq> []" using h(1) by (auto simp: hash_ok_def)
  have qn: "node_at d ?q = None" using no_file(1) [OF inv new] by (simp add: node_at_path)
  obtain d1 where d1: "create_dir_all d ?p = Some d1" "hm_wf d1" "\<And>q. hm_get d1 q = (if q = ?p then Some DDir else hm_get d q)"
    using file_shard [OF inv] by blast
  have t: "with_extension [''chunks'', take 2 h, h @ ''.zst''] ''zst.tmp'' = [''chunks'', take 2 h, h @ ''.zst.tmp'']"
    using file_stem_ext [OF hn, of "''zst''"] by (simp add: with_extension_def)
  have "hm_get d1 (?p @ [h @ ''.zst.tmp'']) = None"
    using tmp_not_stored(1) [OF inv hn, of "take 2 h"] by (simp add: d1(3))
  then have "\<exists>d'. write_then_rename (\<lambda>x. x) d ?q ''zst.tmp'' (Inr c) = (Inr (), d') \<and>
      (\<forall>q. hm_get d' q = (if q = ?q then Some (DFile c) else hm_get d1 q)) \<and> (hm_wf d1 \<longrightarrow> hm_wf d')"
    using d1(1) qn by (intro write_then_rename_ok) (simp_all add: q t node_at_def d1(3))
  then obtain d' where d': "write_then_rename (\<lambda>x. x) d ?q ''zst.tmp'' (Inr c) = (Inr (), d')" "hm_wf d'"
      "\<And>q. hm_get d' q = (if q = ?q then Some (DFile c) else if q \<in> {?p} then Some DDir else hm_get d q)"
    using d1(2,3) by auto
  have put: "file_put_chunk env d h b = (Inr (), d')" using h(2) qn z(1) d'(1) by (simp add: file_put_chunk_def Let_def)
  have P: "?q = chunk_path h \<or> ?q = manifest_path []" by simp
  have "entry_ok env ?q (DFile c)" using h z(2) by (auto simp: entry_chunk)
  then have "file_inv env d'" "file_cm env d' = (file_cm env d)(h := zstd_decode env c) \<and> file_mm env d' = file_mm env d"
    using file_change(1,2) [OF inv d'(2) P d'(3)] h(1) by (auto simp: q)
  then show ?thesis using put z(2) by auto
qed

lemma file_write_ok:
  assumes inv: "file_inv env d" and n: "plain n" and j: "json_encode env m = Some c" "json_decode env c = Some m"
  shows "\<exists>d'. file_write_manifest env d n m = (Inr (), d') \<and> file_inv env d' \<and>
    file_cm env d' = file_cm env d \<and> file_mm env d' = (file_mm env d)(n \<mapsto> m)"
proof -
  let ?q = "manifest_path n"
  have nn: "n \<noteq> []" using n by (simp add: plain_def)
  have wf: "hm_wf d" and dir: "hm_get d [''manifests''] = Some DDir" using inv by (auto simp: file_inv_def)
  have c: "create_dir_all d [''manifests''] = Some d" by (simp add: create_dir_all_def dir)
  have t: "with_extension ?q ''json.tmp'' = [''manifests'', n @ ''.json.tmp'']"
    using file_stem_ext [OF nn, of "''json''"] by (simp add: with_extension_def manifest_path_def)
  have qn: "hm_get d ?q \<noteq> Some DDir" using inv entry_manifest unfolding file_inv_def by blast
  have "\<exists>d'. write_then_rename (\<lambda>_. ''manifest write'') d ?q ''json.tmp'' (Inr c) = (Inr (), d') \<and>
      (\<forall>q. hm_get d' q = (if q = ?q then Some (DFile c) else hm_get d q)) \<and> (hm_wf d \<longrightarrow> hm_wf d')"
    using c dir qn tmp_not_stored(2) [OF inv nn]
    by (intro write_then_rename_ok) (simp_all add: t [unfolded manifest_path_def] manifest_path_def node_at_def)
  then obtain d' where d': "write_then_rename (\<lambda>_. ''manifest write'') d ?q ''json.tmp'' (Inr c) = (Inr (), d')" "hm_wf d'"
      "\<And>q. hm_get d' q = (if q = ?q then Some (DFile c) else if q \<in> {} then Some DDir else hm_get d q)"
    using wf by auto
  have P: "?q = chunk_path [] \<or> ?q = manifest_path n" by simp
  have "entry_ok env ?q (DFile c)" using n j(2) by (auto simp: entry_manifest)
  then have "file_inv env d'" "file_mm env d' = (file_mm env d)(n := json_decode env c) \<and> file_cm env d' = file_cm env d"
    using file_change(1,3) [OF inv d'(2) P d'(3)] n by (auto simp: manifest_path_def)
  then show ?thesis using d'(1) j by (auto simp: file_write_manifest_def)
qed

interpretation files: chunk_store "file_store env" "file_inv env" "file_cm env" "file_mm env"
  "\<lambda>h b. hash_ok h \<and> content_hash (env_sha env) b = h \<and> (\<exists>c. zstd_encode env b = Some c \<and> zstd_decode env c = Some b)"
  "\<lambda>n m. plain n \<and> (\<exists>c. json_encode env m = Some c \<and> json_decode env c = Some m)" for env
proof (unfold_locales, goal_cases)
  case (1 s) then show ?case using file_list_chunks_dom by (simp add: file_store_def)
next
  case (2 s) then show ?case using file_list_manifests_dom by (simp add: file_store_def)
next
  case (3 s h b)
  then obtain c where c: "hash_ok h" "hm_get s (chunk_path h) = Some (DFile c)" "zstd_decode env c = Some b"
    by (auto simp: file_cm_def split: if_splits option.splits dnode.splits)
  then have "entry_ok env (chunk_path h) (DFile c)" using 3 unfolding file_inv_def by blast
  then have "content_hash (env_sha env) b = h" using c(3) by (auto simp: entry_chunk)
  then show ?case using c by (simp add: file_store_def file_get_chunk_def node_at_path)
next
  case (4 s n m)
  then show ?case
    by (auto simp: file_store_def file_read_manifest_def file_mm_def node_at_path split: if_splits option.splits dnode.splits)
next
  case (5 s h) then show ?case using no_file(1) by (simp add: file_store_def file_get_chunk_def node_at_path)
next
  case (6 s n) then show ?case using no_file(2) by (simp add: file_store_def file_read_manifest_def node_at_path)
next
  case (7 s h b)
  show ?case
  proof (cases "file_cm env s h")
    case None
    then show ?thesis using 7 file_put_ok [of env s h b] by (auto simp: file_store_def)
  next
    case (Some b')
    then have "node_at s (chunk_path h) \<noteq> None" by (auto simp: file_cm_def node_at_path split: if_splits option.splits)
    then show ?thesis using 7 Some by (auto simp: file_store_def file_put_chunk_def)
  qed
next
  case (8 s n m) then show ?case using file_write_ok [of env s n m] by (auto simp: file_store_def)
next
  case (9 s h) then show ?case using file_removed [of env s "chunk_path h" h] by (auto simp: file_store_def file_delete_chunk_def)
next
  case (10 s n) then show ?case using file_removed [of env s "manifest_path n" "[]" n] by (auto simp: file_store_def file_delete_manifest_def)
qed


section \<open>The stores behave as maps\<close>

lemma hex_digit_ok: "n < 16 \<Longrightarrow> hex_digit n \<noteq> CHR ''/''"
  by (auto simp: hex_digit_def dest!: arg_cong [where f = "of_char :: char \<Rightarrow> nat"])

lemma content_hash_ok: "sha b \<noteq> [] \<Longrightarrow> hash_ok (content_hash sha b)"
proof -
  assume b: "sha b \<noteq> []"
  have two: "length (hex_u8 w) = 2" for w by (simp add: hex_u8_def)
  have "length (concat (map hex_u8 x)) = 2 * length x" for x by (induction x) (auto simp: hex_u8_def)
  moreover have "CHR ''/'' \<notin> set (hex_u8 w)" for w
  proof -
    have "unat w < 2 ^ LENGTH(8)" by (rule unsigned_less)
    then have "unat w div 16 < 16" by simp
    then show ?thesis
      using hex_digit_ok [of "unat w div 16"] hex_digit_ok [of "unat w mod 16"] by (auto simp: hex_u8_def)
  qed
  ultimately show ?thesis using b by (cases "sha b") (auto simp: hash_ok_def content_hash_def two)
qed

text \<open>The codecs give back what these calls store, the digest is not empty, and names are file names.\<close>

definition store_op_ok :: "store_env \<Rightarrow> store_op \<Rightarrow> bool" where
  "store_op_ok env op =
     (case op of
        PutOp b \<Rightarrow> env_sha env b \<noteq> [] \<and> (\<exists>c. zstd_encode env b = Some c \<and> zstd_decode env c = Some b)
      | WriteOp n m \<Rightarrow> plain n \<and> (\<exists>c. json_encode env m = Some c \<and> json_decode env c = Some m)
      | _ \<Rightarrow> True)"

definition mem_new :: mem_store where
  "mem_new = \<lparr>mem_chunks = [], mem_manifests = []\<rparr>"

lemma file_new_inv:
  assumes "file_store_new [] = Inr d"
  shows "file_inv env d" "file_cm env d = (\<lambda>_. None)" "file_mm env d = (\<lambda>_. None)"
proof -
  have d: "d = hm_insert [''manifests''] DDir (hm_insert [''chunks''] DDir [])"
    using assms by (simp add: file_store_new_def create_dir_all_def hm_simps)
  show "file_inv env d" by (auto simp: d file_inv_def hm_simps hm.wf_insert entry_ok_def split: if_splits)
  show "file_cm env d = (\<lambda>_. None)" "file_mm env d = (\<lambda>_. None)"
    by (simp_all add: d file_cm_def file_mm_def hm_simps path_simps fun_eq_iff)
qed

text \<open>
  C19. Both stores behave as two maps, over every sequence of puts, manifest writes and deletes and collections: a chunk can be read
  exactly if it was put and no collection since found it in no manifest, and then as it was put; a
  manifest as written last. So a collection removes the chunks that no manifest names and no other, and the store on disk cannot be told from the one in memory.
\<close>

theorem stores_refine_maps:
  assumes "file_store_new [] = Inr d0" "inj_on (content_hash (env_sha env)) (\<Union>op \<in> set ops. put_bytes op)"
    and "\<forall>op \<in> set ops. store_op_ok env op"
    and "foldl (spec_store_step (env_sha env)) (\<lambda>_. None, \<lambda>_. None) ops = (C, M)"
    and "d = foldl (store_step (env_sha env) (file_store env)) d0 ops"
    and "s = foldl (store_step (env_sha env) (memory_store (env_sha env))) mem_new ops"
  shows "file_get_chunk env d h = (case C h of Some b \<Rightarrow> Inr b | None \<Rightarrow> Inl (ChunkMissing h)) \<and>
    mem_get_chunk (env_sha env) s h = file_get_chunk env d h \<and>
    (file_read_manifest env d n = Inr m \<longleftrightarrow> M n = Some m) \<and> (mem_read_manifest s n = Inr m \<longleftrightarrow> M n = Some m)"
proof -
  let ?sha = "env_sha env"
  let ?D = "\<Union>op \<in> set ops. put_bytes op"
  have "file_inv env (foldl (store_step ?sha (file_store env)) d0 ops) \<and>
      (file_cm env (foldl (store_step ?sha (file_store env)) d0 ops), file_mm env (foldl (store_step ?sha (file_store env)) d0 ops)) =
      foldl (spec_store_step ?sha) (file_cm env d0, file_mm env d0) ops"
    by (rule files.run_maps [OF assms(2) file_new_inv(1) [OF assms(1)]])
      (use assms(3) in \<open>auto simp: file_new_inv(2) [OF assms(1)] store_op_ok_def content_hash_ok\<close>)
  then have d: "file_inv env d" "file_cm env d = C" "file_mm env d = M"
    using assms(4,5) file_new_inv(2,3) [OF assms(1), of env] by auto
  have "mem_inv ?sha (foldl (store_step ?sha (memory_store ?sha)) mem_new ops) \<and>
      (hm_get (mem_chunks (foldl (store_step ?sha (memory_store ?sha)) mem_new ops)),
       hm_get (mem_manifests (foldl (store_step ?sha (memory_store ?sha)) mem_new ops))) =
      foldl (spec_store_step ?sha) (hm_get (mem_chunks mem_new), hm_get (mem_manifests mem_new)) ops"
    by (rule mem.run_maps [OF assms(2)]) (auto simp: mem_inv_def mem_new_def)
  moreover have "hm_get (mem_chunks mem_new) = (\<lambda>_. None)" "hm_get (mem_manifests mem_new) = (\<lambda>_. None)"
    by (simp_all add: mem_new_def fun_eq_iff)
  ultimately have s: "mem_inv ?sha s" "hm_get (mem_chunks s) = C" "hm_get (mem_manifests s) = M"
    using assms(4,6) by auto
  show ?thesis
    using files.reads(1) [OF d(1), of h] files.reads(2) [OF d(1), of n m] mem.reads(1) [OF s(1), of h] mem.reads(2) [OF s(1), of n m] d s
    by (simp add: file_store_def memory_store_def)
qed

definition ex_env :: store_env where
  "ex_env = \<lparr>env_sha = (\<lambda>b. b), zstd_encode = (\<lambda>b. Some (rev b)), zstd_decode = (\<lambda>c. Some (rev c)),
     json_encode = (\<lambda>m. if m = (ex_snap ''a'' 3)\<lparr>chunk_ids := [''01'']\<rparr> then Some [7] else None),
     json_decode = (\<lambda>c. if c = [7] then Some ((ex_snap ''a'' 3)\<lparr>chunk_ids := [''01'']\<rparr>) else None)\<rparr>"

theorem stores_refine_maps_witness:
  "let m = (ex_snap ''a'' 3)\<lparr>chunk_ids := [''01'']\<rparr>; ops = [PutOp [1], PutOp [2], WriteOp ''n'' m, CollectOp];
       d = foldl (store_step (\<lambda>b. b) (file_store ex_env)) [([''chunks''], DDir), ([''manifests''], DDir)] ops
   in file_get_chunk ex_env d ''01'' = Inr [1] \<and> file_get_chunk ex_env d ''02'' = Inl (ChunkMissing ''02'') \<and>
      file_read_manifest ex_env d ''n'' = Inr m"
proof -
  let ?m = "(ex_snap ''a'' 3)\<lparr>chunk_ids := [''01'']\<rparr>"
  let ?ops = "[PutOp [1], PutOp [2], WriteOp ''n'' ?m, CollectOp]"
  let ?d = "foldl (store_step (\<lambda>b. b) (file_store ex_env)) [([''chunks''], DDir), ([''manifests''], DDir)] ?ops"
  have sha: "env_sha ex_env = (\<lambda>b. b)" by (simp add: ex_env_def)
  have new: "file_store_new [] = Inr [([''chunks''], DDir), ([''manifests''], DDir)]" by code_simp
  have hs: "content_hash (\<lambda>b. b) [1] = ''01''" "content_hash (\<lambda>b. b) [2] = ''02''" by code_simp+
  have inj: "inj_on (content_hash (env_sha ex_env)) (\<Union>op \<in> set ?ops. put_bytes op)" by (simp add: put_bytes_def sha hs)
  have ok: "\<forall>op \<in> set ?ops. store_op_ok ex_env op" by (simp add: store_op_ok_def ex_env_def plain_def)
  have sp: "foldl (spec_store_step (env_sha ex_env)) (\<lambda>_. None, \<lambda>_. None) ?ops = ([''01'' \<mapsto> [1]], [''n'' \<mapsto> ?m])"
    by (auto simp: spec_store_step_def sha hs restrict_map_def fun_eq_iff)
  note r = stores_refine_maps [OF new inj ok sp refl refl, unfolded sha]
  show ?thesis
    using r [of "''01''" "''n''" ?m] r [of "''02''" "''n''" ?m] by (simp add: Let_def del: foldl.simps)
qed

lemma mark_fails: "n \<in> set ns \<Longrightarrow> read_manifest st s n = Inl e \<Longrightarrow> \<exists>e. gc_mark st s ns refs = Inl e"
  by (induction ns arbitrary: refs) (auto simp: rbind_eq_Inl rbind_def split: sum.splits)

lemma read_all_fails: "n \<in> set ns \<Longrightarrow> read_manifest st s n = Inl e \<Longrightarrow> \<exists>e. read_all st s ns names ms = Inl e"
  by (induction ns arbitrary: names ms) (auto simp: rbind_eq_Inl rbind_def split: sum.splits)

text \<open>
  C39. A manifest write that is interrupted between the write of its temporary file and the rename leaves a file that every
  later listing takes for a manifest. From then on the collection and the retention fail with an error, whatever else the store holds, until the file is removed by hand.
\<close>

theorem stale_tmp_blocks_gc:
  assumes "hm_wf d" "hm_get d [''manifests''] = Some DDir" "n \<noteq> []"
    and "hm_get d (with_extension (manifest_path n) ''json.tmp'') = Some (DFile b)" "hm_get d (manifest_path (n @ ''.json'')) = None"
  shows "\<exists>e e'. gc_offline (file_store env) d = (Inl e, d) \<and> apply_retention_offline (file_store env) cal p d = (Inl e', d)"
proof -
  have t: "with_extension (manifest_path n) ''json.tmp'' = [''manifests''] @ [n @ ''.json.tmp'']"
    using file_stem_ext [OF assms(3), of "''json''"] by (simp add: with_extension_def manifest_path_def)
  have "(n @ ''.json.tmp'', DFile b) \<in> set (children d [''manifests''])"
    using children_iff [OF assms(1)] assms(4) unfolding t by blast
  moreover have "file_stem (n @ ''.json.tmp'') = n @ ''.json''" using file_stem_ext [of "n @ ''.json''" "''tmp''"] by simp
  ultimately obtain ns where ns: "list_manifests (file_store env) d = Inr ns" "n @ ''.json'' \<in> set ns"
    by (force simp: file_store_def file_list_manifests_def read_dir_def node_at_def assms(2))
  have f: "read_manifest (file_store env) d (n @ ''.json'') = Inl (SnapshotNotFound ''not found'')"
    by (simp add: file_store_def file_read_manifest_def node_at_path assms(5))
  obtain e e' where "gc_mark (file_store env) d ns {} = Inl e" "read_all (file_store env) d ns [] [] = Inl e'"
    using mark_fails [OF ns(2) f] read_all_fails [OF ns(2) f] by blast
  then show ?thesis using ns(1) by (simp add: gc_offline_def apply_retention_offline_def)
qed

theorem stale_tmp_blocks_gc_witness:
  "\<exists>e e'. let d = [([''manifests''], DDir), ([''manifests'', ''n.json.tmp''], DFile [])] in
     gc_offline (file_store ex_env) d = (Inl e, d) \<and> apply_retention_offline (file_store ex_env) ex_calendar default_policy d = (Inl e', d)"
proof -
  let ?d = "[([''manifests''], DDir), ([''manifests'', ''n.json.tmp''], DFile [])]"
  have "hm_wf ?d" by (simp add: hm_wf_def)
  moreover have "hm_get ?d [''manifests''] = Some DDir" by code_simp
  moreover have "hm_get ?d (with_extension (manifest_path ''n'') ''json.tmp'') = Some (DFile [])" by code_simp
  moreover have "hm_get ?d (manifest_path (''n'' @ ''.json'')) = None" by code_simp
  ultimately show ?thesis
    using stale_tmp_blocks_gc [of ?d "''n''" "[]" ex_env ex_calendar default_policy] by (simp only: Let_def) blast
qed

text \<open>
  The retention on a store on disk: exactly the manifests that the policy selects stay, and every chunk that one of them names reads as before.
\<close>

theorem file_retention_exact:
  assumes d: "file_inv env d"
    and u: "\<forall>n n' m m'. file_mm env d n = Some m \<longrightarrow> file_mm env d n' = Some m' \<longrightarrow> snap_id m = snap_id m' \<longrightarrow> n = n'"
  shows "\<exists>ms k d'. set ms = ran (file_mm env d) \<and> apply_retention_offline (file_store env) cal p d = (Inr k, d') \<and>
    (\<forall>n m. file_read_manifest env d' n = Inr m \<longleftrightarrow> file_read_manifest env d n = Inr m \<and> snap_id m \<in> select_keep cal p ms) \<and>
    (\<forall>n m h. file_read_manifest env d' n = Inr m \<longrightarrow> h \<in> set (chunk_ids m) \<longrightarrow> file_get_chunk env d' h = file_get_chunk env d h)"
proof -
  from files.retention_exact [OF d u, of cal p] obtain ms k d' where d': "set ms = ran (file_mm env d)"
    "apply_retention_offline (file_store env) cal p d = (Inr k, d')" "file_inv env d'"
    "file_mm env d' = (\<lambda>n. case file_mm env d n of Some m \<Rightarrow> if snap_id m \<in> select_keep cal p ms then Some m else None | None \<Rightarrow> None)"
    "file_cm env d' = file_cm env d |` (\<Union>m \<in> ran (file_mm env d'). set (chunk_ids m))" by blast
  have rm: "file_read_manifest env x n = Inr m \<longleftrightarrow> file_mm env x n = Some m" if "file_inv env x" for x n m
    using files.reads(2) [OF that, of n m] by (simp add: file_store_def)
  have rc: "file_get_chunk env x h = (case file_cm env x h of Some b \<Rightarrow> Inr b | None \<Rightarrow> Inl (ChunkMissing h))" if "file_inv env x" for x h
    using files.reads(1) [OF that, of h] by (simp add: file_store_def)
  have "file_read_manifest env d' n = Inr m \<longleftrightarrow> file_read_manifest env d n = Inr m \<and> snap_id m \<in> select_keep cal p ms" for n m
    by (auto simp: rm [OF d] rm [OF d'(3)] d'(4) split: option.splits if_splits)
  moreover have "file_get_chunk env d' h = file_get_chunk env d h"
    if "file_read_manifest env d' n = Inr m" "h \<in> set (chunk_ids m)" for n m h
  proof -
    have "m \<in> ran (file_mm env d')" using that(1) by (auto simp: rm [OF d'(3)] ran_def)
    then have "file_cm env d' h = file_cm env d h" unfolding d'(5) using that(2) by (auto simp: restrict_map_def)
    then show ?thesis by (simp add: rc [OF d] rc [OF d'(3)])
  qed
  ultimately show ?thesis using d'(1,2) by blast
qed

end
