(* ===== verification/Baseline.thy ===== *)
theory Baseline
  imports Rust_Float
begin

text \<open>
  Declarative baselines (\<open>crates/runesh-baseline/src/lib.rs\<close> and \<open>checker.rs\<close>): declarations, inheritance with cycle
  detection, substitution of variables, and the check of a baseline against the state of a system.

  A JSON value is a string or the text that serde_json prints for it. Version requirements (semver), the listings of the firewall tools and
  the shell that runs custom checks are parameters. The walk over the ancestors may go on for ever if the lookup
  invents baselines; then its value is \<open>None\<close>.
\<close>

section \<open>Baselines\<close>

datatype baseline_error = InheritanceCycle "string list" | ParentNotFound string

datatype enforcement_mode = AuditMode | NotifyMode | EnforceMode

datatype service_state = Running | Stopped

datatype json_value = JString string | JOther string

datatype state_declaration =
  Package string "string option" bool
| Service string service_state bool
| FileDecl string "string option" "string option" "string option" bool
| Firewall string bool
| User string "string list" bool
| Setting string json_value
| Custom string string "string option"

record baseline =
  baseline_name :: string
  inherits :: "string option"
  mode :: enforcement_mode
  vars :: "(string, string) hash_map"
  decls :: "state_declaration list"

type_synonym decl_key = "string \<times> string"

fun declaration_key :: "state_declaration \<Rightarrow> decl_key" where
  "declaration_key (Package n _ _) = (''package'', n)"
| "declaration_key (Service n _ _) = (''service'', n)"
| "declaration_key (FileDecl p _ _ _ _) = (''file'', p)"
| "declaration_key (Firewall r _) = (''firewall'', r)"
| "declaration_key (User n _ _) = (''user'', n)"
| "declaration_key (Setting k _) = (''setting'', k)"
| "declaration_key (Custom n _ _) = (''custom'', n)"

fun merge_loop :: "state_declaration list \<Rightarrow> (decl_key, state_declaration) hash_map \<Rightarrow> decl_key list \<Rightarrow>
    (decl_key, state_declaration) hash_map \<times> decl_key list" where
  "merge_loop [] by_key order = (by_key, order)"
| "merge_loop (d # ds) by_key order =
     (let key = declaration_key d in
      merge_loop ds (hm_insert key d by_key) (if hm_contains by_key key then order else order @ [key]))"

fun take_keys :: "decl_key list \<Rightarrow> (decl_key, state_declaration) hash_map \<Rightarrow> state_declaration list" where
  "take_keys [] by_key = []"
| "take_keys (k # ks) by_key =
     (case hm_get by_key k of
        Some d \<Rightarrow> d # take_keys ks (hm_remove k by_key)
      | None \<Rightarrow> take_keys ks by_key)"

definition default_vars :: "(string, string) hash_map \<Rightarrow> (string, string) hash_map \<Rightarrow> (string, string) hash_map" where
  "default_vars parent own = foldl (\<lambda>vs (k, v). if hm_contains vs k then vs else hm_insert k v vs) own parent"

definition merge_parent :: "baseline \<Rightarrow> baseline \<Rightarrow> baseline" where
  "merge_parent parent self =
     (let (by_key, order) = merge_loop (decls parent @ decls self) [] []
      in self\<lparr>vars := default_vars (vars parent) (vars self), decls := take_keys order by_key\<rparr>)"

partial_function (option) compose_walk ::
    "(string \<Rightarrow> baseline option) \<Rightarrow> string list \<Rightarrow> string set \<Rightarrow> baseline list \<Rightarrow> string option \<Rightarrow>
     (baseline_error + baseline list) option" where
  "compose_walk lookup chain visited ancestors cur =
     (case cur of
        None \<Rightarrow> Some (Inr ancestors)
      | Some pid \<Rightarrow>
          if pid \<in> visited then Some (Inl (InheritanceCycle (chain @ [pid])))
          else (case lookup pid of
             None \<Rightarrow> Some (Inl (ParentNotFound pid))
           | Some parent \<Rightarrow>
               compose_walk lookup (chain @ [pid]) (insert pid visited) (ancestors @ [parent]) (inherits parent)))"

definition compose :: "(string \<Rightarrow> baseline option) \<Rightarrow> baseline \<Rightarrow> (baseline_error + baseline) option" where
  "compose lookup self =
     map_option (\<lambda>r. rbind r (\<lambda>ancestors. Inr (foldl (\<lambda>self ancestor. merge_parent ancestor self) self (rev ancestors))))
       (compose_walk lookup [baseline_name self] {baseline_name self} [] (inherits self))"

definition substitute :: "string \<Rightarrow> (string, string) hash_map \<Rightarrow> string" where
  "substitute s vs = foldl (\<lambda>result (k, v). str_replace (''${'' @ k @ ''}'') v result) s vs"

definition resolve_decl :: "(string, string) hash_map \<Rightarrow> state_declaration \<Rightarrow> state_declaration" where
  "resolve_decl vs d =
     (case d of
        FileDecl p (Some c) m ow pr \<Rightarrow> FileDecl p (Some (substitute c vs)) m ow pr
      | Setting k (JString s) \<Rightarrow> Setting k (JString (substitute s vs))
      | _ \<Rightarrow> d)"

definition resolve_vars :: "baseline \<Rightarrow> baseline" where
  "resolve_vars b = b\<lparr>decls := map (resolve_decl (vars b)) (decls b)\<rparr>"

section \<open>The check\<close>

datatype drift_severity = Compliant | Drifted | Missing | Extra | Unknown

record drift =
  drift_of :: string
  expected :: string
  actual :: string
  severity :: drift_severity

record compliance_report =
  report_name :: string
  total_count :: nat
  compliant :: nat
  drifted :: nat
  missing :: nat
  unknown :: nat
  entries :: "drift list"

record system_state =
  packages :: "(string, string) hash_map"
  services :: "(string, bool) hash_map"
  services_enabled :: "(string, bool) hash_map"
  files :: "(string, string option) hash_map"
  users :: "(string, string list) hash_map"
  settings :: "(string, string) hash_map"

text \<open>
  \<open>target_os\<close> is the platform the crate is compiled for. \<open>semver req\<close> is the parsed requirement, which answers for an installed version if that parses; a tool's listing is its exit status and output if
  it could be started; \<open>shell\<close> gives the exit code, none when a signal killed the command, or the error of the start.
\<close>

datatype platform = Linux | Windows | MacOs | OtherOs

record check_env =
  target_os :: platform
  semver :: "string \<Rightarrow> (string \<Rightarrow> bool option) option"
  netsh :: "string \<Rightarrow> string option"
  pfctl :: "(bool \<times> string) option"
  nft :: "(bool \<times> string) option"
  iptables_save :: "(bool \<times> string) option"
  ip6tables_save :: "(bool \<times> string) option"
  shell :: "string \<Rightarrow> string + int option"

definition version_satisfies :: "check_env \<Rightarrow> string \<Rightarrow> string \<Rightarrow> bool" where
  "version_satisfies env actual_v expected_v =
     (case semver env expected_v of
        None \<Rightarrow> actual_v = expected_v
      | Some req \<Rightarrow> (case req actual_v of None \<Rightarrow> actual_v = expected_v | Some b \<Rightarrow> b))"

definition rule_char :: "char \<Rightarrow> bool" where
  "rule_char c = (is_ascii_alphanumeric c \<or> c \<in> set '' -_.:/()'')"

definition linux_rule_present :: "check_env \<Rightarrow> string \<Rightarrow> bool option" where
  "linux_rule_present env rule =
     (let saved = (case iptables_save env of
             Some (True, t) \<Rightarrow> Some (contains_str rule t)
           | _ \<Rightarrow> (case ip6tables_save env of Some (True, t) \<Rightarrow> Some (contains_str rule t) | _ \<Rightarrow> None))
      in case nft env of
           Some (True, t) \<Rightarrow> if t \<noteq> [] then Some (contains_str rule t) else saved
         | _ \<Rightarrow> saved)"

definition firewall_rule_present :: "check_env \<Rightarrow> string \<Rightarrow> bool option" where
  "firewall_rule_present env rule =
     (if rule = [] \<or> length rule > 200 then None
      else if \<not> list_all rule_char rule then None
      else case target_os env of
        Windows \<Rightarrow>
          (case netsh env rule of
             None \<Rightarrow> None
           | Some t \<Rightarrow> if contains_str ''no rules match'' (to_ascii_lowercase t) then Some False else Some (contains_str ''Rule Name:'' t))
      | Linux \<Rightarrow> linux_rule_present env rule
      | MacOs \<Rightarrow> (case pfctl env of Some (True, t) \<Rightarrow> Some (contains_str rule t) | _ \<Rightarrow> None)
      | OtherOs \<Rightarrow> None)"

datatype custom_outcome = CustomCompliant | NonZero int | InvalidCommand string | CouldNotRun string

definition run_custom_check :: "check_env \<Rightarrow> string \<Rightarrow> custom_outcome" where
  "run_custom_check env command =
     (if command = [] then InvalidCommand ''empty''
      else if CHR 0x00 \<in> set command then InvalidCommand ''null byte in command''
      else if length command > 4096 then InvalidCommand ''command too long''
      else case shell env command of
        Inr (Some code) \<Rightarrow> if code = 0 then CustomCompliant else NonZero code
      | Inr None \<Rightarrow> NonZero (-1)
      | Inl e \<Rightarrow> CouldNotRun e)"

definition show_service_state :: "service_state \<Rightarrow> string" where
  "show_service_state s = (case s of Running \<Rightarrow> ''Running'' | Stopped \<Rightarrow> ''Stopped'')"

definition mk_drift :: "string \<Rightarrow> string \<Rightarrow> string \<Rightarrow> drift_severity \<Rightarrow> drift" where
  "mk_drift d e a s = \<lparr>drift_of = d, expected = e, actual = a, severity = s\<rparr>"

definition check_package :: "check_env \<Rightarrow> system_state \<Rightarrow> string \<Rightarrow> string option \<Rightarrow> bool \<Rightarrow> drift" where
  "check_package env st n version present =
     (let decl = ''package:'' @ n in
      case (present, hm_get (packages st) n) of
        (True, None) \<Rightarrow> mk_drift decl (''installed'' @ (case version of Some v \<Rightarrow> '' >= '' @ v | None \<Rightarrow> [])) ''not installed'' Missing
      | (True, Some ver) \<Rightarrow>
          (case version of
             Some req \<Rightarrow>
               if \<not> version_satisfies env ver req then mk_drift decl (''version '' @ req) (''version '' @ ver) Drifted
               else mk_drift decl ''installed'' (''installed ('' @ ver @ '')'') Compliant
           | None \<Rightarrow> mk_drift decl ''installed'' (''installed ('' @ ver @ '')'') Compliant)
      | (False, Some _) \<Rightarrow> mk_drift decl ''not installed'' ''installed'' Drifted
      | (False, None) \<Rightarrow> mk_drift decl ''not installed'' ''not installed'' Compliant)"

definition check_service :: "system_state \<Rightarrow> string \<Rightarrow> service_state \<Rightarrow> bool \<Rightarrow> drift" where
  "check_service st n desired enabled =
     (let decl = ''service:'' @ n; is_enabled = hm_get (services_enabled st) n in
      case hm_get (services st) n of
        None \<Rightarrow> mk_drift decl (show_service_state desired) ''not found'' Missing
      | Some is_running \<Rightarrow>
          (let state_ok = (is_running = (desired = Running));
               enabled_ok = (case is_enabled of Some e \<Rightarrow> e = enabled | None \<Rightarrow> True)
           in if state_ok \<and> enabled_ok then mk_drift decl (show_service_state desired) (show_service_state desired) Compliant
              else mk_drift decl (show_service_state desired @ '', enabled='' @ show_bool enabled)
                     ((if is_running then ''running'' else ''stopped'') @
                      (case is_enabled of Some e \<Rightarrow> if e then '', enabled'' else '', disabled'' | None \<Rightarrow> [])) Drifted))"

definition check_file :: "system_state \<Rightarrow> string \<Rightarrow> string option \<Rightarrow> bool \<Rightarrow> drift" where
  "check_file st p content present =
     (let decl = ''file:'' @ p in
      case (present, hm_contains (files st) p) of
        (True, False) \<Rightarrow> mk_drift decl ''present'' ''missing'' Missing
      | (False, True) \<Rightarrow> mk_drift decl ''absent'' ''present'' Drifted
      | (False, False) \<Rightarrow> mk_drift decl ''absent'' ''absent'' Compliant
      | (True, True) \<Rightarrow>
          (case content of
             Some want \<Rightarrow>
               (case Option.bind (hm_get (files st) p) (\<lambda>c. c) of
                  Some c \<Rightarrow>
                    if c = want then mk_drift decl ''content matches'' ''content matches'' Compliant
                    else mk_drift decl ''specific content'' ''content differs'' Drifted
                | None \<Rightarrow> mk_drift decl ''specific content'' ''content not read'' Drifted)
           | None \<Rightarrow> mk_drift decl ''present'' ''present'' Compliant))"

definition check_user :: "system_state \<Rightarrow> string \<Rightarrow> string list \<Rightarrow> bool \<Rightarrow> drift" where
  "check_user st n groups present =
     (let decl = ''user:'' @ n in
      case (present, hm_get (users st) n) of
        (True, None) \<Rightarrow> mk_drift decl ''present'' ''missing'' Missing
      | (False, Some _) \<Rightarrow> mk_drift decl ''absent'' ''present'' Drifted
      | (False, None) \<Rightarrow> mk_drift decl ''absent'' ''absent'' Compliant
      | (True, Some actual_groups) \<Rightarrow>
          (let missing = filter (\<lambda>g. g \<notin> set actual_groups) groups; want = ''groups: '' @ join_with '','' groups in
           if missing = [] then mk_drift decl want (''groups: '' @ join_with '','' actual_groups) Compliant
           else mk_drift decl want (''missing groups: '' @ join_with '','' missing) Drifted))"

definition setting_text :: "json_value \<Rightarrow> string" where
  "setting_text v = (case v of JString s \<Rightarrow> s | JOther s \<Rightarrow> s)"

definition check_setting :: "system_state \<Rightarrow> string \<Rightarrow> json_value \<Rightarrow> drift" where
  "check_setting st key v =
     (let decl = ''setting:'' @ key; want = setting_text v in
      case hm_get (settings st) key of
        None \<Rightarrow> mk_drift decl want ''not set'' Missing
      | Some a \<Rightarrow> if a = want then mk_drift decl want a Compliant else mk_drift decl want a Drifted)"

definition check_firewall :: "check_env \<Rightarrow> string \<Rightarrow> bool \<Rightarrow> drift" where
  "check_firewall env rule present =
     (let decl = ''firewall:'' @ rule; label = (\<lambda>b. if b then ''present'' else ''absent'') in
      case firewall_rule_present env rule of
        None \<Rightarrow> mk_drift decl (label present) ''firewall tool unavailable or rule not introspectable'' Unknown
      | Some is_present \<Rightarrow>
          if is_present = present then mk_drift decl (label present) (label is_present) Compliant
          else mk_drift decl (label present) (label is_present) (if present then Missing else Extra))"

definition check_custom :: "check_env \<Rightarrow> string \<Rightarrow> string \<Rightarrow> drift" where
  "check_custom env n command =
     (let decl = ''custom:'' @ n; want = [CHR 0x27] @ command @ [CHR 0x27] @ '' exits 0'' in
      case run_custom_check env command of
        CustomCompliant \<Rightarrow> mk_drift decl want ''exit 0'' Compliant
      | NonZero code \<Rightarrow> mk_drift decl want (''exit '' @ show_int code) Drifted
      | InvalidCommand reason \<Rightarrow> mk_drift decl want (''invalid command: '' @ reason) Unknown
      | CouldNotRun e \<Rightarrow> mk_drift decl want (''spawn failed: '' @ e) Unknown)"

fun check_declaration :: "check_env \<Rightarrow> system_state \<Rightarrow> state_declaration \<Rightarrow> drift" where
  "check_declaration env st (Package n v p) = check_package env st n v p"
| "check_declaration env st (Service n s e) = check_service st n s e"
| "check_declaration env st (FileDecl p c _ _ pr) = check_file st p c pr"
| "check_declaration env st (User n gs p) = check_user st n gs p"
| "check_declaration env st (Setting k v) = check_setting st k v"
| "check_declaration env st (Firewall r p) = check_firewall env r p"
| "check_declaration env st (Custom n c _) = check_custom env n c"

definition add_drift :: "compliance_report \<Rightarrow> drift \<Rightarrow> compliance_report" where
  "add_drift r d =
     (case severity d of
        Compliant \<Rightarrow> r\<lparr>compliant := compliant r + 1\<rparr>
      | Drifted \<Rightarrow> r\<lparr>drifted := drifted r + 1, entries := entries r @ [d]\<rparr>
      | Missing \<Rightarrow> r\<lparr>missing := missing r + 1, entries := entries r @ [d]\<rparr>
      | Extra \<Rightarrow> r\<lparr>entries := entries r @ [d]\<rparr>
      | Unknown \<Rightarrow> r\<lparr>unknown := unknown r + 1, entries := entries r @ [d]\<rparr>)"

definition check_compliance :: "check_env \<Rightarrow> baseline \<Rightarrow> system_state \<Rightarrow> compliance_report" where
  "check_compliance env b st =
     foldl (\<lambda>r d. add_drift r (check_declaration env st d))
       \<lparr>report_name = baseline_name b, total_count = length (decls b), compliant = 0, drifted = 0, missing = 0, unknown = 0, entries = []\<rparr>
       (decls b)"

definition compliance_percent :: "compliance_report \<Rightarrow> f64" where
  "compliance_percent r =
     (if total_count r = 0 then Fin 100
      else f64_mul (f64_div (f64_of_nat (compliant r)) (f64_of_nat (total_count r))) (Fin 100))"

definition is_compliant :: "compliance_report \<Rightarrow> bool" where
  "is_compliant r = (drifted r = 0 \<and> missing r = 0)"

section \<open>Inheritance\<close>

text \<open>The declaration that counts for a key: the last one in a list.\<close>

definition effective :: "state_declaration list \<Rightarrow> decl_key \<Rightarrow> state_declaration option" where
  "effective ds k = map_of (rev (map (\<lambda>d. (declaration_key d, d)) ds)) k"

lemma effective_Nil [simp]: "effective [] k = None"
  by (simp add: effective_def)

lemma effective_append: "effective (xs @ ys) k = (case effective ys k of Some d \<Rightarrow> Some d | None \<Rightarrow> effective xs k)"
  by (simp add: effective_def map_add_def split: option.splits)

lemma effective_Cons: "effective (d # ds) k =
    (case effective ds k of Some d' \<Rightarrow> Some d' | None \<Rightarrow> if declaration_key d = k then Some d else None)"
  using effective_append [of "[d]" ds k] by (simp add: effective_def cong: option.case_cong)

lemma effective_distinct:
  assumes "distinct (map declaration_key ds)"
  shows "effective ds k = Some d \<longleftrightarrow> d \<in> set ds \<and> declaration_key d = k"
proof -
  have "distinct (map fst (rev (map (\<lambda>d. (declaration_key d, d)) ds)))"
    using assms by (simp add: rev_map [symmetric] comp_def)
  then show ?thesis by (auto simp: effective_def)
qed

lemma merge_loop_ok:
  assumes "hm_wf m" "distinct order" "\<forall>k. k \<in> set order \<longleftrightarrow> hm_get m k \<noteq> None" "merge_loop ds m order = (m', order')"
  shows "hm_wf m' \<and> distinct order' \<and> (\<forall>k. k \<in> set order' \<longleftrightarrow> hm_get m' k \<noteq> None) \<and>
    (\<forall>k. hm_get m' k = (case effective ds k of Some d \<Rightarrow> Some d | None \<Rightarrow> hm_get m k))"
  using assms
proof (induction ds arbitrary: m order)
  case (Cons d ds)
  let ?k = "declaration_key d"
  have "merge_loop ds (hm_insert ?k d m) (if hm_contains m ?k then order else order @ [?k]) = (m', order')"
    using Cons.prems(4) by (simp add: Let_def)
  moreover have "distinct (if hm_contains m ?k then order else order @ [?k])"
      "\<forall>k. k \<in> set (if hm_contains m ?k then order else order @ [?k]) \<longleftrightarrow> hm_get (hm_insert ?k d m) k \<noteq> None"
    using Cons.prems(2) spec [OF Cons.prems(3)] by (simp_all add: hm_contains_def hm_simps)
  ultimately have "hm_wf m' \<and> distinct order' \<and> (\<forall>k. k \<in> set order' \<longleftrightarrow> hm_get m' k \<noteq> None) \<and>
      (\<forall>k. hm_get m' k = (case effective ds k of Some d \<Rightarrow> Some d | None \<Rightarrow> hm_get (hm_insert ?k d m) k))"
    using Cons.IH hm.wf_insert [OF Cons.prems(1)] by blast
  then show ?case by (simp add: effective_Cons hm_simps split: option.splits)
qed simp

lemma take_keys_map:
  "distinct ks \<Longrightarrow> \<forall>k \<in> set ks. hm_get m k \<noteq> None \<Longrightarrow> take_keys ks m = map (\<lambda>k. the (hm_get m k)) ks"
proof (induction ks arbitrary: m)
  case (Cons k ks)
  then obtain d where "hm_get m k = Some d" by auto
  moreover have "map (\<lambda>x. the (hm_get (hm_remove k m) x)) ks = map (\<lambda>x. the (hm_get m x)) ks"
    using Cons.prems(1) by (auto simp: hm_simps)
  moreover have "\<forall>x \<in> set ks. hm_get (hm_remove k m) x \<noteq> None" using Cons.prems by (auto simp: hm_simps)
  then have "take_keys ks (hm_remove k m) = map (\<lambda>x. the (hm_get (hm_remove k m) x)) ks"
    using Cons.IH Cons.prems(1) by simp
  ultimately show ?case by simp
qed simp

lemma effective_key: "effective ds k = Some d \<Longrightarrow> declaration_key d = k"
  by (auto simp: effective_def dest: map_of_SomeD)

lemma merged_keys:
  assumes "merge_loop ds [] [] = (m, ks)"
  shows "distinct ks" "k \<in> set ks \<longleftrightarrow> hm_get m k \<noteq> None" "hm_get m k = effective ds k"
proof -
  have e: "hm_wf ([] :: (decl_key, state_declaration) hash_map)" by (simp add: hm_wf_def)
  have n: "\<forall>k :: decl_key. k \<in> set [] \<longleftrightarrow> hm_get ([] :: (decl_key, state_declaration) hash_map) k \<noteq> None" by simp
  note ok = merge_loop_ok [OF e distinct.simps(1) [THEN iffD2, OF TrueI] n assms]
  show "distinct ks" using ok by (rule conjunct1 [OF conjunct2])
  show "k \<in> set ks \<longleftrightarrow> hm_get m k \<noteq> None"
    using spec [OF conjunct1 [OF conjunct2 [OF conjunct2 [OF ok]]], of k] .
  show "hm_get m k = effective ds k"
    using spec [OF conjunct2 [OF conjunct2 [OF conjunct2 [OF ok]]], of k] by (simp split: option.splits)
qed

lemma effective_keyed:
  assumes "distinct ks" "\<And>k. k \<in> set ks \<Longrightarrow> declaration_key (f k) = k"
  shows "map declaration_key (map f ks) = ks" "effective (map f ks) k = (if k \<in> set ks then Some (f k) else None)"
proof -
  show keys: "map declaration_key (map f ks) = ks" using assms(2) by (simp add: map_idI)
  then have dist: "distinct (map declaration_key (map f ks))" using assms(1) by simp
  show "effective (map f ks) k = (if k \<in> set ks then Some (f k) else None)"
  proof (cases "k \<in> set ks")
    case True
    then show ?thesis using effective_distinct [OF dist, of k "f k"] assms(2) by simp
  next
    case False
    then have "\<forall>d. effective (map f ks) k \<noteq> Some d"
      using effective_distinct [OF dist, of k] assms(2) by auto
    then show ?thesis using False by (cases "effective (map f ks) k") auto
  qed
qed

lemma merge_parent_decls:
  "distinct (map declaration_key (decls (merge_parent p s)))"
  "effective (decls (merge_parent p s)) k = (case effective (decls s) k of Some d \<Rightarrow> Some d | None \<Rightarrow> effective (decls p) k)"
proof -
  obtain m ks where mk: "merge_loop (decls p @ decls s) [] [] = (m, ks)" by (cases "merge_loop (decls p @ decls s) [] []")
  note mm = merged_keys [OF mk]
  have d: "decls (merge_parent p s) = map (\<lambda>k. the (hm_get m k)) ks"
    using mk mm(1,2) by (simp add: merge_parent_def take_keys_map)
  have key: "declaration_key (the (hm_get m k)) = k" if k: "k \<in> set ks" for k
  proof -
    obtain x where "hm_get m k = Some x" using k mm(2) [of k] by auto
    then show ?thesis using mm(3) [of k] effective_key [of _ k x] by simp
  qed
  show "distinct (map declaration_key (decls (merge_parent p s)))"
    unfolding d using effective_keyed(1) [OF mm(1) key] mm(1) by simp
  have "effective (decls (merge_parent p s)) k = hm_get m k"
    unfolding d using effective_keyed(2) [OF mm(1) key, of k] mm(2) [of k] by (cases "hm_get m k") simp_all
  then show "effective (decls (merge_parent p s)) k = (case effective (decls s) k of Some d \<Rightarrow> Some d | None \<Rightarrow> effective (decls p) k)"
    using mm(3) [of k] by (simp add: effective_append)
qed

lemma default_vars_get:
  "hm_get (default_vars p own) k = (case hm_get own k of Some v \<Rightarrow> Some v | None \<Rightarrow> hm_get p k)"
proof -
  have "hm_get (foldl (\<lambda>vs (k, v). if hm_contains vs k then vs else hm_insert k v vs) own p) k =
      (case hm_get own k of Some v \<Rightarrow> Some v | None \<Rightarrow> map_of p k)"
  proof (induction p arbitrary: own)
    case (Cons e p)
    then show ?case by (cases e) (simp add: hm_contains_def hm_simps split: option.splits)
  qed (simp split: option.splits)
  then show ?thesis by (simp add: default_vars_def hm_get_def cong: option.case_cong)
qed

primrec first_decl :: "baseline list \<Rightarrow> decl_key \<Rightarrow> state_declaration option" where
  "first_decl [] k = None"
| "first_decl (b # bs) k = (case effective (decls b) k of Some d \<Rightarrow> Some d | None \<Rightarrow> first_decl bs k)"

primrec first_var :: "baseline list \<Rightarrow> string \<Rightarrow> string option" where
  "first_var [] k = None"
| "first_var (b # bs) k = (case hm_get (vars b) k of Some v \<Rightarrow> Some v | None \<Rightarrow> first_var bs k)"

lemma merged_lookup:
  "effective (decls (foldl (\<lambda>self a. merge_parent a self) s as)) k = first_decl (s # as) k"
  "hm_get (vars (foldl (\<lambda>self a. merge_parent a self) s as)) x = first_var (s # as) x"
proof -
  have v: "vars (merge_parent p s) = default_vars (vars p) (vars s)" for p s
    by (simp add: merge_parent_def split: prod.splits)
  show "effective (decls (foldl (\<lambda>self a. merge_parent a self) s as)) k = first_decl (s # as) k"
    by (induction as arbitrary: s) (simp_all add: merge_parent_decls split: option.splits)
  show "hm_get (vars (foldl (\<lambda>self a. merge_parent a self) s as)) x = first_var (s # as) x"
    by (induction as arbitrary: s) (simp_all add: v default_vars_get split: option.splits)
qed

text \<open>The chain of ancestors from a parent reference: their ids and baselines, nearest first.\<close>

inductive ancestry :: "(string \<Rightarrow> baseline option) \<Rightarrow> string option \<Rightarrow> string list \<Rightarrow> baseline list \<Rightarrow> bool"
  for lookup where
  ancestry_end: "ancestry lookup None [] []"
| ancestry_step: "lookup i = Some b \<Longrightarrow> ancestry lookup (inherits b) ids bs \<Longrightarrow> ancestry lookup (Some i) (i # ids) (b # bs)"

definition walk_answer :: "(string \<Rightarrow> baseline option) \<Rightarrow> string list \<Rightarrow> string set \<Rightarrow> baseline list \<Rightarrow> string option \<Rightarrow>
    baseline_error + baseline list \<Rightarrow> bool" where
  "walk_answer lookup chain visited anc cur r =
     (case r of
        Inr bs \<Rightarrow> (\<exists>ids new. ancestry lookup cur ids new \<and> bs = anc @ new \<and> distinct ids \<and> set ids \<inter> visited = {})
      | Inl (ParentNotFound p) \<Rightarrow> lookup p = None
      | Inl (InheritanceCycle c) \<Rightarrow> (\<exists>ids i. c = chain @ ids @ [i] \<and> i \<in> visited \<union> set ids))"

lemma compose_walk_total:
  assumes "finite (dom lookup)"
  shows "\<exists>r. compose_walk lookup chain visited anc cur = Some r \<and> walk_answer lookup chain visited anc cur r"
proof (induction "card (dom lookup - visited)" arbitrary: chain visited anc cur rule: less_induct)
  case less
  show ?case
  proof (cases cur)
    case None
    then have "compose_walk lookup chain visited anc cur = Some (Inr anc)"
      by (subst compose_walk.simps) simp
    moreover have "walk_answer lookup chain visited anc cur (Inr anc)"
      using None ancestry_end by (force simp: walk_answer_def)
    ultimately show ?thesis by blast
  next
    case (Some i)
    show ?thesis
    proof (cases "i \<in> visited \<or> lookup i = None")
      case True
      then have "compose_walk lookup chain visited anc cur =
          Some (Inl (if i \<in> visited then InheritanceCycle (chain @ [] @ [i]) else ParentNotFound i))"
        using Some by (subst compose_walk.simps) auto
      moreover have "walk_answer lookup chain visited anc cur
          (Inl (if i \<in> visited then InheritanceCycle (chain @ [] @ [i]) else ParentNotFound i))"
        using True by (auto simp: walk_answer_def)
      ultimately show ?thesis by blast
    next
      case False
      then obtain b where b: "lookup i = Some b" "i \<notin> visited" by auto
      have "card (dom lookup - insert i visited) < card (dom lookup - visited)"
        using assms b by (intro psubset_card_mono) auto
      from less [OF this, of "chain @ [i]" "anc @ [b]" "inherits b"] obtain r where
        r: "compose_walk lookup (chain @ [i]) (insert i visited) (anc @ [b]) (inherits b) = Some r"
          "walk_answer lookup (chain @ [i]) (insert i visited) (anc @ [b]) (inherits b) r" by blast
      have "walk_answer lookup chain visited anc cur r"
      proof (cases r)
        case (Inr bs)
        then obtain ids new where a: "ancestry lookup (inherits b) ids new" "bs = (anc @ [b]) @ new" "distinct ids" "set ids \<inter> insert i visited = {}"
          using r(2) by (auto simp: walk_answer_def)
        have "ancestry lookup cur (i # ids) (b # new)" unfolding Some using b(1) a(1) by (rule ancestry_step)
        moreover have "bs = anc @ b # new \<and> distinct (i # ids) \<and> set (i # ids) \<inter> visited = {}" using a b(2) by auto
        ultimately show ?thesis unfolding Inr walk_answer_def by (auto intro!: exI [of _ "i # ids"] exI [of _ "b # new"])
      next
        case (Inl e)
        show ?thesis
        proof (cases e)
          case (InheritanceCycle c)
          then obtain ids j where "c = (chain @ [i]) @ ids @ [j]" "j \<in> insert i visited \<union> set ids"
            using r(2) Inl by (auto simp: walk_answer_def)
          then have "c = chain @ (i # ids) @ [j] \<and> j \<in> visited \<union> set (i # ids)" by auto
          then show ?thesis unfolding Inl InheritanceCycle walk_answer_def by auto
        qed (use r(2) Inl in \<open>simp add: walk_answer_def\<close>)
      qed
      moreover have "compose_walk lookup chain visited anc cur = Some r"
        using Some b r(1) by (subst compose_walk.simps) simp
      ultimately show ?thesis by blast
    qed
  qed
qed


definition example_lookup :: "string \<Rightarrow> baseline option" where
  "example_lookup = [''site'' \<mapsto> \<lparr>baseline_name = ''site'', inherits = Some ''global'', mode = AuditMode,
                        vars = [(''port'', ''2222'')], decls = [Package ''ssh'' (Some ''9'') True, Package ''vim'' None True]\<rparr>,
                     ''global'' \<mapsto> \<lparr>baseline_name = ''global'', inherits = None, mode = AuditMode,
                        vars = [(''port'', ''22'')], decls = [Package ''ssh'' (Some ''8'') True, Setting ''umask'' (JString ''027'')]\<rparr>]"

definition example_host :: baseline where
  "example_host = \<lparr>baseline_name = ''host'', inherits = Some ''site'', mode = AuditMode, vars = [], decls = [Service ''ssh'' Running True]\<rparr>"


text \<open>
  A nearer parent does not override an older ancestor: the site baseline asks for ssh 9 and port 2222 over the global ssh 8 and port 22, but
  a host that inherits from the site is composed with the global version and port.
\<close>

theorem compose_grandparent_overrides_parent:
  "map_option (map_sum (\<lambda>e. e) (\<lambda>b. (effective (decls b) (''package'', ''ssh''), hm_get (vars b) ''port'')))
     (compose example_lookup example_host) = Some (Inr (Some (Package ''ssh'' (Some ''8'') True), Some ''22''))"
proof -
  have "compose_walk example_lookup [''host''] {''host''} [] (Some ''site'') =
      Some (Inr [the (example_lookup ''site''), the (example_lookup ''global'')])"
    unfolding example_lookup_def by (subst compose_walk.simps, simp)+
  then have "compose example_lookup example_host = Some (Inr (foldl (\<lambda>self ancestor. merge_parent ancestor self) example_host
      [the (example_lookup ''global''), the (example_lookup ''site'')]))"
    by (simp add: compose_def example_host_def)
  then show ?thesis
    by (simp add: merged_lookup del: foldl_Cons)
      (simp add: example_host_def example_lookup_def effective_Cons hm_get_def)
qed

section \<open>Compliance\<close>

lemma add_drifts:
  fixes r ds defines "r' \<equiv> foldl add_drift r ds"
  shows "entries r' = entries r @ filter (\<lambda>d. severity d \<noteq> Compliant) ds" "total_count r' = total_count r"
    "compliant r' = compliant r + length (filter (\<lambda>d. severity d = Compliant) ds)"
    "drifted r' = drifted r + length (filter (\<lambda>d. severity d = Drifted) ds)"
    "missing r' = missing r + length (filter (\<lambda>d. severity d = Missing) ds)"
    "unknown r' = unknown r + length (filter (\<lambda>d. severity d = Unknown) ds)"
  unfolding r'_def by (induction ds arbitrary: r; simp add: add_drift_def split: drift_severity.split)+

lemma check_compliance_folds:
  "check_compliance env b st = foldl add_drift
     \<lparr>report_name = baseline_name b, total_count = length (decls b), compliant = 0, drifted = 0, missing = 0, unknown = 0, entries = []\<rparr>
     (map (check_declaration env st) (decls b))"
  unfolding check_compliance_def foldl_map ..

text \<open>
  The report accounts for every declaration: its entries are the findings that are not compliant, in order; compliant declarations and
  entries add up to the total, which the counters miss by exactly the extra firewall rules; and the baseline counts as compliant just when nothing is drifted or missing.
\<close>

theorem report_accounts:
  "let r = check_compliance env b st; ds = map (check_declaration env st) (decls b) in
     entries r = filter (\<lambda>d. severity d \<noteq> Compliant) ds \<and> total_count r = length ds \<and>
     compliant r + length (entries r) = total_count r \<and>
     total_count r = compliant r + drifted r + missing r + unknown r + length (filter (\<lambda>d. severity d = Extra) ds) \<and>
     (is_compliant r \<longleftrightarrow> list_all (\<lambda>d. severity d \<noteq> Drifted \<and> severity d \<noteq> Missing) ds)"
proof -
  let ?ds = "map (check_declaration env st) (decls b)"
  have len: "length ds = length (filter (\<lambda>d. severity d = Compliant) ds) + length (filter (\<lambda>d. severity d = Drifted) ds) +
      length (filter (\<lambda>d. severity d = Missing) ds) + length (filter (\<lambda>d. severity d = Unknown) ds) +
      length (filter (\<lambda>d. severity d = Extra) ds)" for ds
  proof (induction ds)
    case (Cons d ds)
    then show ?case by (cases "severity d") simp_all
  qed simp
  have all: "list_all (\<lambda>d. severity d \<noteq> Drifted \<and> severity d \<noteq> Missing) ds \<longleftrightarrow>
      filter (\<lambda>d. severity d = Drifted) ds = [] \<and> filter (\<lambda>d. severity d = Missing) ds = []" for ds
    by (induction ds) auto
  have "length (filter (\<lambda>d. severity d = Compliant) ?ds) + length (filter (\<lambda>d. severity d \<noteq> Compliant) ?ds) = length (decls b)"
    using sum_length_filter_compl [of "\<lambda>d. severity d = Compliant" ?ds] by simp
  then show ?thesis
    unfolding check_compliance_folds Let_def add_drifts is_compliant_def all
    using len [of ?ds] by (simp add: filter_map)
qed

text \<open>
  A firewall rule that a baseline forbids and that is installed is listed in the report, where no declaration is then compliant, but the report as a whole still is.
\<close>

theorem forbidden_rule_is_compliant:
  "let r = check_compliance \<lparr>target_os = Linux, semver = \<lambda>_. None, netsh = \<lambda>_. None, pfctl = None, nft = Some (True, ''tcp dport 23 accept''), iptables_save = None, ip6tables_save = None,
        shell = \<lambda>_. Inl []\<rparr> (example_host\<lparr>decls := [Firewall ''dport 23'' False]\<rparr>)
        \<lparr>packages = [], services = [], services_enabled = [], files = [], users = [], settings = []\<rparr>
   in is_compliant r \<and> length (entries r) = 1 \<and> compliant r = 0 \<and> total_count r = 1"
  by (simp add: check_compliance_def add_drift_def example_host_def check_firewall_def firewall_rule_present_def linux_rule_present_def mk_drift_def
      rule_char_def is_ascii_alphanumeric_def is_compliant_def Let_def)

end
