(* ===== verification/Baseline_System.thy ===== *)
theory Baseline_System
  imports Baseline Vfs_Disk
begin

text \<open>
  Reading the state of a system and changing it (\<open>crates/runesh-baseline/src/collector.rs\<close> and \<open>remediator.rs\<close>).

  The disk is the model of \<open>Vfs_Disk\<close>, without symbolic links; \<open>locate\<close> says where a path text leads. A declared path ends in a name,
  so its parent is the path without the last component. A started program is its command line; whether it can be started, its status
  and its decoded output are a parameter that sees the state, and the command lines are recorded. What a program does to the disk is not
  modelled, and the texts of operating-system errors are left out of the messages. On \<open>OtherOs\<close> the crate is compiled for another Unix.
\<close>

record sys =
  sys_disk :: disk
  file_modes :: "(path, int) hash_map"
  started :: "string list list"

record sys_env =
  os :: platform
  locate :: "string \<Rightarrow> path"
  from_utf8 :: "bytes \<Rightarrow> string option"
  env_var :: "string \<Rightarrow> string option"
  may_chmod :: "sys \<Rightarrow> path \<Rightarrow> bool"
  exec :: "sys \<Rightarrow> string list \<Rightarrow> string + (bool \<times> string \<times> string)"

definition stdout_of :: "sys_env \<Rightarrow> sys \<Rightarrow> string list \<Rightarrow> string option" where
  "stdout_of env s cmd = (case exec env s cmd of Inr (_, out, _) \<Rightarrow> Some out | Inl _ \<Rightarrow> None)"

definition read_to_string :: "sys_env \<Rightarrow> disk \<Rightarrow> string \<Rightarrow> string option" where
  "read_to_string env d p = Option.bind (file_at d (locate env p)) (from_utf8 env)"

definition path_exists :: "sys_env \<Rightarrow> disk \<Rightarrow> string \<Rightarrow> bool" where
  "path_exists env d p = (node_at d (locate env p) \<noteq> None)"

section \<open>Collecting\<close>

definition collect_files :: "sys_env \<Rightarrow> disk \<Rightarrow> string list \<Rightarrow> (string, string option) hash_map" where
  "collect_files env d paths =
     foldl (\<lambda>m p. if path_exists env d p then hm_insert p (read_to_string env d p) m else m) [] paths"

definition collect_settings :: "sys_env \<Rightarrow> disk \<Rightarrow> string list \<Rightarrow> (string, string) hash_map" where
  "collect_settings env d keys =
     foldl (\<lambda>m k.
       case (if os env = Linux then read_to_string env d (''/proc/sys/'' @ str_replace ''.'' ''/'' k) else None) of
         Some v \<Rightarrow> hm_insert k (trim v) m
       | None \<Rightarrow> (case env_var env k of Some v \<Rightarrow> hm_insert k v m | None \<Rightarrow> m)) [] keys"

definition dpkg_line :: "(string, string) hash_map \<Rightarrow> string \<Rightarrow> (string, string) hash_map" where
  "dpkg_line m line =
     (let parts = split_on (CHR 0x09) line in
      if length parts \<ge> 3 \<and> contains_str ''installed'' (parts ! 2) then hm_insert (parts ! 0) (parts ! 1) m else m)"

definition rpm_line :: "(string, string) hash_map \<Rightarrow> string \<Rightarrow> (string, string) hash_map" where
  "rpm_line m line = (case split_once (CHR 0x09) line of Some (n, v) \<Rightarrow> hm_insert n v m | None \<Rightarrow> m)"

definition pacman_line :: "(string, string) hash_map \<Rightarrow> string \<Rightarrow> (string, string) hash_map" where
  "pacman_line m line = (case split_whitespace line of n # v # _ \<Rightarrow> hm_insert n v m | _ \<Rightarrow> m)"

definition scan_lines :: "('m \<Rightarrow> string \<Rightarrow> 'm) \<Rightarrow> string option \<Rightarrow> 'm \<Rightarrow> 'm" where
  "scan_lines f out m = (case out of Some t \<Rightarrow> foldl f m (lines t) | None \<Rightarrow> m)"

definition collect_packages_linux :: "sys_env \<Rightarrow> sys \<Rightarrow> (string, string) hash_map" where
  "collect_packages_linux env s =
     (let p1 = scan_lines dpkg_line (stdout_of env s [''dpkg-query'', ''-W'', ''-f=${Package}'' @ [CHR 0x09] @ ''${Version}'' @ [CHR 0x09] @ ''${Status}'' @ [CHR 0x0A]]) [] in
      if p1 \<noteq> [] then p1
      else let p2 = scan_lines rpm_line (stdout_of env s [''rpm'', ''-qa'', ''--queryformat'', ''%{NAME}'' @ [CHR 0x09] @ ''%{VERSION}-%{RELEASE}'' @ [CHR 0x0A]]) p1 in
      if p2 \<noteq> [] then p2
      else scan_lines pacman_line (stdout_of env s [''pacman'', ''-Q'']) p2)"

definition service_name :: "string \<Rightarrow> string" where
  "service_name s = (case strip_suffix ''.service'' s of Some n \<Rightarrow> n | None \<Rightarrow> s)"

definition collect_services_linux :: "sys_env \<Rightarrow> sys \<Rightarrow> (string, bool) hash_map" where
  "collect_services_linux env s =
     scan_lines (\<lambda>m line. let parts = split_whitespace line in
         if length parts \<ge> 4 then hm_insert (service_name (parts ! 0)) (parts ! 2 = ''active'') m else m)
       (stdout_of env s [''systemctl'', ''list-units'', ''--type=service'', ''--all'', ''--no-pager'', ''--no-legend'']) []"

definition collect_services_enabled_linux :: "sys_env \<Rightarrow> sys \<Rightarrow> (string, bool) hash_map" where
  "collect_services_enabled_linux env s =
     scan_lines (\<lambda>m line. let parts = split_whitespace line in
         if length parts \<ge> 2 then hm_insert (service_name (parts ! 0)) (parts ! 1 = ''enabled'') m else m)
       (stdout_of env s [''systemctl'', ''list-unit-files'', ''--type=service'', ''--no-pager'', ''--no-legend'']) []"

definition collect_packages_macos :: "sys_env \<Rightarrow> sys \<Rightarrow> (string, string) hash_map" where
  "collect_packages_macos env s =
     scan_lines (\<lambda>m line. case split_whitespace line of
         n # v # _ \<Rightarrow> hm_insert n v m | [n] \<Rightarrow> hm_insert n [] m | [] \<Rightarrow> m)
       (stdout_of env s [''brew'', ''list'', ''--versions'']) []"

definition collect_services_macos :: "sys_env \<Rightarrow> sys \<Rightarrow> (string, bool) hash_map" where
  "collect_services_macos env s =
     scan_lines (\<lambda>m line. let parts = split_on (CHR 0x09) line in
         if length parts \<ge> 3 then
           let pid = trim (parts ! 0); n = trim (parts ! 2)
           in if n \<noteq> [] \<and> n \<noteq> ''Label'' then hm_insert n (pid \<noteq> ''-'') m else m
         else m)
       (stdout_of env s [''launchctl'', ''list'']) []"

definition passwd_line :: "(string, string list) hash_map \<Rightarrow> string \<Rightarrow> (string, string list) hash_map" where
  "passwd_line m line =
     (let parts = split_on (CHR '':'') line in
      if length parts \<ge> 4 then
        let uid = (case parse_uint 4294967295 (parts ! 2) of Some u \<Rightarrow> u | None \<Rightarrow> 65534)
        in if uid \<ge> 1000 \<or> uid = 0 then hm_insert (parts ! 0) [] m else m
      else m)"

definition group_line :: "(string, string list) hash_map \<Rightarrow> string \<Rightarrow> (string, string list) hash_map" where
  "group_line m line =
     (let parts = split_on (CHR '':'') line in
      if length parts \<ge> 4 then
        foldl (\<lambda>m u. case hm_get m u of Some gs \<Rightarrow> hm_insert u (gs @ [parts ! 0]) m | None \<Rightarrow> m) m
          (filter (\<lambda>s. s \<noteq> []) (split_on (CHR '','') (parts ! 3)))
      else m)"

definition collect_users_unix :: "sys_env \<Rightarrow> disk \<Rightarrow> (string, string list) hash_map" where
  "collect_users_unix env d =
     scan_lines group_line (read_to_string env d ''/etc/group'') (scan_lines passwd_line (read_to_string env d ''/etc/passwd'') [])"

fun find_str :: "string \<Rightarrow> string \<Rightarrow> nat option" where
  "find_str p [] = (if p = [] then Some 0 else None)"
| "find_str p (c # cs) = (if prefix p (c # cs) then Some 0 else map_option Suc (find_str p cs))"

definition get_range :: "nat \<Rightarrow> nat \<Rightarrow> string \<Rightarrow> string option" where
  "get_range a b s = (if a \<le> b \<and> b \<le> length s then Some (take (b - a) (drop a s)) else None)"

definition winget_line :: "nat \<Rightarrow> nat \<Rightarrow> (string, string) hash_map \<Rightarrow> string \<Rightarrow> (string, string) hash_map" where
  "winget_line id_start ver_start m line =
     (if length line > ver_start then
        let i = (case get_range id_start ver_start line of Some s \<Rightarrow> trim s | None \<Rightarrow> []);
            v = (case split_whitespace (drop ver_start line) of w # _ \<Rightarrow> w | [] \<Rightarrow> [])
        in if i \<noteq> [] then hm_insert i v m else m
      else m)"

definition collect_packages_windows :: "sys_env \<Rightarrow> sys \<Rightarrow> (string, string) hash_map" where
  "collect_packages_windows env s =
     (case stdout_of env s [''winget'', ''list'', ''--disable-interactivity'', ''--accept-source-agreements''] of
        None \<Rightarrow> []
      | Some t \<Rightarrow>
          (let ls = lines t; before = takeWhile (\<lambda>l. \<not> contains_str ''---'' l) ls; rest = dropWhile (\<lambda>l. \<not> contains_str ''---'' l) ls in
           case rest of
             [] \<Rightarrow> []
           | _ # table \<Rightarrow>
               (let header = (if before = [] then [] else last before);
                    id_start = (case find_str ''Id'' header of Some i \<Rightarrow> i | None \<Rightarrow> 0);
                    ver_start = (case find_str ''Version'' header of Some i \<Rightarrow> i | None \<Rightarrow> 0)
                in if id_start > 0 \<and> ver_start > 0 then foldl (winget_line id_start ver_start) [] table else [])))"

definition sc_line :: "string \<times> (string, bool) hash_map \<Rightarrow> string \<Rightarrow> string \<times> (string, bool) hash_map" where
  "sc_line s line =
     (let t = trim line in
      case strip_prefix ''SERVICE_NAME: '' t of
        Some n \<Rightarrow> (n, snd s)
      | None \<Rightarrow> if starts_with ''STATE'' t \<and> fst s \<noteq> [] then (fst s, hm_insert (fst s) (contains_str ''RUNNING'' t) (snd s)) else s)"

definition collect_services_windows :: "sys_env \<Rightarrow> sys \<Rightarrow> (string, bool) hash_map" where
  "collect_services_windows env s =
     snd (scan_lines sc_line (stdout_of env s [''sc'', ''query'', ''type='', ''service'', ''state='', ''all'']) ([], []))"

fun net_users :: "bool \<Rightarrow> (string, string list) hash_map \<Rightarrow> string list \<Rightarrow> (string, string list) hash_map" where
  "net_users in_list m [] = m"
| "net_users in_list m (l # ls) =
     (if starts_with ''---'' l then net_users True m ls
      else if starts_with ''The command completed'' l then m
      else net_users in_list (if in_list then foldl (\<lambda>m n. hm_insert n [] m) m (split_whitespace l) else m) ls)"

definition star_groups :: "string \<Rightarrow> string list" where
  "star_groups s = filter (\<lambda>g. g \<noteq> []) (map trim (split_on (CHR ''*'') s))"

definition net_group_line :: "bool \<times> string list \<Rightarrow> string \<Rightarrow> bool \<times> string list" where
  "net_group_line s l =
     (if starts_with ''Local Group Memberships'' l \<or> starts_with ''Global Group memberships'' l then
        (True, snd s @ (case split_once (CHR ''*'') l of Some (_, v) \<Rightarrow> star_groups v | None \<Rightarrow> []))
      else if fst s \<and> starts_with '' '' l then (True, snd s @ star_groups l)
      else (False, snd s))"

definition collect_users_windows :: "sys_env \<Rightarrow> sys \<Rightarrow> (string, string list) hash_map" where
  "collect_users_windows env s =
     (let users = (case stdout_of env s [''net'', ''user''] of Some t \<Rightarrow> net_users False [] (lines t) | None \<Rightarrow> []) in
      foldl (\<lambda>m u. case stdout_of env s [''net'', ''user'', u] of
           Some t \<Rightarrow> if hm_contains m u then hm_insert u (snd (foldl net_group_line (False, []) (lines t))) m else m
         | None \<Rightarrow> m) users (hm_keys users))"

definition collect_system_state :: "sys_env \<Rightarrow> sys \<Rightarrow> string list \<Rightarrow> string list \<Rightarrow> system_state" where
  "collect_system_state env s paths keys =
     (let st = \<lparr>packages = [], services = [], services_enabled = [], files = collect_files env (sys_disk s) paths, users = [],
                settings = collect_settings env (sys_disk s) keys\<rparr> in
      case os env of
        Linux \<Rightarrow> st\<lparr>packages := collect_packages_linux env s, services := collect_services_linux env s,
                   services_enabled := collect_services_enabled_linux env s, users := collect_users_unix env (sys_disk s)\<rparr>
      | MacOs \<Rightarrow> st\<lparr>packages := collect_packages_macos env s, services := collect_services_macos env s, users := collect_users_unix env (sys_disk s)\<rparr>
      | Windows \<Rightarrow> st\<lparr>packages := collect_packages_windows env s, services := collect_services_windows env s, users := collect_users_windows env s\<rparr>
      | OtherOs \<Rightarrow> st)"

section \<open>Remediation\<close>

datatype remediation_outcome = NoChange | Applied | OutOfScope string string | Failed string

definition run_ok :: "sys_env \<Rightarrow> string list \<Rightarrow> sys \<Rightarrow> (string + unit) \<times> sys" where
  "run_ok env cmd s =
     (case exec env s cmd of
        Inl e \<Rightarrow> (Inl e, s)
      | Inr (True, _, _) \<Rightarrow> (Inr (), s\<lparr>started := started s @ [cmd]\<rparr>)
      | Inr (False, out, err) \<Rightarrow> (Inl (if trim err = [] then trim out else trim err), s\<lparr>started := started s @ [cmd]\<rparr>))"

definition valid_service_name :: "string \<Rightarrow> bool" where
  "valid_service_name n = (n \<noteq> [] \<and> length n \<le> 200 \<and> list_all (\<lambda>c. is_ascii_alphanumeric c \<or> c \<in> set ''-_.@:'') n)"

definition remediate_service_linux :: "sys_env \<Rightarrow> string \<Rightarrow> service_state \<Rightarrow> bool \<Rightarrow> sys \<Rightarrow> remediation_outcome \<times> sys" where
  "remediate_service_linux env n desired enabled s =
     (let act = (case desired of Running \<Rightarrow> ''start'' | Stopped \<Rightarrow> ''stop''); en = (if enabled then ''enable'' else ''disable'') in
      case run_ok env [''systemctl'', act, n] s of
        (Inl e, s) \<Rightarrow> (Failed (''systemctl '' @ act @ '' '' @ n @ '': '' @ e), s)
      | (Inr _, s) \<Rightarrow>
          (case run_ok env [''systemctl'', en, n] s of
             (Inl e, s) \<Rightarrow> (Failed (''systemctl '' @ en @ '' '' @ n @ '': '' @ e), s)
           | (Inr _, s) \<Rightarrow> (Applied, s)))"

definition sc_already :: "string \<Rightarrow> bool" where
  "sc_already e = (let l = to_ascii_lowercase e in contains_str ''already'' l \<or> contains_str ''1056'' l \<or> contains_str ''1062'' l)"

definition remediate_service_windows :: "sys_env \<Rightarrow> string \<Rightarrow> service_state \<Rightarrow> bool \<Rightarrow> sys \<Rightarrow> remediation_outcome \<times> sys" where
  "remediate_service_windows env n desired enabled s =
     (let act = (case desired of Running \<Rightarrow> ''start'' | Stopped \<Rightarrow> ''stop''); start_type = (if enabled then ''auto'' else ''demand'');
          (r, s) = run_ok env [''sc'', act, n] s in
      case (case r of Inl e \<Rightarrow> if sc_already e then None else Some e | Inr _ \<Rightarrow> None) of
        Some e \<Rightarrow> (Failed (''sc '' @ act @ '' '' @ n @ '': '' @ e), s)
      | None \<Rightarrow>
          (case run_ok env [''sc'', ''config'', n, ''start= '' @ start_type] s of
             (Inl e, s) \<Rightarrow> (Failed (''sc config '' @ n @ '' start= '' @ start_type @ '': '' @ e), s)
           | (Inr _, s) \<Rightarrow> (Applied, s)))"

definition remediate_service :: "sys_env \<Rightarrow> string \<Rightarrow> service_state \<Rightarrow> bool \<Rightarrow> sys \<Rightarrow> remediation_outcome \<times> sys" where
  "remediate_service env n desired enabled s =
     (if \<not> valid_service_name n then (Failed (''invalid service name: '' @ n), s)
      else case os env of
        Linux \<Rightarrow> remediate_service_linux env n desired enabled s
      | MacOs \<Rightarrow>
          (let cmd = (case desired of Running \<Rightarrow> ''load'' | Stopped \<Rightarrow> ''unload'') in
           case run_ok env [''launchctl'', cmd, n] s of
             (Inr _, s) \<Rightarrow> (Applied, s)
           | (Inl e, s) \<Rightarrow> (Failed (''launchctl '' @ cmd @ '' '' @ n @ '': '' @ e), s))
      | Windows \<Rightarrow> remediate_service_windows env n desired enabled s
      | OtherOs \<Rightarrow> (OutOfScope ''service'' ''no service manager integration for this platform'', s))"

fun trim_prefixes :: "nat \<Rightarrow> string \<Rightarrow> string \<Rightarrow> string" where
  "trim_prefixes 0 p s = s"
| "trim_prefixes (Suc n) p s = (if prefix p s then trim_prefixes n p (drop (length p) s) else s)"

definition octal_value :: "string \<Rightarrow> int" where
  "octal_value s = foldl (\<lambda>n c. 8 * n + digit_of c) 0 s"

definition parse_octal_mode :: "string \<Rightarrow> int option" where
  "parse_octal_mode s =
     (let t = dropWhile (\<lambda>c. c = CHR ''0'') (trim_prefixes (length s) ''0o'' s) in
      if t = [] then Some 0
      else let u = (case t of c # r \<Rightarrow> if c = CHR ''+'' then r else t | [] \<Rightarrow> t)
           in if u \<noteq> [] \<and> list_all (\<lambda>c. c \<in> set ''01234567'') u \<and> octal_value u \<le> 4294967295 then Some (octal_value u) else None)"

definition blocked_by_file :: "disk \<Rightarrow> path \<Rightarrow> bool" where
  "blocked_by_file d p = list_ex (\<lambda>n. file_at d (take n p) \<noteq> None) [0..<length p]"

definition remove_declared :: "sys_env \<Rightarrow> string \<Rightarrow> sys \<Rightarrow> remediation_outcome \<times> sys" where
  "remove_declared env p s =
     (let q = locate env p in
      case remove_file_at (sys_disk s) q of
        Some d \<Rightarrow> (Applied, s\<lparr>sys_disk := d\<rparr>)
      | None \<Rightarrow>
          if node_at (sys_disk s) q = None \<and> \<not> blocked_by_file (sys_disk s) q then (NoChange, s)
          else (Failed (''remove '' @ p), s))"

definition put_content :: "sys_env \<Rightarrow> string \<Rightarrow> string option \<Rightarrow> disk \<Rightarrow> remediation_outcome + (bool \<times> disk)" where
  "put_content env p content d =
     (case content of
        Some want \<Rightarrow>
          if read_to_string env d p \<noteq> Some want then
            (case write_at d (locate env p) (as_bytes want) of None \<Rightarrow> Inl (Failed (''write '' @ p)) | Some d \<Rightarrow> Inr (True, d))
          else Inr (False, d)
      | None \<Rightarrow>
          if \<not> path_exists env d p then
            (case write_at d (locate env p) [] of None \<Rightarrow> Inl (Failed (''create '' @ p)) | Some d \<Rightarrow> Inr (True, d))
          else Inr (False, d))"

definition set_owner :: "sys_env \<Rightarrow> string \<Rightarrow> string option \<Rightarrow> sys \<Rightarrow> (remediation_outcome + unit) \<times> sys" where
  "set_owner env p owner s =
     (case owner of
        None \<Rightarrow> (Inr (), s)
      | Some u \<Rightarrow>
          if \<not> list_all (\<lambda>c. is_ascii_alphanumeric c \<or> c \<in> set ''-_.:'') u then (Inl (Failed (''invalid owner: '' @ u)), s)
          else (case run_ok env [''chown'', u, p] s of
             (Inl e, s) \<Rightarrow> (Inl (Failed (''chown '' @ u @ '' '' @ p @ '': '' @ e)), s)
           | (Inr _, s) \<Rightarrow> (Inr (), s)))"

definition set_mode_owner :: "sys_env \<Rightarrow> string \<Rightarrow> string option \<Rightarrow> string option \<Rightarrow> sys \<Rightarrow> (remediation_outcome + unit) \<times> sys" where
  "set_mode_owner env p md owner s =
     (if os env = Windows then (Inr (), s)
      else case Option.bind md parse_octal_mode of
        Some m \<Rightarrow>
          if may_chmod env s (locate env p) then set_owner env p owner (s\<lparr>file_modes := hm_insert (locate env p) m (file_modes s)\<rparr>)
          else (Inl (Failed (''chmod '' @ p)), s)
      | None \<Rightarrow> set_owner env p owner s)"

definition remediate_file ::
    "sys_env \<Rightarrow> string \<Rightarrow> string option \<Rightarrow> string option \<Rightarrow> string option \<Rightarrow> bool \<Rightarrow> sys \<Rightarrow> remediation_outcome \<times> sys" where
  "remediate_file env p content md owner present s =
     (if \<not> present then remove_declared env p s
      else case create_dir_all (sys_disk s) (butlast (locate env p)) of
        None \<Rightarrow> (Failed ''mkdir -p'', s)
      | Some d \<Rightarrow>
          (let s = s\<lparr>sys_disk := d\<rparr> in
           case put_content env p content d of
             Inl e \<Rightarrow> (e, s)
           | Inr (changed, d) \<Rightarrow>
               (case set_mode_owner env p md owner (s\<lparr>sys_disk := d\<rparr>) of
                  (Inl e, s) \<Rightarrow> (e, s)
                | (Inr _, s) \<Rightarrow> (if changed then Applied else NoChange, s))))"

definition remediate_setting :: "sys_env \<Rightarrow> string \<Rightarrow> string \<Rightarrow> sys \<Rightarrow> remediation_outcome \<times> sys" where
  "remediate_setting env key v s =
     (if key = [] \<or> \<not> list_all (\<lambda>c. is_ascii_alphanumeric c \<or> c = CHR ''.'' \<or> c = CHR ''_'') key
      then (Failed (''invalid setting key: '' @ key), s)
      else if os env = Linux then
        (let arg = key @ ''='' @ v in
         case run_ok env [''sysctl'', ''-w'', arg] s of
           (Inr _, s) \<Rightarrow> (Applied, s)
         | (Inl e, s) \<Rightarrow> (Failed (''sysctl -w '' @ arg @ '': '' @ e), s))
      else (OutOfScope ''setting'' 
           ''non-Linux setting writes require a platform-specific writer (Windows registry, macOS defaults); supply a custom Remediator'', s))"

fun remediate :: "sys_env \<Rightarrow> state_declaration \<Rightarrow> sys \<Rightarrow> remediation_outcome \<times> sys" where
  "remediate env (Service n st en) s = remediate_service env n st en s"
| "remediate env (FileDecl p c md ow pr) s = remediate_file env p c md ow pr s"
| "remediate env (Setting k v) s = remediate_setting env k (setting_text v) s"
| "remediate env (Package _ _ _) s = (OutOfScope ''package'' ''packages are remediated via runesh_pkg::PackageManager at the consumer layer'', s)"
| "remediate env (User _ _ _) s = (OutOfScope ''user'' ''user provisioning belongs to the identity plane'', s)"
| "remediate env (Firewall _ _) s = (OutOfScope ''firewall'' ''firewall rule authoring is consumer-specific and rule-order sensitive'', s)"
| "remediate env (Custom _ _ _) s = (OutOfScope ''custom'' ''custom declarations carry their own fix_command; run it via runesh_jobs with an allowlist'', s)"

section \<open>Lemmas\<close>

text \<open>What the collector reports of a path it is asked for.\<close>

lemma hm_get_collect_files:
  "hm_get (collect_files env d paths) p =
     (if p \<in> set paths \<and> path_exists env d p then Some (read_to_string env d p) else None)"
proof -
  have "hm_get (foldl (\<lambda>m p. if path_exists env d p then hm_insert p (read_to_string env d p) m else m) m paths) p =
      (if p \<in> set paths \<and> path_exists env d p then Some (read_to_string env d p) else hm_get m p)" for m
    by (induction paths arbitrary: m) (auto simp: hm_simps)
  then show ?thesis by (simp add: collect_files_def hm_simps)
qed

lemma files_collect_system_state: "files (collect_system_state env s paths keys) = collect_files env (sys_disk s) paths"
  by (simp add: collect_system_state_def Let_def split: platform.split)

text \<open>A path is as declared on a disk.\<close>

definition file_as_declared :: "sys_env \<Rightarrow> disk \<Rightarrow> string \<Rightarrow> string option \<Rightarrow> bool \<Rightarrow> bool" where
  "file_as_declared env d p content present =
     (if present then path_exists env d p \<and> (case content of Some want \<Rightarrow> read_to_string env d p = Some want | None \<Rightarrow> True)
      else \<not> path_exists env d p)"

lemma check_file_as_declared:
  assumes "p \<in> set paths"
  shows "severity (check_file (collect_system_state env s paths keys) p content present) = Compliant \<longleftrightarrow>
    file_as_declared env (sys_disk s) p content present"
  using assms
  by (cases "read_to_string env (sys_disk s) p")
    (auto simp: check_file_def Let_def files_collect_system_state hm_contains_def hm_get_collect_files file_as_declared_def mk_drift_def
      split: option.split)

lemma run_ok_disk [simp]: "run_ok env cmd s = (r, s') \<Longrightarrow> sys_disk s' = sys_disk s"
  by (auto simp: run_ok_def split: sum.splits bool.splits)

lemma set_owner_disk [simp]: "sys_disk (snd (set_owner env p owner s)) = sys_disk s"
proof (cases owner)
  case (Some u)
  obtain r s' where r: "run_ok env [''chown'', u, p] s = (r, s')" by (cases "run_ok env [''chown'', u, p] s")
  show ?thesis unfolding set_owner_def Some option.case r prod.case using run_ok_disk [OF r] by (cases r) auto
qed (simp add: set_owner_def)

lemma set_mode_owner_disk [simp]: "sys_disk (snd (set_mode_owner env p md owner s)) = sys_disk s"
  by (simp add: set_mode_owner_def split: option.split)

text \<open>The directories above a path, once made, are found again.\<close>

lemma create_dirs_present:
  assumes "\<And>n. 0 < n \<Longrightarrow> n \<le> length cs \<Longrightarrow> hm_get d (acc @ take n cs) = Some DDir"
  shows "create_dirs d acc cs = Some d"
  using assms
proof (induction cs arbitrary: acc)
  case (Cons c cs)
  have "hm_get d (acc @ [c]) = Some DDir" using Cons.prems [of 1] by simp
  moreover have "create_dirs d (acc @ [c]) cs = Some d"
  proof (rule Cons.IH)
    fix n assume "0 < n" "n \<le> length cs"
    then show "hm_get d ((acc @ [c]) @ take n cs) = Some DDir" using Cons.prems [of "Suc n"] by simp
  qed
  ultimately show ?case by simp
qed simp

lemma create_dirs_keeps: "create_dirs d acc cs = Some d' \<Longrightarrow> hm_get d q = Some n \<Longrightarrow> hm_get d' q = Some n"
proof (induction d acc cs rule: create_dirs.induct)
  case (2 d acc c cs)
  then show ?case
    by (cases "hm_get d (acc @ [c])"; cases "q = acc @ [c]") (auto simp: hm_simps split: dnode.splits)
qed simp

lemma create_dirs_makes:
  "create_dirs d acc cs = Some d' \<Longrightarrow> 0 < n \<Longrightarrow> n \<le> length cs \<Longrightarrow> hm_get d' (acc @ take n cs) = Some DDir"
proof (induction cs arbitrary: d acc n)
  case (Cons c cs)
  obtain d1 where d1: "create_dirs d1 (acc @ [c]) cs = Some d'" "hm_get d1 (acc @ [c]) = Some DDir"
    using Cons.prems(1) by (auto simp: hm_simps split: option.splits dnode.splits)
  show ?case
  proof (cases "n = 1")
    case True
    then show ?thesis using create_dirs_keeps [OF d1] by simp
  next
    case False
    then obtain m where m: "n = Suc m" "0 < m" "m \<le> length cs"
      using Cons.prems(2,3) by (cases n) auto
    then show ?thesis using Cons.IH [OF d1(1) m(2,3)] by simp
  qed
qed simp

lemma create_dir_all_again:
  assumes "create_dir_all d (butlast q) = Some d1" "\<And>r n. r \<noteq> q \<Longrightarrow> hm_get d1 r = Some n \<Longrightarrow> hm_get d2 r = Some n" "q \<noteq> []"
  shows "create_dir_all d2 (butlast q) = Some d2"
  unfolding create_dir_all_def
proof (rule create_dirs_present)
  fix n assume n: "0 < n" "n \<le> length (butlast q)"
  have "length (take n (butlast q)) < length q" using n by auto
  then have "take n (butlast q) \<noteq> q" by (metis less_irrefl)
  then show "hm_get d2 ([] @ take n (butlast q)) = Some DDir"
    using assms(2) create_dirs_makes [OF assms(1) [unfolded create_dir_all_def] n] by simp
qed

text \<open>Writing the content makes the file as declared; nothing is written the second time.\<close>

lemma write_at_facts:
  assumes "write_at d q b = Some d'" "q \<noteq> []"
  shows "file_at d' q = Some b" "r \<noteq> q \<Longrightarrow> hm_get d' r = hm_get d r"
  using assms by (auto simp: write_at_def file_at_def node_at_insert hm_simps split: if_splits)

lemma file_at_exists: "file_at d (locate env p) = Some b \<Longrightarrow> path_exists env d p"
  by (cases "node_at d (locate env p)") (auto simp: path_exists_def file_at_def)

lemma put_content_declared:
  assumes c: "put_content env p content d = Inr (changed, d')" and q: "locate env p \<noteq> []"
    and u: "\<And>want. content = Some want \<Longrightarrow> from_utf8 env (as_bytes want) = Some want"
  shows "file_as_declared env d' p content True" and "r \<noteq> locate env p \<Longrightarrow> hm_get d' r = hm_get d r"
proof -
  have old: "path_exists env d p" if "read_to_string env d p = Some t" for t
    using that by (cases "file_at d (locate env p)") (auto simp: read_to_string_def file_at_exists)
  consider (keep) "d' = d" "file_as_declared env d p content True"
    | (new) b where "write_at d (locate env p) b = Some d'" "\<And>want. content = Some want \<Longrightarrow> b = as_bytes want"
  proof (cases content)
    case None
    then show ?thesis
      using c that by (auto simp: put_content_def file_as_declared_def split: if_splits option.splits)
  next
    case (Some want)
    then show ?thesis
      using c that old by (auto simp: put_content_def file_as_declared_def split: if_splits option.splits)
  qed
  note cases = this
  show "file_as_declared env d' p content True"
  proof (rule cases)
    fix b assume w: "write_at d (locate env p) b = Some d'" and b: "\<And>want. content = Some want \<Longrightarrow> b = as_bytes want"
    have f: "file_at d' (locate env p) = Some b" by (rule write_at_facts(1) [OF w q])
    show ?thesis
      using file_at_exists [OF f] u b f by (cases content) (auto simp: file_as_declared_def read_to_string_def)
  qed simp
  show "hm_get d' r = hm_get d r" if r: "r \<noteq> locate env p"
    by (rule cases) (auto simp: write_at_facts(2) [OF _ q r])
qed

lemma put_content_idle: "file_as_declared env d p content True \<Longrightarrow> put_content env p content d = Inr (False, d)"
  by (auto simp: put_content_def file_as_declared_def split: option.splits)

lemma set_mode_owner_None [simp]: "set_mode_owner env p None None s = (Inr (), s)"
  by (simp add: set_mode_owner_def set_owner_def)

lemma set_mode_owner_fails: "set_mode_owner env p md owner s = (Inl e, s') \<Longrightarrow> \<exists>m. e = Failed m"
  by (auto simp: set_mode_owner_def set_owner_def split: if_splits option.splits prod.splits sum.splits)

text \<open>One remediation of a file: what it leaves and what a second one does.\<close>

lemma remediate_file_present:
  assumes r: "remediate_file env p content md owner True s = (r, s')" "r = Applied \<or> r = NoChange" and q: "locate env p \<noteq> []"
    and u: "\<And>want. content = Some want \<Longrightarrow> from_utf8 env (as_bytes want) = Some want"
  shows "file_as_declared env (sys_disk s') p content True"
    "create_dir_all (sys_disk s') (butlast (locate env p)) = Some (sys_disk s')"
proof -
  obtain d1 where d1: "create_dir_all (sys_disk s) (butlast (locate env p)) = Some d1"
    using r by (cases "create_dir_all (sys_disk s) (butlast (locate env p))") (auto simp: remediate_file_def)
  obtain c d2 where d2: "put_content env p content d1 = Inr (c, d2)"
  proof (cases "put_content env p content d1")
    case (Inl e)
    then have "r = e" using r(1) d1 by (simp add: remediate_file_def)
    moreover have "\<exists>m. e = Failed m" using Inl by (auto simp: put_content_def split: option.splits if_splits)
    ultimately show ?thesis using r(2) by auto
  qed auto
  have s': "s' = snd (set_mode_owner env p md owner (s\<lparr>sys_disk := d2\<rparr>))"
    using r(1) d1 d2 by (auto simp: remediate_file_def split: prod.splits sum.splits)
  then have disk: "sys_disk s' = d2" by simp
  show "file_as_declared env (sys_disk s') p content True"
    unfolding disk by (rule put_content_declared(1) [OF d2 q u])
  show "create_dir_all (sys_disk s') (butlast (locate env p)) = Some (sys_disk s')"
    unfolding disk by (rule create_dir_all_again [OF d1 _ q]) (simp add: put_content_declared(2) [OF d2 q u])
qed

lemma remediate_file_idle:
  assumes "file_as_declared env (sys_disk s) p content True" "create_dir_all (sys_disk s) (butlast (locate env p)) = Some (sys_disk s)"
  shows "sys_disk (snd (remediate_file env p content md owner True s)) = sys_disk s"
    "fst (remediate_file env p content md owner True s) \<noteq> Applied"
proof -
  obtain r s' where m: "set_mode_owner env p md owner s = (r, s')" by (cases "set_mode_owner env p md owner s")
  have "sys_disk s' = sys_disk s" using set_mode_owner_disk [of env p md owner s] m by simp
  then show "sys_disk (snd (remediate_file env p content md owner True s)) = sys_disk s"
    "fst (remediate_file env p content md owner True s) \<noteq> Applied"
    using assms set_mode_owner_fails [of env p md owner s] m
    by (auto simp: remediate_file_def put_content_idle split: sum.split)
qed

lemma remediate_file_absent:
  assumes "remediate_file env p content md owner False s = (r, s')" "r = Applied \<or> r = NoChange" "locate env p \<noteq> []"
  shows "file_as_declared env (sys_disk s') p content False"
  using assms
  by (auto simp: remediate_file_def remove_declared_def remove_file_at_def file_as_declared_def path_exists_def node_at_remove Let_def
      split: option.splits if_splits)

lemma remediate_file_absent_idle:
  assumes "file_as_declared env (sys_disk s) p content False"
  shows "sys_disk (snd (remediate_file env p content md owner False s)) = sys_disk s"
    "fst (remediate_file env p content md owner False s) \<noteq> Applied"
  using assms by (auto simp: remediate_file_def remove_declared_def remove_file_at_def file_as_declared_def path_exists_def file_at_def)

text \<open>Where nothing is in the way, a file declaration without mode and owner is remediated.\<close>

lemma remediate_file_succeeds:
  assumes q: "locate env p \<noteq> []" and n: "node_at (sys_disk s) (locate env p) \<noteq> Some DDir"
    and v: "\<And>v. strict_prefix v (locate env p) \<Longrightarrow> node_at (sys_disk s) v = None \<or> node_at (sys_disk s) v = Some DDir"
  shows "fst (remediate_file env p content None None present s) \<in> {Applied, NoChange}"
proof (cases present)
  case True
  obtain d1 where d1: "create_dir_all (sys_disk s) (butlast (locate env p)) = Some d1"
      "\<And>b. write_at d1 (locate env p) b \<noteq> None"
  proof -
    obtain d' where "create_and_write (sys_disk s) (locate env p) [] = Inr d'"
      using create_and_write_ok [OF q v n] by blast
    then show ?thesis
      using that by (auto simp: create_and_write_def write_at_def split: option.splits if_splits)
  qed
  have "\<exists>c d2. put_content env p content d1 = Inr (c, d2)"
    using d1(2) [of "[]"] d1(2) [of "as_bytes (the content)"] by (auto simp: put_content_def split: option.splits)
  then show ?thesis
    using True d1(1) by (auto simp: remediate_file_def split: if_splits)
next
  case False
  have "\<not> blocked_by_file (sys_disk s) (locate env p)"
  proof
    assume "blocked_by_file (sys_disk s) (locate env p)"
    then obtain k where k: "k < length (locate env p)" "file_at (sys_disk s) (take k (locate env p)) \<noteq> None"
      by (auto simp: blocked_by_file_def list_ex_iff)
    have "strict_prefix (take k (locate env p)) (locate env p)"
      using k(1) by (auto simp: strict_prefix_def take_is_prefix)
    then show False using v k(2) by (fastforce simp: file_at_def)
  qed
  then show ?thesis
    using False n by (cases "node_at (sys_disk s) (locate env p)")
      (auto simp: remediate_file_def remove_declared_def remove_file_at_def file_at_def split: dnode.split)
qed

section \<open>Properties\<close>

text \<open>
  C25. Remediating a file declaration works and is stable. When it reports success, the state collected from the system afterwards
  passes the check of the declaration, and a second remediation does not change the disk and does not report a change. When no file is in the way above the path, the path is
  not a directory and neither mode nor owner is declared, it reports success. \<open>from_utf8\<close> is \<open>String::from_utf8\<close>, which gives back
  the declared text from its bytes.
\<close>

theorem file_remediation_converges:
  assumes "D = FileDecl p content md owner present" and "locate env p \<noteq> []" and "p \<in> set paths"
    and "\<And>want. content = Some want \<Longrightarrow> from_utf8 env (as_bytes want) = Some want"
    and "remediate env D s = (r, s')"
  shows "(r = Applied \<or> r = NoChange \<longrightarrow>
      severity (check_declaration cenv (collect_system_state env s' paths keys) D) = Compliant \<and>
      sys_disk (snd (remediate env D s')) = sys_disk s' \<and> fst (remediate env D s') \<noteq> Applied) \<and>
    (node_at (sys_disk s) (locate env p) \<noteq> Some DDir \<and> md = None \<and> owner = None \<and>
      (\<forall>v. strict_prefix v (locate env p) \<longrightarrow> node_at (sys_disk s) v = None \<or> node_at (sys_disk s) v = Some DDir) \<longrightarrow>
      r = Applied \<or> r = NoChange)"
proof (intro conjI impI)
  have r: "remediate_file env p content md owner present s = (r, s')" using assms(1,5) by simp
  assume ok: "r = Applied \<or> r = NoChange"
  have decl: "file_as_declared env (sys_disk s') p content present"
    using remediate_file_present(1) [OF _ ok assms(2,4)] remediate_file_absent [OF _ ok assms(2)] r by (cases present) auto
  then show "severity (check_declaration cenv (collect_system_state env s' paths keys) D) = Compliant"
    using check_file_as_declared [OF assms(3)] assms(1) by simp
  have "sys_disk (snd (remediate_file env p content md owner present s')) = sys_disk s' \<and>
      fst (remediate_file env p content md owner present s') \<noteq> Applied"
  proof (cases present)
    case True
    then show ?thesis
      using remediate_file_idle decl remediate_file_present(2) [OF _ ok assms(2,4)] r by simp
  next
    case False
    then show ?thesis using remediate_file_absent_idle decl by simp
  qed
  then show "sys_disk (snd (remediate env D s')) = sys_disk s'" "fst (remediate env D s') \<noteq> Applied"
    using assms(1) by simp_all
next
  assume h: "node_at (sys_disk s) (locate env p) \<noteq> Some DDir \<and> md = None \<and> owner = None \<and>
      (\<forall>v. strict_prefix v (locate env p) \<longrightarrow> node_at (sys_disk s) v = None \<or> node_at (sys_disk s) v = Some DDir)"
  then have "fst (remediate_file env p content None None present s) \<in> {Applied, NoChange}"
    by (intro remediate_file_succeeds assms(2)) auto
  then show "r = Applied \<or> r = NoChange" using assms(1,5) h by simp
qed

definition example_env :: sys_env where
  "example_env = \<lparr>os = Linux, locate = (\<lambda>p. filter (\<lambda>c. c \<noteq> []) (split_on (CHR ''/'') p)), from_utf8 = (\<lambda>b. Some (map (\<lambda>w. char_of (unat w)) b)),
     env_var = (\<lambda>_. None), may_chmod = (\<lambda>_ _. True), exec = (\<lambda>_ _. Inr (True, [], []))\<rparr>"

definition example_check_env :: check_env where
  "example_check_env = \<lparr>target_os = Linux, semver = (\<lambda>_. None), netsh = (\<lambda>_. None), pfctl = None, nft = None, iptables_save = None,
     ip6tables_save = None, shell = (\<lambda>_. Inr (Some 0))\<rparr>"

definition example_motd :: state_declaration where
  "example_motd = FileDecl ''/etc/motd'' (Some ''hi'') (Some ''0644'') None True"

definition example_fresh :: sys where
  "example_fresh = \<lparr>sys_disk = [], file_modes = [], started = []\<rparr>"

text \<open>A missing message of the day is written with its directory and then passes the check.\<close>

theorem file_remediation_converges_witness:
  "fst (remediate example_env example_motd example_fresh) = Applied \<and>
   severity (check_declaration example_check_env
     (collect_system_state example_env (snd (remediate example_env example_motd example_fresh)) [''/etc/motd''] []) example_motd) = Compliant \<and>
   fst (remediate example_env example_motd (snd (remediate example_env example_motd example_fresh))) \<noteq> Applied"
proof -
  have l: "locate example_env ''/etc/motd'' \<noteq> []" by code_simp
  have u: "from_utf8 example_env (as_bytes w) = Some w" if "Some ''hi'' = Some w" for w
  proof -
    have "from_utf8 example_env (as_bytes ''hi'') = Some ''hi''" by code_simp
    then show ?thesis using that by simp
  qed
  have f: "fst (remediate example_env example_motd example_fresh) = Applied" by code_simp
  show ?thesis
    using file_remediation_converges [OF example_motd_def l _ u prod.collapse [symmetric], of "[''/etc/motd'']" example_fresh example_check_env "[]"] f
    by simp
qed

text \<open>
  A service name that begins with a dash is accepted, so \<open>systemctl\<close> reads it as an option: here it is told to work on
  another host.
\<close>

theorem service_name_taken_as_option:
  "remediate example_env (Service ''-Hroot@evil'' Running True) example_fresh =
     (Applied, example_fresh\<lparr>started := [[''systemctl'', ''start'', ''-Hroot@evil''], [''systemctl'', ''enable'', ''-Hroot@evil'']]\<rparr>)"
  by code_simp

text \<open>A package that \<open>dpkg\<close> lists as not installed counts as installed.\<close>

theorem not_installed_counts_as_installed:
  "hm_get (dpkg_line [] (''vim'' @ [CHR 0x09, CHR ''9'', CHR 0x09] @ ''unknown ok not-installed'')) ''vim'' = Some ''9''"
  by code_simp

text \<open>A system user is skipped by the collector, so a declaration that it is absent passes.\<close>

theorem system_user_counts_as_absent:
  "severity (check_declaration example_check_env
     (collect_system_state example_env
        (example_fresh\<lparr>sys_disk := [([''etc'', ''passwd''], DFile (as_bytes ''games:x:5:60:games:/usr/games:/bin/sh''))]\<rparr>) [] [])
     (User ''games'' [] False)) = Compliant"
  by code_simp

text \<open>A mode that is not octal is ignored and the remediation still reports success.\<close>

theorem unreadable_mode_ignored:
  "remediate example_env (FileDecl ''/f'' None (Some ''u=rw'') None True) example_fresh =
     (Applied, example_fresh\<lparr>sys_disk := [([''f''], DFile [])]\<rparr>)"
  by code_simp

end
