(* ===== verification/Auth_Token.thy ===== *)
theory Auth_Token
  imports Rust_Std
begin

unbundle bit_operations_syntax

text \<open>
  Tokens and session cookies (\<open>crates/runesh-auth/src/error.rs\<close>, \<open>token.rs\<close> and \<open>session.rs\<close>).

  The crate jsonwebtoken is the parameter \<open>jwt_api\<close>, which also knows the time; the digests (SHA-256, HMAC-SHA256), the random bytes and the clock
  are arguments. An i64 time stamp is an \<open>int\<close>.
\<close>

section \<open>Tokens\<close>

datatype auth_error =
  Unauthorized
| Forbidden string
| BadRequest string
| OidcNotConfigured
| Discovery string
| TokenExchange string
| AuthInternal string
| HttpError string
| JwtError string
| TokenInvalid string

record token_config =
  secret :: string
  access_token_ttl :: int
  refresh_token_ttl :: int
  required_iss :: "string option"
  required_aud :: "string list"

definition token_config_new :: "string \<Rightarrow> auth_error + token_config" where
  "token_config_new s =
     (if length s < 32 then Inl (BadRequest ''JWT secret too short (expected >= 32 bytes for HMAC-SHA256)'')
      else Inr \<lparr>secret = s, access_token_ttl = 900, refresh_token_ttl = 2592000, required_iss = None, required_aud = []\<rparr>)"

definition with_issuer :: "string \<Rightarrow> token_config \<Rightarrow> token_config" where
  "with_issuer i c = c\<lparr>required_iss := Some i\<rparr>"

definition with_audience :: "string list \<Rightarrow> token_config \<Rightarrow> token_config" where
  "with_audience a c = c\<lparr>required_aud := a\<rparr>"

record claims =
  subject :: string
  email :: string
  user_name :: string
  role :: string
  permissions :: "string list"
  exp_at :: int
  iat :: int
  iss :: "string option"
  aud :: "string list option"

datatype algorithm = HS256 | HS384 | HS512 | ES256 | ES384 | RS256 | RS384 | RS512 | PS256 | PS384 | PS512 | EdDSA

record validation =
  val_alg :: algorithm
  val_signed :: bool
  val_exp :: bool
  val_iss :: "string option"
  val_aud :: "string list option"
  val_required :: "string list"

record oidc_claims =
  oc_sub :: string
  oc_email :: "string option"
  oc_name :: "string option"
  oc_preferred_username :: "string option"
  oc_exp :: int
  oc_iat :: "int option"
  oc_realm_roles :: "string list option"

record id_token_claims =
  ic_sub :: string
  ic_email :: "string option"
  ic_preferred_username :: "string option"
  ic_name :: "string option"
  ic_oid :: "string option"
  ic_picture :: "string option"
  ic_groups :: "string list option"

record 'key jwt_api =
  from_secret :: "string \<Rightarrow> 'key"
  from_rsa_components :: "string \<Rightarrow> string \<Rightarrow> string + 'key"
  from_ec_components :: "string \<Rightarrow> string \<Rightarrow> string + 'key"
  from_ed_components :: "string \<Rightarrow> string + 'key"
  decode_header :: "string \<Rightarrow> string + (algorithm \<times> string option)"
  encode_jwt :: "algorithm \<Rightarrow> claims \<Rightarrow> 'key \<Rightarrow> string + string"
  decode_claims :: "string \<Rightarrow> 'key \<Rightarrow> validation \<Rightarrow> string + claims"
  decode_oidc :: "string \<Rightarrow> 'key \<Rightarrow> validation \<Rightarrow> string + oidc_claims"
  decode_id :: "string \<Rightarrow> 'key \<Rightarrow> validation \<Rightarrow> string + id_token_claims"

definition map_err :: "('e \<Rightarrow> 'f) \<Rightarrow> 'e + 'a \<Rightarrow> 'f + 'a" where
  "map_err f r = map_sum f (\<lambda>x. x) r"

definition issue_access_token ::
    "'key jwt_api \<Rightarrow> int \<Rightarrow> token_config \<Rightarrow> string \<Rightarrow> string \<Rightarrow> string \<Rightarrow> string \<Rightarrow> string list \<Rightarrow> auth_error + string \<times> int" where
  "issue_access_token api now config user_id em nm rl perms =
     (if required_iss config = Some [] then Inl (AuthInternal ''TokenConfig.required_iss set but empty'')
      else if list_ex (\<lambda>a. a = []) (required_aud config) then
        Inl (AuthInternal ''TokenConfig.required_aud contains empty string'')
      else
        let c = \<lparr>subject = user_id, email = em, user_name = nm, role = rl, permissions = perms,
                 exp_at = now + access_token_ttl config, iat = now, iss = required_iss config,
                 aud = (if required_aud config = [] then None else Some (required_aud config))\<rparr>
        in rbind (map_err JwtError (encode_jwt api HS256 c (from_secret api (secret config)))) (\<lambda>t.
             Inr (t, access_token_ttl config)))"

definition access_validation :: "token_config option \<Rightarrow> validation" where
  "access_validation config =
     (let i = (case config of Some cfg \<Rightarrow> required_iss cfg | None \<Rightarrow> None);
          a = (case config of Some cfg \<Rightarrow> if required_aud cfg \<noteq> [] then Some (required_aud cfg) else None | None \<Rightarrow> None)
      in \<lparr>val_alg = HS256, val_signed = True, val_exp = True, val_iss = i, val_aud = a,
          val_required = [''sub'', ''exp''] @ (if i \<noteq> None then [''iss''] else []) @ (if a \<noteq> None then [''aud''] else [])\<rparr>)"

definition validate_access_token_with :: "'key jwt_api \<Rightarrow> string \<Rightarrow> string \<Rightarrow> token_config option \<Rightarrow> auth_error + claims" where
  "validate_access_token_with api token sec config =
     map_err JwtError (decode_claims api token (from_secret api sec) (access_validation config))"

definition validate_access_token :: "'key jwt_api \<Rightarrow> string \<Rightarrow> string \<Rightarrow> auth_error + claims" where
  "validate_access_token api token sec = validate_access_token_with api token sec None"

definition encode_hex :: "u8 list \<Rightarrow> string" where
  "encode_hex bs = concat (map hex_u8 bs)"

definition ct_eq :: "string \<Rightarrow> string \<Rightarrow> bool" where
  "ct_eq a b = (foldl (\<lambda>acc (x, y). acc OR (x XOR y)) 0 (zip (as_bytes a) (as_bytes b)) = 0)"

definition generate_refresh_token :: "u8 list \<Rightarrow> string" where
  "generate_refresh_token rnd = encode_hex rnd"

definition hash_refresh_token :: "(u8 list \<Rightarrow> u8 list) \<Rightarrow> string \<Rightarrow> string" where
  "hash_refresh_token sha token = encode_hex (sha (as_bytes token))"

definition verify_refresh_token :: "(u8 list \<Rightarrow> u8 list) \<Rightarrow> string \<Rightarrow> string \<Rightarrow> bool" where
  "verify_refresh_token sha token stored_hash =
     (let computed = hash_refresh_token sha token in
      if length computed \<noteq> length stored_hash then False else ct_eq computed stored_hash)"

definition has_permission :: "claims \<Rightarrow> string \<Rightarrow> bool" where
  "has_permission c p = (role c = ''admin'' \<or> p \<in> set (permissions c))"

section \<open>Session cookies\<close>

record session_config =
  secure :: bool
  cookie_path :: string
  use_host_prefix :: bool

definition production :: session_config where
  "production = \<lparr>secure = True, cookie_path = ''/'', use_host_prefix = True\<rparr>"

definition dev :: session_config where
  "dev = \<lparr>secure = False, cookie_path = ''/'', use_host_prefix = False\<rparr>"

definition prefixed :: "session_config \<Rightarrow> string \<Rightarrow> string" where
  "prefixed cfg n = (if use_host_prefix cfg then ''__Host-'' @ n else n)"

definition access_cookie_name :: "session_config \<Rightarrow> string" where
  "access_cookie_name cfg = prefixed cfg ''access''"

definition refresh_cookie_name :: "session_config \<Rightarrow> string" where
  "refresh_cookie_name cfg = prefixed cfg ''refresh''"

definition csrf_cookie_name :: "session_config \<Rightarrow> string" where
  "csrf_cookie_name cfg = prefixed cfg ''csrf''"

definition build_cookie :: "session_config \<Rightarrow> string \<Rightarrow> string \<Rightarrow> int \<Rightarrow> bool \<Rightarrow> string \<Rightarrow> string" where
  "build_cookie cfg n v max_age http_only same_site =
     join_with ''; ''
       ([n @ ''='' @ v, ''Path='' @ cookie_path cfg, ''Max-Age='' @ show_int max_age, ''SameSite='' @ same_site] @
        (if http_only then [''HttpOnly''] else []) @ (if secure cfg then [''Secure''] else []))"

definition access_cookie :: "session_config \<Rightarrow> string \<Rightarrow> int \<Rightarrow> string" where
  "access_cookie cfg token max_age = build_cookie cfg (access_cookie_name cfg) token max_age True ''Lax''"

definition refresh_cookie :: "session_config \<Rightarrow> string \<Rightarrow> int \<Rightarrow> string" where
  "refresh_cookie cfg token max_age = build_cookie cfg (refresh_cookie_name cfg) token max_age True ''Strict''"

definition csrf_cookie :: "session_config \<Rightarrow> string \<Rightarrow> string" where
  "csrf_cookie cfg token = build_cookie cfg (csrf_cookie_name cfg) token (86400 * 365) False ''Lax''"

definition clear_cookie :: "session_config \<Rightarrow> string \<Rightarrow> string" where
  "clear_cookie cfg n = build_cookie cfg n [] 0 True ''Lax''"

record digests =
  sha256 :: "u8 list \<Rightarrow> u8 list"
  hmac_sha256 :: "u8 list \<Rightarrow> u8 list \<Rightarrow> u8 list"

definition csrf_mac :: "digests \<Rightarrow> string \<Rightarrow> string \<Rightarrow> string \<Rightarrow> string" where
  "csrf_mac dg sec random access_token =
     encode_hex (hmac_sha256 dg (as_bytes sec) (as_bytes random @ as_bytes (encode_hex (sha256 dg (as_bytes access_token)))))"

definition generate_csrf_token :: "digests \<Rightarrow> u8 list \<Rightarrow> string \<Rightarrow> string \<Rightarrow> string" where
  "generate_csrf_token dg rnd sec access_token =
     (let random = encode_hex rnd in random @ ''.'' @ csrf_mac dg sec random access_token)"

definition verify_csrf_token :: "digests \<Rightarrow> string \<Rightarrow> string \<Rightarrow> string \<Rightarrow> bool" where
  "verify_csrf_token dg csrf_token sec access_token =
     (case split_once CHR ''.'' csrf_token of
        None \<Rightarrow> False
      | Some (random, provided) \<Rightarrow>
          (let expected = csrf_mac dg sec random access_token in
           if length expected \<noteq> length provided then False else ct_eq expected provided))"

definition set_session_cookies :: "digests \<Rightarrow> u8 list \<Rightarrow> session_config \<Rightarrow> token_config \<Rightarrow> string \<Rightarrow> string \<Rightarrow> string list \<times> string" where
  "set_session_cookies dg rnd cfg tc access_token refresh_token =
     (let csrf = generate_csrf_token dg rnd (secret tc) access_token
      in ([access_cookie cfg access_token (access_token_ttl tc), refresh_cookie cfg refresh_token (refresh_token_ttl tc),
           csrf_cookie cfg csrf], csrf))"

definition clear_session_cookies :: "session_config \<Rightarrow> string list" where
  "clear_session_cookies cfg = map (clear_cookie cfg) [access_cookie_name cfg, refresh_cookie_name cfg, csrf_cookie_name cfg]"

text \<open>A cookie jar maps names to values.\<close>

definition extract_access_token :: "(string, string) hash_map \<Rightarrow> session_config \<Rightarrow> string option" where
  "extract_access_token jar cfg = hm_get jar (access_cookie_name cfg)"

definition extract_refresh_token :: "(string, string) hash_map \<Rightarrow> session_config \<Rightarrow> string option" where
  "extract_refresh_token jar cfg = hm_get jar (refresh_cookie_name cfg)"

definition csrf_matches :: "string option \<Rightarrow> string option \<Rightarrow> bool" where
  "csrf_matches cookie header =
     (case (cookie, header) of
        (Some c, Some h) \<Rightarrow> c \<noteq> [] \<and> length c = length h \<and> ct_eq c h
      | _ \<Rightarrow> False)"

definition validate_csrf :: "(string, string) hash_map \<Rightarrow> string option \<Rightarrow> session_config \<Rightarrow> bool" where
  "validate_csrf jar header cfg = csrf_matches (hm_get jar (csrf_cookie_name cfg)) header"

section \<open>Comparisons and encodings\<close>

lemma fold_diff_zero:
  fixes acc :: "'a::len word"
  shows "foldl (\<lambda>acc (x, y). acc OR (x XOR y)) acc zs = 0 \<longleftrightarrow> acc = 0 \<and> (\<forall>(x, y) \<in> set zs. x = y)"
proof (induction zs arbitrary: acc)
  case (Cons z zs)
  obtain x y where z: "z = (x, y)" by (cases z)
  have "x XOR y = 0 \<longleftrightarrow> x = y" by (auto intro: bit_word_eqI simp: bit_eq_iff bit_simps)
  then show ?case using Cons by (auto simp: z or_eq_0_iff)
qed simp

lemma ct_eq_iff:
  assumes "length a = length b"
  shows "ct_eq a b \<longleftrightarrow> a = b"
proof -
  have "ct_eq a b \<longleftrightarrow> list_all2 (=) (as_bytes a) (as_bytes b)"
    using assms unfolding ct_eq_def fold_diff_zero by (simp add: list_all2_iff)
  then show ?thesis by (simp add: list.rel_eq)
qed

lemma csrf_matches_iff [simp]: "csrf_matches c h \<longleftrightarrow> (\<exists>v. v \<noteq> [] \<and> c = Some v \<and> h = Some v)"
  by (auto simp: csrf_matches_def ct_eq_iff split: option.splits)

lemma encode_hex_inj: "encode_hex a = encode_hex b \<longleftrightarrow> a = b"
proof (induction a arbitrary: b)
  case Nil
  show ?case by (cases b) (auto simp: encode_hex_def hex_u8_def)
next
  case (Cons x a)
  show ?case
  proof (cases b)
    case (Cons y b')
    have "encode_hex (x # a) = encode_hex b \<longleftrightarrow> hex_u8 x = hex_u8 y \<and> encode_hex a = encode_hex b'"
      by (simp add: Cons encode_hex_def append_eq_append_conv)
    then show ?thesis using Cons.IH Cons by (simp add: hex_u8_inj)
  qed (simp add: encode_hex_def hex_u8_def)
qed

lemma length_encode_hex: "length (encode_hex bs) = 2 * length bs"
  by (induction bs) (simp_all add: encode_hex_def)

lemma hex_char:
  assumes "c \<in> set (encode_hex bs)"
  shows "is_ascii_alphanumeric c"
proof -
  obtain b where "c \<in> set (hex_u8 b)" using assms by (auto simp: encode_hex_def)
  then have "c = hex_digit (unat b div 16) \<or> c = hex_digit (unat b mod 16)" by (simp add: hex_u8_def)
  moreover have "is_ascii_alphanumeric (hex_digit n)" if "n < 16" for n
    using that by (simp add: is_ascii_alphanumeric_def of_char_hex_digit)
  moreover have "unat b div 16 < 16" using unsigned_less [of b, where 'a = nat] by simp
  ultimately show ?thesis by auto
qed

lemma verify_refresh_token_iff:
  "verify_refresh_token sha t h \<longleftrightarrow> h = hash_refresh_token sha t"
  by (auto simp: verify_refresh_token_def Let_def ct_eq_iff)

text \<open>
  A CSRF token verifies for the secret and the access token it was made for, and for another access token
  exactly if the HMACs of the two collide.
\<close>

theorem csrf_token_bound:
  "verify_csrf_token dg (generate_csrf_token dg rnd sec t) sec t' \<longleftrightarrow>
     hmac_sha256 dg (as_bytes sec) (as_bytes (encode_hex rnd) @ as_bytes (encode_hex (sha256 dg (as_bytes t')))) =
     hmac_sha256 dg (as_bytes sec) (as_bytes (encode_hex rnd) @ as_bytes (encode_hex (sha256 dg (as_bytes t))))"
proof -
  have "CHR ''.'' \<notin> set (encode_hex rnd)" using hex_char by (force simp: is_ascii_alphanumeric_def)
  then have "split_once (CHR ''.'') (generate_csrf_token dg rnd sec t) = Some (encode_hex rnd, csrf_mac dg sec (encode_hex rnd) t)"
    by (simp add: generate_csrf_token_def Let_def split_once_append)
  moreover have "length (encode_hex a) \<noteq> length (encode_hex b) \<Longrightarrow> a \<noteq> b" for a b by auto
  ultimately show ?thesis
    by (auto simp: verify_csrf_token_def csrf_mac_def Let_def ct_eq_iff encode_hex_inj)
qed

end
