(* ===== verification/Auth_Middleware.thy ===== *)
theory Auth_Middleware
  imports Auth_Token
begin

text \<open>
  Verification of bearer tokens of an identity provider (\<open>crates/runesh-auth/src/jwks.rs\<close>) and the authentication
  middleware (\<open>axum_middleware.rs\<close>).

  The answers of the provider's HTTP endpoints and the clock are inputs. The lock around the
  key cache is released between the look-ups, so the state is passed from step to step.
\<close>

section \<open>Keys of the identity provider\<close>

record jwk =
  kid :: string
  kty :: string
  jwk_n :: "string option"
  jwk_e :: "string option"
  jwk_x :: "string option"
  jwk_y :: "string option"

record 'key cached_keys =
  cached :: "(string, 'key) hash_map"
  fetched_at :: nat

record 'key oidc_verifier =
  v_issuer :: string
  v_audience :: "string option"
  v_jwks_uri :: string
  cache_ttl :: nat
  v_keys :: "'key cached_keys option"

definition discover_verifier :: "string \<Rightarrow> string option \<Rightarrow> auth_error + string \<Rightarrow> auth_error + 'key oidc_verifier" where
  "discover_verifier issuer audience doc =
     rbind doc (\<lambda>uri. Inr \<lparr>v_issuer = issuer, v_audience = audience, v_jwks_uri = uri, cache_ttl = 3600, v_keys = None\<rparr>)"

definition is_asymmetric :: "algorithm \<Rightarrow> bool" where
  "is_asymmetric alg = (alg \<in> set [RS256, RS384, RS512, ES256, ES384, PS256, PS384, PS512, EdDSA])"

definition decoding_key_from_jwk :: "'key jwt_api \<Rightarrow> jwk \<Rightarrow> auth_error + 'key" where
  "decoding_key_from_jwk api k =
     (if kty k = ''RSA'' then
        rbind (ok_or (TokenInvalid ''RSA jwk missing n'') (jwk_n k)) (\<lambda>n.
        rbind (ok_or (TokenInvalid ''RSA jwk missing e'') (jwk_e k)) (\<lambda>e.
        map_err JwtError (from_rsa_components api n e)))
      else if kty k = ''EC'' then
        rbind (ok_or (TokenInvalid ''EC jwk missing x'') (jwk_x k)) (\<lambda>x.
        rbind (ok_or (TokenInvalid ''EC jwk missing y'') (jwk_y k)) (\<lambda>y.
        map_err JwtError (from_ec_components api x y)))
      else if kty k = ''OKP'' then
        rbind (ok_or (TokenInvalid ''OKP jwk missing x'') (jwk_x k)) (\<lambda>x.
        map_err JwtError (from_ed_components api x))
      else Inl (TokenInvalid (''unsupported JWK kty: '' @ kty k)))"

definition add_jwk :: "'key jwt_api \<Rightarrow> (string, 'key) hash_map \<Rightarrow> jwk \<Rightarrow> (string, 'key) hash_map" where
  "add_jwk api keys k = (case decoding_key_from_jwk api k of Inr key \<Rightarrow> hm_insert (kid k) key keys | Inl _ \<Rightarrow> keys)"

definition refresh_keys ::
    "'key jwt_api \<Rightarrow> auth_error + jwk list \<Rightarrow> nat \<Rightarrow> 'key oidc_verifier \<Rightarrow> (auth_error + unit) \<times> 'key oidc_verifier" where
  "refresh_keys api fetched now v =
     (case fetched of
        Inl e \<Rightarrow> (Inl e, v)
      | Inr ks \<Rightarrow> (Inr (), v\<lparr>v_keys := Some \<lparr>cached = foldl (add_jwk api) [] ks, fetched_at = now\<rparr>\<rparr>))"

definition lookup_key ::
    "'key jwt_api \<Rightarrow> auth_error + jwk list \<Rightarrow> nat \<Rightarrow> 'key oidc_verifier \<Rightarrow> string \<Rightarrow> (auth_error + 'key) \<times> 'key oidc_verifier" where
  "lookup_key api fetched now v i =
     (case (case v_keys v of
              Some c \<Rightarrow> if now - fetched_at c < cache_ttl v then hm_get (cached c) i else None
            | None \<Rightarrow> None) of
        Some key \<Rightarrow> (Inr key, v)
      | None \<Rightarrow>
          (case refresh_keys api fetched now v of
             (Inl e, v) \<Rightarrow> (Inl e, v)
           | (Inr _, v) \<Rightarrow>
               (ok_or (TokenInvalid (''kid '' @ i @ '' not found in JWKS''))
                  (Option.bind (v_keys v) (\<lambda>c. hm_get (cached c) i)), v)))"

definition provider_role :: "string \<Rightarrow> bool" where
  "provider_role r = (\<not> starts_with ''default-roles-'' r \<and> \<not> starts_with ''offline_'' r \<and> \<not> starts_with ''uma_'' r)"

definition into_runesh_claims :: "oidc_claims \<Rightarrow> string option \<Rightarrow> string list option \<Rightarrow> claims" where
  "into_runesh_claims c i a =
     \<lparr>subject = oc_sub c, email = (case oc_email c of Some e \<Rightarrow> e | None \<Rightarrow> []),
      user_name = (case oc_name c of Some n \<Rightarrow> n | None \<Rightarrow> (case oc_preferred_username c of Some n \<Rightarrow> n | None \<Rightarrow> ''user'')),
      role = (case Option.bind (oc_realm_roles c) (find provider_role) of Some r \<Rightarrow> r | None \<Rightarrow> ''user''),
      permissions = (case oc_realm_roles c of Some rs \<Rightarrow> rs | None \<Rightarrow> []),
      exp_at = oc_exp c, iat = (case oc_iat c of Some t \<Rightarrow> t | None \<Rightarrow> 0), iss = i, aud = a\<rparr>"

definition oidc_validation :: "'key oidc_verifier \<Rightarrow> algorithm \<Rightarrow> validation" where
  "oidc_validation v alg =
     \<lparr>val_alg = alg, val_signed = True, val_exp = True, val_iss = Some (v_issuer v),
      val_aud = map_option (\<lambda>a. [a]) (v_audience v), val_required = [''exp'', ''iss'']\<rparr>"

definition validate_oidc ::
    "'key jwt_api \<Rightarrow> auth_error + jwk list \<Rightarrow> nat \<Rightarrow> 'key oidc_verifier \<Rightarrow> string \<Rightarrow> (auth_error + claims) \<times> 'key oidc_verifier" where
  "validate_oidc api fetched now v token =
     (case decode_header api token of
        Inl e \<Rightarrow> (Inl (JwtError e), v)
      | Inr (alg, i) \<Rightarrow>
          if \<not> is_asymmetric alg then (Inl (TokenInvalid ''OIDC verifier rejected algorithm''), v)
          else (case i of
             None \<Rightarrow> (Inl (TokenInvalid ''missing kid in JWT header''), v)
           | Some i \<Rightarrow>
               (case lookup_key api fetched now v i of
                  (Inl e, v) \<Rightarrow> (Inl e, v)
                | (Inr key, v) \<Rightarrow>
                    (rbind (map_err JwtError (decode_oidc api token key (oidc_validation v alg))) (\<lambda>c.
                       Inr (into_runesh_claims c (Some (v_issuer v)) (map_option (\<lambda>a. [a]) (v_audience v)))), v))))"

section \<open>The middleware\<close>

datatype http_method = GET | HEAD | POST | PUT | PATCH | DELETE | OPTIONS | OtherMethod

text \<open>The headers are those with a readable value, under their lower-case names.\<close>

record request =
  req_path :: string
  req_method :: http_method
  req_headers :: "(string, string) hash_map"

record 'key extensions =
  exempt_paths :: "string list option"
  jwt_secret :: "string option"
  api_keys :: "(string \<Rightarrow> claims option) option"
  verifier :: "'key oidc_verifier option"

text \<open>A request is passed on, with the claims attached to it if there are any, or answered.\<close>

datatype answer = Next "claims option" | Reply nat string

definition default_exempt :: "string list" where
  "default_exempt = [''/auth/'', ''/health'']"

definition is_static_asset :: "string \<Rightarrow> bool" where
  "is_static_asset p =
     (\<not> starts_with ''/api/'' p \<and>
      (starts_with ''/_next/'' p \<or> starts_with ''/static/'' p \<or> starts_with ''/assets/'' p \<or>
       p \<in> set [''/favicon.ico'', ''/robots.txt'', ''/sitemap.xml'', ''/manifest.webmanifest'']))"

definition exempt_match :: "string \<Rightarrow> string \<Rightarrow> bool" where
  "exempt_match p e = (if ends_with ''/'' e then starts_with e p else p = e \<or> starts_with (e @ ''/'') p)"

definition is_exempt :: "string list \<Rightarrow> string \<Rightarrow> bool" where
  "is_exempt es p = (p = ''/'' \<or> list_ex (exempt_match p) es)"

definition bearer_token :: "request \<Rightarrow> string option" where
  "bearer_token req = Option.bind (hm_get (req_headers req) ''authorization'') (strip_prefix ''Bearer '')"

definition cookie_of :: "string \<Rightarrow> string \<Rightarrow> string option" where
  "cookie_of n part =
     (let c = trim part in
      case strip_prefix (''__Host-'' @ n @ ''='') c of Some v \<Rightarrow> Some v | None \<Rightarrow> strip_prefix (n @ ''='') c)"

fun find_map :: "('a \<Rightarrow> 'b option) \<Rightarrow> 'a list \<Rightarrow> 'b option" where
  "find_map f [] = None"
| "find_map f (x # xs) = (case f x of Some y \<Rightarrow> Some y | None \<Rightarrow> find_map f xs)"

definition find_cookie :: "string \<Rightarrow> string \<Rightarrow> string option" where
  "find_cookie n s = find_map (cookie_of n) (split_on (CHR '';'') s)"

definition cookie_str :: "request \<Rightarrow> string" where
  "cookie_str req = (case hm_get (req_headers req) ''cookie'' of Some s \<Rightarrow> s | None \<Rightarrow> [])"

definition soft_auth :: "'key jwt_api \<Rightarrow> 'key extensions \<Rightarrow> request \<Rightarrow> answer" where
  "soft_auth api ext req =
     (case (jwt_secret ext, bearer_token req) of
        (Some s, Some t) \<Rightarrow> (case validate_access_token api t s of Inr c \<Rightarrow> Next (Some c) | Inl _ \<Rightarrow> Next None)
      | _ \<Rightarrow> Next None)"

definition alg_is_asymmetric :: "'key jwt_api \<Rightarrow> string \<Rightarrow> bool" where
  "alg_is_asymmetric api token = (case decode_header api token of Inr (alg, _) \<Rightarrow> is_asymmetric alg | Inl _ \<Rightarrow> False)"

definition check_token ::
    "'key jwt_api \<Rightarrow> auth_error + jwk list \<Rightarrow> nat \<Rightarrow> 'key extensions \<Rightarrow> string \<Rightarrow> string \<Rightarrow> answer \<times> 'key oidc_verifier option" where
  "check_token api fetched now ext sec token =
     (if alg_is_asymmetric api token then
        (case verifier ext of
           None \<Rightarrow> (Reply 401 ''OIDC bearer not accepted (no verifier configured)'', None)
         | Some v \<Rightarrow>
             (case validate_oidc api fetched now v token of
                (Inr c, v) \<Rightarrow> (Next (Some c), Some v)
              | (Inl _, v) \<Rightarrow> (Reply 401 ''invalid or expired OIDC token'', Some v)))
      else (case validate_access_token api token sec of
         Inr c \<Rightarrow> (Next (Some c), verifier ext)
       | Inl _ \<Rightarrow> (Reply 401 ''invalid or expired token'', verifier ext)))"

definition api_key_of :: "request \<Rightarrow> string option" where
  "api_key_of req =
     (case map_option trim (hm_get (req_headers req) ''x-api-key'') of Some [] \<Rightarrow> None | k \<Rightarrow> k)"

definition needs_csrf :: "http_method \<Rightarrow> bool" where
  "needs_csrf m = (m \<in> set [POST, PUT, PATCH, DELETE])"

definition authenticate ::
    "'key jwt_api \<Rightarrow> auth_error + jwk list \<Rightarrow> nat \<Rightarrow> 'key extensions \<Rightarrow> request \<Rightarrow> answer \<times> 'key oidc_verifier option" where
  "authenticate api fetched now ext req =
     (case jwt_secret ext of
        None \<Rightarrow> (Reply 500 ''auth not configured'', verifier ext)
      | Some sec \<Rightarrow>
          (let cookie_token = find_cookie ''access'' (cookie_str req);
               is_cookie_auth = (bearer_token req = None \<and> cookie_token \<noteq> None)
           in case (case bearer_token req of Some t \<Rightarrow> Some t | None \<Rightarrow> cookie_token) of
                None \<Rightarrow> (Reply 401 ''not authenticated'', verifier ext)
              | Some token \<Rightarrow>
                  if is_cookie_auth \<and> needs_csrf (req_method req) \<and>
                     \<not> csrf_matches (find_cookie ''csrf'' (cookie_str req)) (hm_get (req_headers req) ''x-csrf-token'')
                  then (Reply 403 ''invalid CSRF token'', verifier ext)
                  else check_token api fetched now ext sec token))"

definition auth_middleware ::
    "'key jwt_api \<Rightarrow> auth_error + jwk list \<Rightarrow> nat \<Rightarrow> 'key extensions \<Rightarrow> request \<Rightarrow> answer \<times> 'key oidc_verifier option" where
  "auth_middleware api fetched now ext req =
     (let p = req_path req in
      if is_static_asset p \<or> req_method req = OPTIONS then (Next None, verifier ext)
      else if is_exempt (case exempt_paths ext of Some es \<Rightarrow> es | None \<Rightarrow> default_exempt) p then (soft_auth api ext req, verifier ext)
      else if \<not> starts_with ''/api/'' p then (soft_auth api ext req, verifier ext)
      else case (api_key_of req, api_keys ext) of
        (Some k, Some verify) \<Rightarrow>
          (case verify k of Some c \<Rightarrow> (Next (Some c), verifier ext) | None \<Rightarrow> (Reply 401 ''invalid API key'', verifier ext))
      | _ \<Rightarrow> authenticate api fetched now ext req)"

definition get_claims :: "claims option \<Rightarrow> (nat \<times> string) + claims" where
  "get_claims attached = ok_or (401, ''not authenticated'') attached"

definition require_permission :: "claims \<Rightarrow> string \<Rightarrow> (nat \<times> string) + unit" where
  "require_permission c p = (if has_permission c p then Inr () else Inl (403, ''insufficient permissions''))"

section \<open>What the middleware accepts\<close>

text \<open>
  A request at a time \<open>now\<close> comes with the extensions of the application and with what the provider's key endpoint would answer then.
  The key cache is kept from request to request.
\<close>

record 'key visit =
  at_time :: nat
  endpoint :: "auth_error + jwk list"
  installed :: "'key extensions"
  visit_req :: request

definition middleware_at :: "'key jwt_api \<Rightarrow> 'key oidc_verifier option \<Rightarrow> 'key visit \<Rightarrow> answer \<times> 'key oidc_verifier option" where
  "middleware_at api v x = auth_middleware api (endpoint x) (at_time x) ((installed x)\<lparr>verifier := v\<rparr>) (visit_req x)"

definition visit_step :: "'key jwt_api \<Rightarrow> 'key oidc_verifier option \<Rightarrow> 'key visit \<Rightarrow> 'key oidc_verifier option" where
  "visit_step api v x = snd (middleware_at api v x)"

text \<open>The keys published at a time, and a key cache that was filled from one of the answers.\<close>

definition published :: "'key jwt_api \<Rightarrow> 'key visit set \<Rightarrow> nat \<Rightarrow> string \<Rightarrow> 'key \<Rightarrow> bool" where
  "published api X t i key =
     (\<exists>x \<in> X. at_time x = t \<and> (\<exists>ks. endpoint x = Inr ks \<and> (\<exists>k \<in> set ks. kid k = i \<and> decoding_key_from_jwk api k = Inr key)))"

definition cache_inv :: "'key jwt_api \<Rightarrow> 'key visit set \<Rightarrow> nat \<Rightarrow> 'key oidc_verifier option \<Rightarrow> bool" where
  "cache_inv api X ttl v =
     (\<forall>w. v = Some w \<longrightarrow> cache_ttl w = ttl \<and>
        (\<forall>c i key. v_keys w = Some c \<longrightarrow> hm_get (cached c) i = Some key \<longrightarrow> published api X (fetched_at c) i key))"

lemma map_err_simps [simp]: "map_err f (Inl e) = Inl (f e)" "map_err f (Inr a) = Inr a"
  by (simp_all add: map_err_def)

lemma map_err_eq_Inr [simp]: "map_err f r = Inr a \<longleftrightarrow> r = Inr a"
  by (cases r) simp_all

lemma add_jwks:
  "hm_get (foldl (add_jwk api) m ks) i = Some key \<Longrightarrow>
     hm_get m i = Some key \<or> (\<exists>k \<in> set ks. kid k = i \<and> decoding_key_from_jwk api k = Inr key)"
proof (induction ks arbitrary: m)
  case (Cons k ks)
  then have "hm_get (add_jwk api m k) i = Some key \<or> (\<exists>k \<in> set ks. kid k = i \<and> decoding_key_from_jwk api k = Inr key)" by simp
  moreover have "hm_get m i = Some key \<or> kid k = i \<and> decoding_key_from_jwk api k = Inr key" if "hm_get (add_jwk api m k) i = Some key"
    using that by (auto simp: add_jwk_def hm_simps split: sum.splits if_splits)
  ultimately show ?case by auto
qed simp

lemma cache_inv_refresh:
  assumes "cache_inv api X ttl (Some v)" "refresh_keys api (endpoint x) (at_time x) v = (r, v')" "x \<in> X"
  shows "cache_inv api X ttl (Some v')"
proof (cases "endpoint x")
  case (Inl e)
  then show ?thesis using assms by (simp add: refresh_keys_def)
next
  case (Inr ks)
  then have v': "v' = v\<lparr>v_keys := Some \<lparr>cached = foldl (add_jwk api) [] ks, fetched_at = at_time x\<rparr>\<rparr>"
    using assms(2) by (simp add: refresh_keys_def)
  have "published api X (at_time x) i key" if "hm_get (foldl (add_jwk api) [] ks) i = Some key" for i key
    using add_jwks [OF that] Inr assms(3) by (auto simp: published_def)
  then show ?thesis using assms(1) by (simp add: v' cache_inv_def)
qed

lemma lookup_published:
  assumes inv: "cache_inv api X ttl (Some v)" and l: "lookup_key api (endpoint x) (at_time x) v i = (r, v')" and x: "x \<in> X" and ttl: "0 < ttl"
  shows "cache_inv api X ttl (Some v') \<and> v_issuer v' = v_issuer v \<and> v_audience v' = v_audience v \<and>
    (\<forall>key. r = Inr key \<longrightarrow> (\<exists>t. at_time x - t < ttl \<and> published api X t i key))"
proof (cases "\<exists>c key. v_keys v = Some c \<and> at_time x - fetched_at c < cache_ttl v \<and> hm_get (cached c) i = Some key")
  case True
  then obtain c key where c: "v_keys v = Some c" "at_time x - fetched_at c < cache_ttl v" "hm_get (cached c) i = Some key" by blast
  then have "r = Inr key" "v' = v" using l by (simp_all add: lookup_key_def)
  then show ?thesis using c inv by (auto simp: cache_inv_def)
next
  case False
  then have n: "(case v_keys v of Some c \<Rightarrow> if at_time x - fetched_at c < cache_ttl v then hm_get (cached c) i else None | None \<Rightarrow> None) = None"
    by (auto split: option.splits)
  obtain r0 v0 where r0: "refresh_keys api (endpoint x) (at_time x) v = (r0, v0)" by (cases "refresh_keys api (endpoint x) (at_time x) v")
  have inv0: "cache_inv api X ttl (Some v0)" by (rule cache_inv_refresh [OF inv r0 x])
  have v': "v' = v0" "r0 = Inl e \<Longrightarrow> r = Inl e" "r0 = Inr () \<Longrightarrow> r = Inr key \<Longrightarrow> \<exists>c. v_keys v0 = Some c \<and> hm_get (cached c) i = Some key" for e key
    using l unfolding lookup_key_def n by (auto simp: r0 ok_or_def bind_eq_Some_conv split: sum.splits option.splits)
  have p: "r0 = Inr () \<Longrightarrow> v_keys v0 = Some c \<Longrightarrow> fetched_at c = at_time x" "v_issuer v0 = v_issuer v" "v_audience v0 = v_audience v" for c
    using r0 by (auto simp: refresh_keys_def split: sum.splits)
  have "\<exists>t. at_time x - t < ttl \<and> published api X t i key" if k: "r = Inr key" for key
  proof -
    have ok: "r0 = Inr ()" using v'(2) k by (cases r0) auto
    then obtain c where c: "v_keys v0 = Some c" "hm_get (cached c) i = Some key" using v'(3) k by blast
    then have "published api X (fetched_at c) i key" using inv0 by (simp add: cache_inv_def)
    then show ?thesis using p(1) [OF ok c(1)] ttl by (intro exI [of _ "at_time x"]) simp
  qed
  then show ?thesis using inv0 v'(1) p(2,3) by simp
qed

text \<open>
  What is known of the crate jsonwebtoken: a decoded token carries a signature that the key verifies and was
  made with the algorithm that the validation asks for. \<open>sig\<close> stands for the former.
\<close>

definition decode_verifies :: "'key jwt_api \<Rightarrow> ('key \<Rightarrow> string \<Rightarrow> bool) \<Rightarrow> bool" where
  "decode_verifies api sig =
     (\<forall>t key v. val_signed v \<longrightarrow> is_ok (decode_claims api t key v) \<or> is_ok (decode_oidc api t key v) \<longrightarrow>
        sig key t \<and> (\<exists>i. decode_header api t = Inr (val_alg v, i)))"

text \<open>The token a request shows: a bearer token, or else the session cookie, with the CSRF token in both places if the method changes state.\<close>

definition shows_token :: "request \<Rightarrow> string \<Rightarrow> bool" where
  "shows_token req t =
     (bearer_token req = Some t \<or>
      bearer_token req = None \<and> find_cookie ''access'' (cookie_str req) = Some t \<and>
      (needs_csrf (req_method req) \<longrightarrow>
         (\<exists>c. c \<noteq> [] \<and> find_cookie ''csrf'' (cookie_str req) = Some c \<and> hm_get (req_headers req) ''x-csrf-token'' = Some c)))"

definition own_token :: "'key jwt_api \<Rightarrow> ('key \<Rightarrow> string \<Rightarrow> bool) \<Rightarrow> 'key extensions \<Rightarrow> string \<Rightarrow> bool" where
  "own_token api sig ext t =
     (\<exists>sec i. jwt_secret ext = Some sec \<and> decode_header api t = Inr (HS256, i) \<and> sig (from_secret api sec) t)"

definition provider_token :: "'key jwt_api \<Rightarrow> ('key \<Rightarrow> string \<Rightarrow> bool) \<Rightarrow> 'key visit set \<Rightarrow> nat \<Rightarrow> nat \<Rightarrow> string \<Rightarrow> bool" where
  "provider_token api sig X ttl now t =
     (\<exists>alg i key t0. decode_header api t = Inr (alg, Some i) \<and> is_asymmetric alg \<and>
        now - t0 < ttl \<and> published api X t0 i key \<and> sig key t)"

lemma validate_oidc_sound:
  assumes inv: "cache_inv api X ttl (Some v)" and r: "validate_oidc api (endpoint x) (at_time x) v t = (r, v')"
    and x: "x \<in> X" and ttl: "0 < ttl" and dec: "decode_verifies api sig"
  shows "cache_inv api X ttl (Some v') \<and> (is_ok r \<longrightarrow> provider_token api sig X ttl (at_time x) t)"
proof (cases "\<exists>alg i. decode_header api t = Inr (alg, Some i) \<and> is_asymmetric alg")
  case True
  then obtain alg i where h: "decode_header api t = Inr (alg, Some i)" "is_asymmetric alg" by blast
  obtain k0 v0 where l: "lookup_key api (endpoint x) (at_time x) v i = (k0, v0)" by (cases "lookup_key api (endpoint x) (at_time x) v i")
  note p = lookup_published [OF inv l x ttl]
  have v': "v' = v0" using r h by (auto simp: validate_oidc_def l split: sum.splits)
  have "provider_token api sig X ttl (at_time x) t" if ok: "is_ok r"
  proof -
    obtain key where k: "k0 = Inr key" using r h ok by (cases k0) (auto simp: validate_oidc_def l)
    have "is_ok (decode_oidc api t key (oidc_validation v0 alg))"
      using r h ok by (auto simp: validate_oidc_def l k rbind_def is_ok_def split: sum.splits)
    moreover have "val_signed (oidc_validation v0 alg)" by (simp add: oidc_validation_def)
    ultimately have "sig key t" using dec unfolding decode_verifies_def by blast
    then show ?thesis using p k h by (auto simp: provider_token_def)
  qed
  then show ?thesis using p v' by blast
next
  case False
  then have "v' = v" "\<not> is_ok r" using r by (auto simp: validate_oidc_def split: sum.splits option.splits if_splits)
  then show ?thesis using inv by simp
qed

lemma check_token_sound:
  assumes inv: "cache_inv api X ttl (verifier ext)" and r: "check_token api (endpoint x) (at_time x) ext sec t = (a, v')"
    and x: "x \<in> X" and ttl: "0 < ttl" and dec: "decode_verifies api sig" and sec: "jwt_secret ext = Some sec"
  shows "cache_inv api X ttl v' \<and>
    (\<forall>c. a = Next c \<longrightarrow> c \<noteq> None \<and> (own_token api sig ext t \<or> provider_token api sig X ttl (at_time x) t))"
proof (cases "alg_is_asymmetric api t")
  case True
  show ?thesis
  proof (cases "verifier ext")
    case None
    then show ?thesis using r True by (auto simp: check_token_def cache_inv_def)
  next
    case (Some v)
    obtain r0 v0 where v0: "validate_oidc api (endpoint x) (at_time x) v t = (r0, v0)" by (cases "validate_oidc api (endpoint x) (at_time x) v t")
    note s = validate_oidc_sound [OF inv [unfolded Some] v0 x ttl dec]
    have "v' = Some v0" "a = Next c \<Longrightarrow> c \<noteq> None \<and> is_ok r0" for c using r True by (auto simp: check_token_def Some v0 split: sum.splits)
    then show ?thesis using s by blast
  qed
next
  case False
  have v': "v' = verifier ext" using r False by (auto simp: check_token_def split: sum.splits)
  have "c \<noteq> None \<and> own_token api sig ext t" if "a = Next c" for c
  proof -
    have "c \<noteq> None \<and> is_ok (decode_claims api t (from_secret api sec) (access_validation None))"
      using r that False
      by (auto simp: check_token_def validate_access_token_def validate_access_token_with_def map_err_def is_ok_def split: sum.splits)
    moreover have "val_signed (access_validation None)" "val_alg (access_validation None) = HS256" by (simp_all add: access_validation_def)
    ultimately show ?thesis using dec sec unfolding decode_verifies_def own_token_def by metis
  qed
  then show ?thesis using inv v' by blast
qed

lemma authenticate_sound:
  assumes inv: "cache_inv api X ttl (verifier ext)" and r: "authenticate api (endpoint x) (at_time x) ext req = (a, v')"
    and x: "x \<in> X" and ttl: "0 < ttl" and dec: "decode_verifies api sig"
  shows "cache_inv api X ttl v' \<and>
    (\<forall>c. a = Next c \<longrightarrow> c \<noteq> None \<and> (\<exists>t. shows_token req t \<and> (own_token api sig ext t \<or> provider_token api sig X ttl (at_time x) t)))"
proof (cases "\<exists>sec t. jwt_secret ext = Some sec \<and> shows_token req t \<and> check_token api (endpoint x) (at_time x) ext sec t = (a, v')")
  case True
  then obtain sec t where t: "jwt_secret ext = Some sec" "shows_token req t" "check_token api (endpoint x) (at_time x) ext sec t = (a, v')" by blast
  show ?thesis using check_token_sound [OF inv t(3) x ttl dec t(1)] t(2) by blast
next
  case False
  then have "v' = verifier ext \<and> (\<forall>c. a \<noteq> Next c)"
    using r by (auto simp: authenticate_def Let_def shows_token_def split: option.splits if_splits)
  then show ?thesis using inv by simp
qed

definition exempt :: "'key extensions \<Rightarrow> request \<Rightarrow> bool" where
  "exempt ext req =
     (req_method req = OPTIONS \<or> \<not> starts_with ''/api/'' (req_path req) \<or>
      is_exempt (case exempt_paths ext of Some es \<Rightarrow> es | None \<Rightarrow> default_exempt) (req_path req))"

definition key_accepted :: "'key extensions \<Rightarrow> request \<Rightarrow> claims \<Rightarrow> bool" where
  "key_accepted ext req c = (\<exists>k verify. api_key_of req = Some k \<and> api_keys ext = Some verify \<and> verify k = Some c)"

lemma middleware_sound:
  assumes inv: "cache_inv api X ttl v" and r: "middleware_at api v x = (a, v')"
    and x: "x \<in> X" and ttl: "0 < ttl" and dec: "decode_verifies api sig"
  shows "cache_inv api X ttl v' \<and>
    (\<forall>c. \<not> exempt (installed x) (visit_req x) \<longrightarrow> a = Next c \<longrightarrow>
       (\<exists>cl. c = Some cl \<and> (key_accepted (installed x) (visit_req x) cl \<or>
          (\<exists>t. shows_token (visit_req x) t \<and> (own_token api sig (installed x) t \<or> provider_token api sig X ttl (at_time x) t)))))"
proof -
  let ?e = "(installed x)\<lparr>verifier := v\<rparr>" and ?q = "visit_req x"
  have own: "own_token api sig ?e t = own_token api sig (installed x) t" for t by (simp add: own_token_def)
  consider (soft) "v' = v" "exempt (installed x) ?q"
    | (key) "v' = v" "\<forall>c. a = Next c \<longrightarrow> (\<exists>cl. c = Some cl \<and> key_accepted (installed x) ?q cl)"
    | (token) "authenticate api (endpoint x) (at_time x) ?e ?q = (a, v')"
    using r by (auto simp: middleware_at_def auth_middleware_def exempt_def key_accepted_def is_static_asset_def Let_def
        split: if_splits option.splits)
  then show ?thesis
  proof cases
    case token
    show ?thesis using authenticate_sound [OF _ token x ttl dec] inv by (auto simp: own)
  qed (use inv in auto)
qed


definition demo_api :: "string jwt_api" where
  "demo_api = \<lparr>from_secret = (\<lambda>s. s), from_rsa_components = (\<lambda>n e. Inr n), from_ec_components = (\<lambda>x y. Inl ''no''), from_ed_components = (\<lambda>x. Inl ''no''),
     decode_header = (\<lambda>t. if t = ''own'' then Inr (HS256, None) else if t = ''idp'' then Inr (RS256, Some ''k'') else Inl ''bad''),
     encode_jwt = (\<lambda>_ _ _. Inl ''no''),
     decode_claims = (\<lambda>_ _ _. Inl ''no''),
     decode_oidc = (\<lambda>t key v. if t = ''idp'' \<and> key = ''pub'' \<and> val_alg v = RS256 then
        Inr \<lparr>oc_sub = ''u'', oc_email = None, oc_name = None, oc_preferred_username = None, oc_exp = 0, oc_iat = None, oc_realm_roles = None\<rparr> else Inl ''no''),
     decode_id = (\<lambda>_ _ _. Inl ''no'')\<rparr>"

definition demo_visit :: "nat \<Rightarrow> string visit" where
  "demo_visit t = \<lparr>at_time = t,
     endpoint = Inr [\<lparr>kid = ''k'', kty = ''RSA'', jwk_n = Some ''pub'', jwk_e = Some ''e'', jwk_x = None, jwk_y = None\<rparr>],
     installed = \<lparr>exempt_paths = None, jwt_secret = Some ''s'', api_keys = None, verifier = None\<rparr>,
     visit_req = \<lparr>req_path = ''/api/x'', req_method = GET, req_headers = [(''authorization'', ''Bearer idp'')]\<rparr>\<rparr>"

definition demo_verifier :: "string oidc_verifier" where
  "demo_verifier = \<lparr>v_issuer = ''i'', v_audience = None, v_jwks_uri = ''u'', cache_ttl = 3600, v_keys = None\<rparr>"


text \<open>
  The login routes are documented to be mounted below \<open>/api/auth\<close>, and the default exempt paths are \<open>/auth/\<close> and \<open>/health\<close>:
  a login request, which has no token yet, is refused.
\<close>

theorem default_exempt_blocks_login:
  assumes "exempt_paths ext = None" "jwt_secret ext = Some sec" "req_path req = ''/api/auth/login''" "req_method req = POST" "req_headers req = []"
  shows "auth_middleware api fetched now ext req = (Reply 401 ''not authenticated'', verifier ext)"
  using assms
  by (simp add: auth_middleware_def is_static_asset_def is_exempt_def exempt_match_def default_exempt_def starts_with_def ends_with_def suffix_def
      api_key_of_def authenticate_def bearer_token_def find_cookie_def cookie_str_def cookie_of_def strip_prefix_def trim_def
      trim_start_matches_def trim_end_matches_def Let_def)

text \<open>The CSRF check compares cookie and header only: any value that was planted in both passes, whether or not the server issued it.\<close>

theorem csrf_value_unchecked:
  assumes "find_cookie ''csrf'' (cookie_str req) = Some v" "hm_get (req_headers req) ''x-csrf-token'' = Some v" "v \<noteq> []"
    "bearer_token req = None" "find_cookie ''access'' (cookie_str req) = Some t" "jwt_secret ext = Some sec"
  shows "authenticate api fetched now ext req = check_token api fetched now ext sec t"
  using assms by (simp add: authenticate_def Let_def)

end
