(* ===== verification/Auth_Oidc.thy ===== *)
theory Auth_Oidc
  imports Auth_Middleware
begin

text \<open>
  The OpenID Connect login (\<open>crates/runesh-auth/src/oidc.rs\<close>), the store of pending logins, and the HTTP handlers
  (\<open>handlers.rs\<close>, \<open>store.rs\<close>).

  The answers of the provider's endpoints, the clock and the random values are inputs. The application's user
  database, the trait \<open>AuthStore\<close>, is a record of functions on a state of any type.
\<close>

section \<open>The provider\<close>

record oidc_provider =
  p_issuer :: string
  client_id :: string
  client_secret :: "string option"
  redirect_uri :: string
  scopes :: string
  authorization_endpoint :: string
  token_endpoint :: string
  userinfo_endpoint :: string
  p_jwks_uri :: "string option"

record open_id_configuration =
  cfg_authorization :: string
  cfg_token :: string
  cfg_userinfo :: string
  cfg_jwks :: string

record oidc_params =
  prm_issuer :: string
  prm_client_id :: string
  prm_client_secret :: "string option"
  prm_redirect_uri :: string
  prm_scopes :: "string option"

definition discover :: "oidc_params \<Rightarrow> auth_error + open_id_configuration \<Rightarrow> auth_error + oidc_provider" where
  "discover prm fetched =
     rbind fetched (\<lambda>cfg.
       Inr \<lparr>p_issuer = prm_issuer prm, client_id = prm_client_id prm, client_secret = prm_client_secret prm,
            redirect_uri = prm_redirect_uri prm,
            scopes = (case prm_scopes prm of Some s \<Rightarrow> s | None \<Rightarrow> ''openid profile email''),
            authorization_endpoint = cfg_authorization cfg, token_endpoint = cfg_token cfg, userinfo_endpoint = cfg_userinfo cfg,
            p_jwks_uri = (if cfg_jwks cfg = [] then None else Some (cfg_jwks cfg))\<rparr>)"

record token_response =
  tr_access_token :: string
  tr_id_token :: "string option"
  tr_refresh_token :: "string option"
  tr_expires_in :: "nat option"

record userinfo_response =
  ui_sub :: string
  ui_email :: string
  ui_name :: string

record oidc_user_info =
  info_sub :: string
  info_email :: string
  info_name :: string
  info_picture :: "string option"
  info_groups :: "string list option"
  idp_access_token :: "string option"
  idp_refresh_token :: "string option"
  idp_token_expires_in :: "nat option"

definition decode_id_token_unverified_display_only :: "'key jwt_api \<Rightarrow> string \<Rightarrow> string \<Rightarrow> auth_error + id_token_claims" where
  "decode_id_token_unverified_display_only api id_token audience =
     map_err JwtError (decode_id api id_token (from_secret api ''unused'')
       \<lparr>val_alg = HS256, val_signed = False, val_exp = True, val_iss = None, val_aud = Some [audience],
        val_required = [''sub'', ''exp'']\<rparr>)"

definition decode_id_token_via_jwks ::
    "'key jwt_api \<Rightarrow> auth_error + jwk list \<Rightarrow> string \<Rightarrow> string \<Rightarrow> string \<Rightarrow> auth_error + id_token_claims" where
  "decode_id_token_via_jwks api fetched id_token audience issuer =
     rbind (map_err JwtError (decode_header api id_token)) (\<lambda>(alg, i).
     if \<not> is_asymmetric alg then Inl (TokenInvalid ''id_token rejected: algorithm is not allowed for JWKS validation'')
     else
       rbind (ok_or (TokenInvalid ''id_token header missing kid'') i) (\<lambda>i.
       rbind fetched (\<lambda>ks.
       rbind (ok_or (TokenInvalid (''kid '' @ i @ '' not found in JWKS'')) (find (\<lambda>k. kid k = i) ks)) (\<lambda>k.
       rbind (decoding_key_from_jwk api k) (\<lambda>key.
       map_err JwtError (decode_id api id_token key
         \<lparr>val_alg = alg, val_signed = True, val_exp = True, val_iss = Some issuer, val_aud = Some [audience],
          val_required = [''sub'', ''exp'', ''iss'']\<rparr>))))))"

text \<open>
  The exchange: \<open>answer\<close> is what the token endpoint answers to the form with the code and the verifier, \<open>keys\<close> and \<open>info\<close> are the
  answers of the endpoints for the keys and for the user's data, the latter only if the request succeeded.
\<close>

definition exchange_form :: "oidc_provider \<Rightarrow> string \<Rightarrow> string \<Rightarrow> (string \<times> string) list" where
  "exchange_form p code code_verifier =
     [(''grant_type'', ''authorization_code''), (''code'', code), (''redirect_uri'', redirect_uri p),
      (''client_id'', client_id p), (''code_verifier'', code_verifier)] @
     (case client_secret p of Some s \<Rightarrow> [(''client_secret'', s)] | None \<Rightarrow> [])"

record idp =
  token_answer :: "string \<Rightarrow> (string \<times> string) list \<Rightarrow> auth_error + token_response"
  keys_answer :: "string \<Rightarrow> auth_error + jwk list"
  info_answer :: "string \<Rightarrow> string \<Rightarrow> userinfo_response option"

definition id_token_of :: "'key jwt_api \<Rightarrow> idp \<Rightarrow> oidc_provider \<Rightarrow> token_response \<Rightarrow> id_token_claims option" where
  "id_token_of api net p r =
     (case tr_id_token r of
        None \<Rightarrow> None
      | Some t \<Rightarrow>
          (case (case p_jwks_uri p of
                   Some uri \<Rightarrow> decode_id_token_via_jwks api (keys_answer net uri) t (client_id p) (p_issuer p)
                 | None \<Rightarrow> decode_id_token_unverified_display_only api t (client_id p)) of
             Inr c \<Rightarrow> Some c
           | Inl _ \<Rightarrow> None))"

definition unwrap_default :: "string option \<Rightarrow> string" where
  "unwrap_default s = (case s of Some x \<Rightarrow> x | None \<Rightarrow> [])"

definition or_else :: "'a option \<Rightarrow> 'a option \<Rightarrow> 'a option" where
  "or_else a b = (case a of Some x \<Rightarrow> Some x | None \<Rightarrow> b)"

definition merge_info :: "id_token_claims option \<Rightarrow> userinfo_response option \<Rightarrow> token_response \<Rightarrow> oidc_user_info" where
  "merge_info ic ui r =
     \<lparr>info_sub = unwrap_default (or_else (map_option (\<lambda>c. case ic_oid c of Some o' \<Rightarrow> o' | None \<Rightarrow> ic_sub c) ic) (map_option ui_sub ui)),
      info_email = unwrap_default (or_else (Option.bind ic (\<lambda>c. or_else (ic_email c) (ic_preferred_username c))) (map_option ui_email ui)),
      info_name = unwrap_default (or_else (Option.bind ic ic_name) (map_option ui_name ui)),
      info_picture = Option.bind ic ic_picture, info_groups = Option.bind ic ic_groups,
      idp_access_token = Some (tr_access_token r), idp_refresh_token = tr_refresh_token r, idp_token_expires_in = tr_expires_in r\<rparr>"

definition exchange_code :: "'key jwt_api \<Rightarrow> idp \<Rightarrow> oidc_provider \<Rightarrow> string \<Rightarrow> string \<Rightarrow> auth_error + token_response \<times> oidc_user_info" where
  "exchange_code api net p code code_verifier =
     rbind (token_answer net (token_endpoint p) (exchange_form p code code_verifier)) (\<lambda>r.
       let ic = id_token_of api net p r;
           ui = (if userinfo_endpoint p \<noteq> [] then info_answer net (userinfo_endpoint p) (tr_access_token r) else None)
       in Inr (r, merge_info ic ui r))"

section \<open>Pending logins\<close>

record oidc_session =
  session_id :: string
  session_state :: string
  code_verifier :: string
  created_at :: int

record session_store =
  sessions :: "(string, oidc_session) hash_map"
  state_index :: "(string, string) hash_map"
  max_sessions :: nat

definition session_store_new :: session_store where
  "session_store_new = \<lparr>sessions = [], state_index = [], max_sessions = 10000\<rparr>"

definition cleanup_sessions :: "int \<Rightarrow> session_store \<Rightarrow> session_store" where
  "cleanup_sessions now st =
     (let cutoff = now - 600;
          expired = map session_state (filter (\<lambda>s. created_at s \<le> cutoff) (hm_values (sessions st)))
      in st\<lparr>sessions := hm_retain (\<lambda>_ s. created_at s > cutoff) (sessions st),
            state_index := foldl (\<lambda>m s. hm_remove s m) (state_index st) expired\<rparr>)"

record start_values =
  new_id :: string
  new_state :: string
  verifier_text :: string
  challenge_text :: string

definition auth_url :: "(string \<Rightarrow> string) \<Rightarrow> oidc_provider \<Rightarrow> string option \<Rightarrow> start_values \<Rightarrow> string" where
  "auth_url urlenc p extra r =
     (let sc = (case extra of Some e \<Rightarrow> scopes p @ '' '' @ e | None \<Rightarrow> scopes p)
      in authorization_endpoint p @ ''?response_type=code&client_id='' @ urlenc (client_id p) @ ''&redirect_uri='' @ urlenc (redirect_uri p) @
         ''&scope='' @ urlenc sc @ ''&state='' @ urlenc (new_state r) @ ''&code_challenge='' @ urlenc (challenge_text r) @
         ''&code_challenge_method=S256'')"

definition start_session ::
    "(string \<Rightarrow> string) \<Rightarrow> oidc_provider \<Rightarrow> string option \<Rightarrow> start_values \<Rightarrow> int \<Rightarrow> session_store \<Rightarrow>
     (auth_error + string \<times> string) \<times> session_store" where
  "start_session urlenc p extra r now st =
     (let st = (if length (sessions st) \<ge> max_sessions st div 2 then cleanup_sessions now st else st) in
      if length (sessions st) \<ge> max_sessions st then (Inl (AuthInternal ''OIDC session store at capacity''), st)
      else
        (Inr (new_id r, auth_url urlenc p extra r),
         st\<lparr>state_index := hm_insert (new_state r) (new_id r) (state_index st),
            sessions := hm_insert (new_id r)
              \<lparr>session_id = new_id r, session_state = new_state r, code_verifier = verifier_text r, created_at = now\<rparr> (sessions st)\<rparr>))"

definition get_by_state :: "session_store \<Rightarrow> string \<Rightarrow> oidc_session option" where
  "get_by_state st s = Option.bind (hm_get (state_index st) s) (hm_get (sessions st))"

definition remove_session :: "string \<Rightarrow> session_store \<Rightarrow> session_store" where
  "remove_session i st =
     (case hm_get (sessions st) i of
        Some s \<Rightarrow> st\<lparr>sessions := hm_remove i (sessions st), state_index := hm_remove (session_state s) (state_index st)\<rparr>
      | None \<Rightarrow> st)"

section \<open>Handlers\<close>

record auth_user =
  user_id :: string
  u_email :: string
  u_name :: string
  u_role :: string
  avatar_url :: "string option"
  u_permissions :: "string list"

record 'db auth_store =
  upsert_user :: "'db \<Rightarrow> oidc_user_info \<Rightarrow> (auth_error + auth_user) \<times> 'db"
  get_user_by_id :: "'db \<Rightarrow> string \<Rightarrow> auth_error + auth_user"
  store_refresh_token :: "'db \<Rightarrow> string \<Rightarrow> string \<Rightarrow> int \<Rightarrow> (auth_error + unit) \<times> 'db"
  consume_refresh_token :: "'db \<Rightarrow> int \<Rightarrow> string \<Rightarrow> (auth_error + string) \<times> 'db"
  revoke_all_refresh_tokens :: "'db \<Rightarrow> string \<Rightarrow> 'db"
  verify_password :: "'db \<Rightarrow> string \<Rightarrow> string \<Rightarrow> auth_error + auth_user option"
  on_login :: "'db \<Rightarrow> string \<Rightarrow> 'db"

definition claims_from_user :: "int \<Rightarrow> auth_user \<Rightarrow> token_config \<Rightarrow> claims" where
  "claims_from_user now u config =
     \<lparr>subject = user_id u, email = u_email u, user_name = u_name u, role = u_role u, permissions = u_permissions u,
      exp_at = now + access_token_ttl config, iat = now, iss = required_iss config,
      aud = (if required_aud config = [] then None else Some (required_aud config))\<rparr>"

record auth_conf =
  provider :: "oidc_provider option"
  token_config :: token_config
  session_config :: session_config

datatype reply_body =
  ErrorBody string
| EmptyBody
| ConfigBody string string string
| StartBody string string
| UserBody auth_user
| SessionBody auth_user string

record response =
  status :: nat
  set_cookies :: "string list"
  location :: "string option"
  body :: reply_body

definition reply :: "nat \<Rightarrow> reply_body \<Rightarrow> response" where
  "reply n b = \<lparr>status = n, set_cookies = [], location = None, body = b\<rparr>"

text \<open>The random values of one request: the bytes of the refresh token and of the CSRF token.\<close>

record session_random =
  refresh_bytes :: "u8 list"
  csrf_bytes :: "u8 list"

definition new_session ::
    "'key jwt_api \<Rightarrow> digests \<Rightarrow> auth_conf \<Rightarrow> 'db auth_store \<Rightarrow> int \<Rightarrow> session_random \<Rightarrow> auth_user \<Rightarrow> 'db \<Rightarrow>
     (string + string list \<times> string) \<times> 'db" where
  "new_session api dg conf ops now rnd u db =
     (case issue_access_token api now (token_config conf) (user_id u) (u_email u) (u_name u) (u_role u) (u_permissions u) of
        Inl _ \<Rightarrow> (Inl ''Token generation failed'', db)
      | Inr (access_token, _) \<Rightarrow>
          (let refresh_token = generate_refresh_token (refresh_bytes rnd);
               h = hash_refresh_token (sha256 dg) refresh_token
           in case store_refresh_token ops db (user_id u) h (now + refresh_token_ttl (token_config conf)) of
                (Inl _, db) \<Rightarrow> (Inl ''Session creation failed'', db)
              | (Inr _, db) \<Rightarrow>
                  (Inr (set_session_cookies dg (csrf_bytes rnd) (session_config conf) (token_config conf) access_token refresh_token),
                   on_login ops db (user_id u))))"

definition issue_session_response ::
    "'key jwt_api \<Rightarrow> digests \<Rightarrow> auth_conf \<Rightarrow> 'db auth_store \<Rightarrow> int \<Rightarrow> session_random \<Rightarrow> auth_user \<Rightarrow> 'db \<Rightarrow> response \<times> 'db" where
  "issue_session_response api dg conf ops now rnd u db =
     (case new_session api dg conf ops now rnd u db of
        (Inl e, db) \<Rightarrow> (reply 500 (ErrorBody e), db)
      | (Inr (cookies, csrf), db) \<Rightarrow>
          (\<lparr>status = 200, set_cookies = cookies, location = None, body = SessionBody u csrf\<rparr>, db))"

definition oidc_config :: "auth_conf \<Rightarrow> response" where
  "oidc_config conf =
     (case provider conf of
        Some p \<Rightarrow> reply 200 (ConfigBody (authorization_endpoint p) (client_id p) (scopes p))
      | None \<Rightarrow> reply 503 (ErrorBody ''OIDC not configured''))"

definition login_start ::
    "(string \<Rightarrow> string) \<Rightarrow> auth_conf \<Rightarrow> start_values \<Rightarrow> int \<Rightarrow> session_store \<Rightarrow> response \<times> session_store" where
  "login_start urlenc conf r now st =
     (case provider conf of
        None \<Rightarrow> (reply 503 (ErrorBody ''OIDC not configured''), st)
      | Some p \<Rightarrow>
          (case start_session urlenc p None r now st of
             (Inl _, st) \<Rightarrow> (reply 503 (ErrorBody ''Too many pending login sessions, try again later''), st)
           | (Inr (i, url), st) \<Rightarrow> (reply 200 (StartBody i url), st)))"

definition callback ::
    "'key jwt_api \<Rightarrow> digests \<Rightarrow> idp \<Rightarrow> auth_conf \<Rightarrow> 'db auth_store \<Rightarrow> int \<Rightarrow> session_random \<Rightarrow> string \<Rightarrow> string \<Rightarrow>
     session_store \<Rightarrow> 'db \<Rightarrow> response \<times> session_store \<times> 'db" where
  "callback api dg net conf ops now rnd code state st db =
     (case provider conf of
        None \<Rightarrow> (reply 400 (ErrorBody ''OIDC not configured''), st, db)
      | Some p \<Rightarrow>
          (case get_by_state st state of
             None \<Rightarrow> (reply 400 (ErrorBody ''Invalid or expired OIDC state''), st, db)
           | Some s \<Rightarrow>
               (case exchange_code api net p code (code_verifier s) of
                  Inl _ \<Rightarrow> (reply 400 (ErrorBody ''Authentication failed''), st, db)
                | Inr (_, info) \<Rightarrow>
                    (let st = remove_session (session_id s) st in
                     case upsert_user ops db info of
                       (Inl _, db) \<Rightarrow> (reply 500 (ErrorBody ''User provisioning failed''), st, db)
                     | (Inr u, db) \<Rightarrow>
                         (case new_session api dg conf ops now rnd u db of
                            (Inl e, db) \<Rightarrow> (reply 500 (ErrorBody e), st, db)
                          | (Inr (cookies, _), db) \<Rightarrow>
                              (\<lparr>status = 302, set_cookies = cookies, location = Some ''/'', body = EmptyBody\<rparr>, st, db))))))"

definition password_login ::
    "'key jwt_api \<Rightarrow> digests \<Rightarrow> auth_conf \<Rightarrow> 'db auth_store \<Rightarrow> int \<Rightarrow> session_random \<Rightarrow> string \<Rightarrow> string \<Rightarrow> 'db \<Rightarrow> response \<times> 'db" where
  "password_login api dg conf ops now rnd em pw db =
     (case verify_password ops db em pw of
        Inr (Some u) \<Rightarrow> issue_session_response api dg conf ops now rnd u db
      | _ \<Rightarrow> (reply 401 (ErrorBody ''Invalid email or password''), db))"

definition refresh ::
    "'key jwt_api \<Rightarrow> digests \<Rightarrow> auth_conf \<Rightarrow> 'db auth_store \<Rightarrow> int \<Rightarrow> session_random \<Rightarrow> (string, string) hash_map \<Rightarrow> 'db \<Rightarrow> response \<times> 'db" where
  "refresh api dg conf ops now rnd jar db =
     (case extract_refresh_token jar (session_config conf) of
        None \<Rightarrow> (reply 401 (ErrorBody ''No refresh token''), db)
      | Some t \<Rightarrow>
          (case consume_refresh_token ops db now (hash_refresh_token (sha256 dg) t) of
             (Inl _, db) \<Rightarrow> (reply 401 (ErrorBody ''Invalid or expired refresh token''), db)
           | (Inr i, db) \<Rightarrow>
               (case get_user_by_id ops db i of
                  Inl _ \<Rightarrow> (reply 401 (ErrorBody ''User not found''), db)
                | Inr u \<Rightarrow> issue_session_response api dg conf ops now rnd u db)))"

definition logout ::
    "'key jwt_api \<Rightarrow> auth_conf \<Rightarrow> 'db auth_store \<Rightarrow> (string, string) hash_map \<Rightarrow> 'db \<Rightarrow> response \<times> 'db" where
  "logout api conf ops jar db =
     (let db = (case extract_access_token jar (session_config conf) of
                  None \<Rightarrow> db
                | Some t \<Rightarrow>
                    (case validate_access_token api t (secret (token_config conf)) of
                       Inr c \<Rightarrow> revoke_all_refresh_tokens ops db (subject c)
                     | Inl _ \<Rightarrow> db))
      in (\<lparr>status = 204, set_cookies = clear_session_cookies (session_config conf), location = None, body = EmptyBody\<rparr>, db))"

definition me :: "'key jwt_api \<Rightarrow> auth_conf \<Rightarrow> 'db auth_store \<Rightarrow> (string, string) hash_map \<Rightarrow> 'db \<Rightarrow> response" where
  "me api conf ops jar db =
     (case extract_access_token jar (session_config conf) of
        None \<Rightarrow> reply 401 (ErrorBody ''Not authenticated'')
      | Some t \<Rightarrow>
          (case validate_access_token api t (secret (token_config conf)) of
             Inl _ \<Rightarrow> reply 401 (ErrorBody ''Invalid or expired session'')
           | Inr c \<Rightarrow>
               (case get_user_by_id ops db (subject c) of
                  Inl _ \<Rightarrow> reply 401 (ErrorBody ''User not found'')
                | Inr u \<Rightarrow> reply 200 (UserBody u))))"

section \<open>Pending logins: the two maps implement a list\<close>

datatype login_op = StartLogin start_values int | EndLogin string | CleanLogins int

definition store_step :: "(string \<Rightarrow> string) \<Rightarrow> oidc_provider \<Rightarrow> session_store \<Rightarrow> login_op \<Rightarrow> session_store" where
  "store_step urlenc p st op =
     (case op of
        StartLogin r t \<Rightarrow> snd (start_session urlenc p None r t st)
      | EndLogin i \<Rightarrow> remove_session i st
      | CleanLogins t \<Rightarrow> cleanup_sessions t st)"

definition young :: "int \<Rightarrow> oidc_session \<Rightarrow> bool" where
  "young now s = (created_at s > now - 600)"

definition pending_step :: "oidc_session list \<Rightarrow> login_op \<Rightarrow> oidc_session list" where
  "pending_step h op =
     (case op of
        StartLogin r t \<Rightarrow>
          (let h = (if 5000 \<le> length h then filter (young t) h else h) in
           if 10000 \<le> length h then h
           else h @ [\<lparr>session_id = new_id r, session_state = new_state r, code_verifier = verifier_text r, created_at = t\<rparr>])
      | EndLogin i \<Rightarrow> filter (\<lambda>s. session_id s \<noteq> i) h
      | CleanLogins t \<Rightarrow> filter (young t) h)"

definition pending_rel :: "session_store \<Rightarrow> oidc_session list \<Rightarrow> bool" where
  "pending_rel st h =
     (sessions st = map (\<lambda>s. (session_id s, s)) h \<and> (\<forall>x. hm_get (state_index st) x = map_option session_id (find (\<lambda>s. session_state s = x) h)) \<and>
      distinct (map session_id h) \<and> distinct (map session_state h) \<and> max_sessions st = 10000 \<and> length h \<le> 10000)"

lemma hm_insert_fresh: "k \<notin> fst ` set m \<Longrightarrow> hm_insert k v m = m @ [(k, v)]"
  unfolding hm_insert_def by (induction m) auto

lemma hm_get_sessions:
  "distinct (map session_id h) \<Longrightarrow> s \<in> set h \<Longrightarrow> hm_get (map (\<lambda>s. (session_id s, s)) h) (session_id s) = Some s"
  unfolding hm_get_def by (rule map_of_is_SomeI) (auto simp: comp_def)

lemma hm_get_no_session: "i \<notin> session_id ` set h \<Longrightarrow> hm_get (map (\<lambda>s. (session_id s, s)) h) i = None"
  by (induction h) (auto simp: hm_get_def)

lemma hm_get_removes: "hm_get (foldl (\<lambda>m s. hm_remove s m) m es) x = (if x \<in> set es then None else hm_get m x)"
  by (induction es arbitrary: m) (auto simp: hm_simps)

lemma find_filter_state:
  "distinct (map session_state h) \<Longrightarrow>
     find (\<lambda>s. session_state s = x) (filter P h) = (case find (\<lambda>s. session_state s = x) h of Some s \<Rightarrow> if P s then Some s else None | None \<Rightarrow> None)"
proof (induction h)
  case (Cons s h)
  have "session_state s = x \<Longrightarrow> find (\<lambda>s. session_state s = x) (filter P h) = None"
    using Cons.prems by (auto simp: find_None_iff image_iff)
  then show ?case using Cons by auto
qed simp

lemma find_state_mem: "find (\<lambda>s. session_state s = x) h = Some s \<Longrightarrow> s \<in> set h \<and> session_state s = x"
  by (auto simp: find_Some_iff)

lemma pending_get:
  assumes "pending_rel st h"
  shows "get_by_state st x = find (\<lambda>s. session_state s = x) h"
proof (cases "find (\<lambda>s. session_state s = x) h")
  case (Some s)
  then show ?thesis using assms find_state_mem [OF Some] hm_get_sessions [of h s] by (simp add: get_by_state_def pending_rel_def)
qed (use assms in \<open>simp add: get_by_state_def pending_rel_def\<close>)

lemma pending_filter:
  assumes rel: "pending_rel st h" and idx: "\<And>x. hm_get m x = (case find (\<lambda>s. session_state s = x) h of Some s \<Rightarrow> if P s then Some (session_id s) else None | None \<Rightarrow> None)"
  shows "pending_rel (st\<lparr>sessions := filter (\<lambda>e. P (snd e)) (sessions st), state_index := m\<rparr>) (filter P h)"
proof -
  have "filter (\<lambda>e. P (snd e)) (map (\<lambda>s. (session_id s, s)) h) = map (\<lambda>s. (session_id s, s)) (filter P h)"
    by (simp add: filter_map comp_def)
  moreover have "length (filter P h) \<le> 10000" using rel le_trans [OF length_filter_le] by (auto simp: pending_rel_def)
  ultimately show ?thesis
    using rel by (auto simp: pending_rel_def idx find_filter_state distinct_map_filter split: option.splits)
qed

lemma pending_clean:
  assumes "pending_rel st h"
  shows "pending_rel (cleanup_sessions t st) (filter (young t) h)"
proof -
  let ?es = "map session_state (filter (\<lambda>s. created_at s \<le> t - 600) (hm_values (sessions st)))"
  have v: "hm_values (sessions st) = h" using assms by (simp add: pending_rel_def hm_values_def comp_def)
  have d: "inj_on session_state (set h)" using assms by (simp add: pending_rel_def distinct_map)
  have "hm_get (foldl (\<lambda>m s. hm_remove s m) (state_index st) ?es) x =
      (case find (\<lambda>s. session_state s = x) h of Some s \<Rightarrow> if young t s then Some (session_id s) else None | None \<Rightarrow> None)" for x
  proof (cases "find (\<lambda>s. session_state s = x) h")
    case (Some s)
    then have "x \<in> set ?es \<longleftrightarrow> \<not> young t s"
      using find_state_mem [OF Some] inj_onD [OF d] unfolding v by (auto simp: young_def not_less)
    then show ?thesis using Some assms by (simp add: hm_get_removes pending_rel_def)
  qed (use assms in \<open>simp add: hm_get_removes pending_rel_def\<close>)
  moreover have "(\<lambda>s. t - 600 < created_at s) = young t" by (simp add: young_def fun_eq_iff)
  ultimately show ?thesis
    using pending_filter [OF assms, of "foldl (\<lambda>m s. hm_remove s m) (state_index st) ?es" "young t"]
    by (simp add: cleanup_sessions_def Let_def hm_retain_def young_def [symmetric] case_prod_unfold)
qed

lemma pending_end:
  assumes "pending_rel st h"
  shows "pending_rel (remove_session i st) (filter (\<lambda>s. session_id s \<noteq> i) h)"
proof (cases "\<exists>s \<in> set h. session_id s = i")
  case True
  then obtain s where s: "s \<in> set h" "session_id s = i" by blast
  have d: "distinct (map session_id h)" "inj_on session_id (set h)" "inj_on session_state (set h)"
    using assms by (auto simp: pending_rel_def distinct_map)
  have g: "hm_get (sessions st) i = Some s" using assms hm_get_sessions [OF d(1) s(1)] s(2) by (simp add: pending_rel_def)
  have "hm_get (hm_remove (session_state s) (state_index st)) x =
      (case find (\<lambda>s. session_state s = x) h of Some s \<Rightarrow> if session_id s \<noteq> i then Some (session_id s) else None | None \<Rightarrow> None)" for x
  proof (cases "find (\<lambda>s. session_state s = x) h")
    case (Some s')
    then have "x = session_state s \<longleftrightarrow> session_id s' = i"
      using find_state_mem [OF Some] s inj_onD [OF d(2)] inj_onD [OF d(3)] by metis
    then show ?thesis using Some assms by (simp add: hm_simps pending_rel_def)
  qed (use assms in \<open>simp add: hm_simps pending_rel_def\<close>)
  moreover have "hm_remove i (sessions st) = filter (\<lambda>e. session_id (snd e) \<noteq> i) (sessions st)"
    using assms by (auto simp: hm_remove_def pending_rel_def intro: filter_cong)
  ultimately show ?thesis using pending_filter [OF assms, of _ "\<lambda>s. session_id s \<noteq> i"] g by (simp add: remove_session_def)
next
  case False
  then have "filter (\<lambda>s. session_id s \<noteq> i) h = h" by (auto simp: filter_id_conv)
  moreover have "hm_get (sessions st) i = None" using assms hm_get_no_session [of i h] False by (auto simp: pending_rel_def)
  ultimately show ?thesis using assms by (simp add: remove_session_def)
qed

fun started :: "(start_values \<Rightarrow> string) \<Rightarrow> login_op list \<Rightarrow> string list" where
  "started f [] = []"
| "started f (StartLogin r t # ops) = f r # started f ops"
| "started f (EndLogin i # ops) = started f ops"
| "started f (CleanLogins t # ops) = started f ops"

lemma pending_add:
  assumes "pending_rel st h" "length h < 10000" "session_id s \<notin> session_id ` set h" "session_state s \<notin> session_state ` set h"
  shows "pending_rel (st\<lparr>state_index := hm_insert (session_state s) (session_id s) (state_index st),
      sessions := hm_insert (session_id s) s (sessions st)\<rparr>) (h @ [s])"
proof -
  have "session_id s \<notin> fst ` set (sessions st)" using assms(1,3) by (auto simp: pending_rel_def)
  moreover have "find (\<lambda>s. session_state s = x) (h @ [s]) =
      (if x = session_state s then Some s else find (\<lambda>s. session_state s = x) h)" for x
    using assms(4) by (induction h) auto
  ultimately show ?thesis using assms by (simp add: pending_rel_def hm_insert_fresh hm_simps)
qed

lemma pending_start:
  assumes rel: "pending_rel st h" and new: "new_id r \<notin> session_id ` set h" "new_state r \<notin> session_state ` set h"
  shows "pending_rel (store_step urlenc p st (StartLogin r t)) (pending_step h (StartLogin r t))"
proof -
  define st1 where "st1 = (if length (sessions st) \<ge> max_sessions st div 2 then cleanup_sessions t st else st)"
  define h1 where "h1 = (if 5000 \<le> length h then filter (young t) h else h)"
  have "length (sessions st) = length h" "max_sessions st = 10000" using rel by (simp_all add: pending_rel_def)
  then have r1: "pending_rel st1 h1" using rel pending_clean [OF rel, of t] by (simp add: st1_def h1_def)
  have n1: "new_id r \<notin> session_id ` set h1" "new_state r \<notin> session_state ` set h1" using new by (auto simp: h1_def)
  have l1: "length (sessions st1) = length h1" "max_sessions st1 = 10000" using r1 by (simp_all add: pending_rel_def)
  show ?thesis
    using pending_add [OF r1, of "\<lparr>session_id = new_id r, session_state = new_state r, code_verifier = verifier_text r, created_at = t\<rparr>"] n1 r1
    unfolding store_step_def pending_step_def start_session_def login_op.case Let_def st1_def [symmetric] h1_def [symmetric] l1
    by (auto simp: not_le)
qed

lemma pending_run:
  assumes "pending_rel st h" "distinct (map session_id h @ started new_id ops)" "distinct (map session_state h @ started new_state ops)"
  shows "pending_rel (foldl (store_step urlenc p) st ops) (foldl pending_step h ops)"
  using assms
proof (induction ops arbitrary: st h)
  case (Cons op ops)
  have sub: "distinct (map f (filter P h) @ xs)" if "distinct (map f h @ xs)" for f :: "oidc_session \<Rightarrow> string" and P xs
    using that by (auto simp: distinct_map_filter)
  show ?case
  proof (cases op)
    case (StartLogin r t)
    have n: "new_id r \<notin> session_id ` set h" "new_state r \<notin> session_state ` set h"
      using Cons.prems(2,3) by (auto simp: StartLogin)
    define h1 where "h1 = (if 5000 \<le> length h then filter (young t) h else h)"
    have h1: "distinct (map session_id h1 @ new_id r # started new_id ops)" "distinct (map session_state h1 @ new_state r # started new_state ops)"
      using Cons.prems(2,3) sub [of session_id "new_id r # started new_id ops"] sub [of session_state "new_state r # started new_state ops"]
      unfolding h1_def by (simp_all add: StartLogin)
    then have "distinct (map session_id (pending_step h op) @ started new_id ops)" "distinct (map session_state (pending_step h op) @ started new_state ops)"
      unfolding StartLogin pending_step_def login_op.case h1_def [symmetric] Let_def by auto
    then show ?thesis using Cons.IH pending_start [OF Cons.prems(1) n] StartLogin by simp
  next
    case (EndLogin i)
    have st: "store_step urlenc p st op = remove_session i st" "pending_step h op = filter (\<lambda>s. session_id s \<noteq> i) h"
      by (simp_all add: EndLogin store_step_def pending_step_def)
    show ?thesis
      unfolding foldl_Cons st using Cons.prems(2,3) unfolding EndLogin started.simps
      by (intro Cons.IH pending_end Cons.prems(1) sub)
  next
    case (CleanLogins t)
    have st: "store_step urlenc p st op = cleanup_sessions t st" "pending_step h op = filter (young t) h"
      by (simp_all add: CleanLogins store_step_def pending_step_def)
    show ?thesis
      unfolding foldl_Cons st using Cons.prems(2,3) unfolding CleanLogins started.simps
      by (intro Cons.IH pending_clean Cons.prems(1) sub)
  qed
qed simp


definition demo_start :: "string \<Rightarrow> start_values" where
  "demo_start i = \<lparr>new_id = i, new_state = i, verifier_text = ''v'', challenge_text = ''c''\<rparr>"

definition demo_provider :: oidc_provider where
  "demo_provider = \<lparr>p_issuer = ''i'', client_id = ''c'', client_secret = None, redirect_uri = ''r'', scopes = ''openid'',
     authorization_endpoint = ''a'', token_endpoint = ''t'', userinfo_endpoint = [], p_jwks_uri = None\<rparr>"


text \<open>However old a pending login is, a callback still finds it as long as no clean-up ran, and no start cleans up below 5000 pending logins.\<close>

theorem stale_login_accepted:
  assumes "length (sessions st) < 5000" "max_sessions st = 10000" "get_by_state st x = Some s" "new_state r \<noteq> x" "new_id r \<noteq> session_id s"
    "hm_get (state_index st) x = Some (session_id s)"
  shows "get_by_state (snd (start_session urlenc p None r now st)) x = Some s"
  using assms by (auto simp: start_session_def get_by_state_def hm_simps Let_def)

end
