(* ===== verification/Auth_Flow.thy ===== *)
theory Auth_Flow
  imports Auth_Oidc
begin

text \<open>
  The parts of the authentication together: a session that a handler issues is accepted by the middleware when the browser sends its cookies back,
  and a refresh token is good for one new session.
\<close>

section \<open>The browser\<close>

text \<open>A browser keeps the pair of name and value of each \<open>Set-Cookie\<close> header and sends them all in one \<open>Cookie\<close> header.\<close>

definition cookie_pair :: "string \<Rightarrow> string" where
  "cookie_pair c = hd (split_on (CHR '';'') c)"

definition browser_header :: "string list \<Rightarrow> string" where
  "browser_header cs = join_with ''; '' (map cookie_pair cs)"

definition plain_char :: "char \<Rightarrow> bool" where
  "plain_char c = (\<not> is_whitespace c \<and> c \<noteq> CHR '';'')"

definition raw_cookie :: "string \<Rightarrow> string \<Rightarrow> string option" where
  "raw_cookie n c = (case strip_prefix (''__Host-'' @ n @ ''='') c of Some v \<Rightarrow> Some v | None \<Rightarrow> strip_prefix (n @ ''='') c)"

lemma trim_space: "trim (CHR '' '' # s) = trim s"
  by (simp add: trim_def trim_start_matches_def is_whitespace_def)

lemma trim_plain: "list_all plain_char s \<Longrightarrow> trim s = s"
  by (rule trim_id) (auto simp: list_all_iff plain_char_def)

lemma cookie_of_plain: "list_all plain_char p \<Longrightarrow> cookie_of n p = raw_cookie n p"
  by (simp add: cookie_of_def raw_cookie_def trim_plain)

lemma find_map_space: "find_map (cookie_of n) (split_on (CHR '';'') (CHR '' '' # s)) = find_map (cookie_of n) (split_on (CHR '';'') s)"
proof -
  obtain q qs where "split_on (CHR '';'') s = q # qs" using split_on_ne list.exhaust by metis
  then show ?thesis by (simp add: cookie_of_def trim_space)
qed

lemma plain_no_sep: "list_all plain_char p \<Longrightarrow> CHR '';'' \<notin> set p"
  by (auto simp: list_all_iff plain_char_def)

lemma find_cookie_join:
  assumes "ps \<noteq> []" "\<forall>p \<in> set ps. list_all plain_char p"
  shows "find_cookie n (join_with ''; '' ps) = find_map (raw_cookie n) ps"
  unfolding find_cookie_def using assms
proof (induction ps rule: induct_list012)
  case (2 p)
  then show ?case by (simp add: split_on_none plain_no_sep cookie_of_plain split: option.split)
next
  case (3 p q ps)
  have "split_on (CHR '';'') (join_with ''; '' (p # q # ps)) = p # split_on (CHR '';'') (CHR '' '' # join_with ''; '' (q # ps))"
    using 3 split_on_append [OF plain_no_sep, of p "CHR '' '' # join_with ''; '' (q # ps)"] by simp
  then show ?case using 3 by (simp add: find_map_space cookie_of_plain del: split_on.simps split: option.split)
qed simp

lemma cookie_pair_build:
  assumes "list_all plain_char (n @ ''='' @ v)"
  shows "cookie_pair (build_cookie cfg n v a h ss) = n @ ''='' @ v"
proof -
  obtain rest where "build_cookie cfg n v a h ss = (n @ ''='' @ v) @ CHR '';'' # rest" by (simp add: build_cookie_def)
  then show ?thesis using split_on_append [OF plain_no_sep [OF assms]] by (simp add: cookie_pair_def)
qed

lemma plain_prefixed: "list_all plain_char (prefixed cfg n) \<longleftrightarrow> list_all plain_char n"
  by (auto simp: prefixed_def plain_char_def is_whitespace_def)

lemma plain_hex: "list_all plain_char (encode_hex bs)"
  using hex_char by (fastforce simp: list_all_iff plain_char_def is_whitespace_def is_ascii_alphanumeric_def Let_def)

text \<open>The cookies of a session, sent back: the middleware finds the access token and the CSRF token.\<close>

lemma session_cookies_found:
  assumes "list_all plain_char access" and set: "set_session_cookies dg rnd cfg tc access (encode_hex rt) = (cs, csrf)"
  shows "find_cookie ''access'' (browser_header cs) = Some access \<and> find_cookie ''csrf'' (browser_header cs) = Some csrf \<and> csrf \<noteq> []"
proof -
  have csrf: "csrf = generate_csrf_token dg rnd (secret tc) access" using set by (auto simp: set_session_cookies_def Let_def)
  have pc: "list_all plain_char csrf"
    using plain_hex by (simp add: csrf generate_csrf_token_def csrf_mac_def Let_def) (simp add: plain_char_def is_whitespace_def)
  have names: "list_all plain_char ''access''" "list_all plain_char ''refresh''" "list_all plain_char ''csrf''" "plain_char (CHR ''='')"
    by (simp_all add: plain_char_def is_whitespace_def)
  let ?ps = "[prefixed cfg ''access'' @ ''='' @ access, prefixed cfg ''refresh'' @ ''='' @ encode_hex rt, prefixed cfg ''csrf'' @ ''='' @ csrf]"
  have "map cookie_pair cs = ?ps"
    using set assms(1) pc names plain_hex
    by (auto simp: set_session_cookies_def Let_def csrf access_cookie_def refresh_cookie_def csrf_cookie_def access_cookie_name_def
        refresh_cookie_name_def csrf_cookie_name_def cookie_pair_build plain_prefixed)
  then have "find_cookie n (browser_header cs) = find_map (raw_cookie n) ?ps" for n
    unfolding browser_header_def using find_cookie_join [of ?ps n] assms(1) pc names plain_hex by (simp add: plain_prefixed)
  moreover have "csrf \<noteq> []" by (simp add: csrf generate_csrf_token_def Let_def)
  ultimately show ?thesis by (auto simp: prefixed_def raw_cookie_def strip_prefix_def)
qed

section \<open>Sessions\<close>

text \<open>
  What is known of jsonwebtoken for a session: a token it made, as long as it has not expired, decodes to its claims, and it consists of
  letters, digits and the characters of base64url and the dot.
\<close>

definition jwt_roundtrip :: "'key jwt_api \<Rightarrow> string \<Rightarrow> bool" where
  "jwt_roundtrip api sec =
     (\<forall>c t. encode_jwt api HS256 c (from_secret api sec) = Inr t \<longrightarrow>
        (\<exists>i. decode_header api t = Inr (HS256, i)) \<and> decode_claims api t (from_secret api sec) (access_validation None) = Inr c \<and>
        list_all (\<lambda>c. is_ascii_alphanumeric c \<or> c \<in> set ''-_.'') t)"

lemma token_plain: "list_all (\<lambda>c. is_ascii_alphanumeric c \<or> c \<in> set ''-_.'') t \<Longrightarrow> list_all plain_char t"
  by (auto simp: list_all_iff plain_char_def is_whitespace_def is_ascii_alphanumeric_def Let_def)

lemma new_session_parts:
  assumes "new_session api dg conf ops now rnd u db = (Inr (cs, csrf), db')"
  obtains t where "encode_jwt api HS256 (claims_from_user now u (token_config conf)) (from_secret api (secret (token_config conf))) = Inr t"
    "set_session_cookies dg (csrf_bytes rnd) (session_config conf) (token_config conf) t (encode_hex (refresh_bytes rnd)) = (cs, csrf)"
proof -
  let ?tc = "token_config conf"
  have cl: "\<lparr>subject = user_id u, email = u_email u, user_name = u_name u, role = u_role u, permissions = u_permissions u,
      exp_at = now + access_token_ttl ?tc, iat = now, iss = required_iss ?tc,
      aud = (if required_aud ?tc = [] then None else Some (required_aud ?tc))\<rparr> = claims_from_user now u ?tc"
    by (simp add: claims_from_user_def)
  obtain t e where i: "issue_access_token api now ?tc (user_id u) (u_email u) (u_name u) (u_role u) (u_permissions u) = Inr (t, e)"
    using assms by (auto simp: new_session_def split: sum.splits)
  then have "encode_jwt api HS256 (claims_from_user now u ?tc) (from_secret api (secret ?tc)) = Inr t"
    by (auto simp: issue_access_token_def cl Let_def rbind_eq_Inr split: if_splits)
  moreover have "set_session_cookies dg (csrf_bytes rnd) (session_config conf) ?tc t (encode_hex (refresh_bytes rnd)) = (cs, csrf)"
    using assms i by (auto simp: new_session_def Let_def generate_refresh_token_def split: sum.splits prod.splits)
  ultimately show ?thesis using that by blast
qed


definition demo_conf :: auth_conf where
  "demo_conf = \<lparr>provider = None, token_config = \<lparr>secret = ''s'', access_token_ttl = 900, refresh_token_ttl = 100, required_iss = None, required_aud = []\<rparr>,
     session_config = production\<rparr>"

definition demo_user :: auth_user where
  "demo_user = \<lparr>user_id = ''u'', u_email = ''e'', u_name = ''n'', u_role = ''user'', avatar_url = None, u_permissions = []\<rparr>"

definition token_api :: "string jwt_api" where
  "token_api = demo_api\<lparr>decode_header := (\<lambda>t. Inr (HS256, None)),
     encode_jwt := (\<lambda>_ c _. if c = claims_from_user 0 demo_user (token_config demo_conf) then Inr ''t'' else Inl ''no''),
     decode_claims := (\<lambda>_ _ _. Inr (claims_from_user 0 demo_user (token_config demo_conf)))\<rparr>"

text \<open>A user database with one user, whose state maps the stored token hashes to users.\<close>

definition demo_store :: "(string, string) hash_map auth_store" where
  "demo_store = \<lparr>upsert_user = (\<lambda>db _. (Inr demo_user, db)), get_user_by_id = (\<lambda>_ _. Inr demo_user),
     store_refresh_token = (\<lambda>db u h _. (Inr (), hm_insert h u db)),
     consume_refresh_token = (\<lambda>db _ h. case hm_get db h of Some i \<Rightarrow> (Inr i, hm_remove h db) | None \<Rightarrow> (Inl Unauthorized, db)),
     revoke_all_refresh_tokens = (\<lambda>_ _. []), verify_password = (\<lambda>_ _ _. Inr (Some demo_user)), on_login = (\<lambda>db _. db)\<rparr>"

definition demo_digests :: digests where
  "demo_digests = \<lparr>sha256 = (\<lambda>b. b), hmac_sha256 = (\<lambda>k b. [7])\<rparr>"

definition demo_random :: session_random where
  "demo_random = \<lparr>refresh_bytes = [1], csrf_bytes = [2]\<rparr>"


section \<open>Refresh tokens\<close>

text \<open>
  What the trait \<open>AuthStore\<close> asks of an application, over the stored token hashes: storing adds one for a user, consuming
  returns the user of a stored one and deletes it, and nothing else adds any.
\<close>

definition refresh_laws :: "'db auth_store \<Rightarrow> ('db \<Rightarrow> string \<Rightarrow> string option) \<Rightarrow> bool" where
  "refresh_laws ops live =
     ((\<forall>db now h i db'. consume_refresh_token ops db now h = (Inr i, db') \<longrightarrow> live db h = Some i \<and> live db' = (live db)(h := None)) \<and>
      (\<forall>db now h e db'. consume_refresh_token ops db now h = (Inl e, db') \<longrightarrow> live db' \<subseteq>\<^sub>m live db) \<and>
      (\<forall>db u h t db'. store_refresh_token ops db u h t = (Inr (), db') \<longrightarrow> live db' = (live db)(h \<mapsto> u)) \<and>
      (\<forall>db u h t e db'. store_refresh_token ops db u h t = (Inl e, db') \<longrightarrow> live db' = live db) \<and>
      (\<forall>db u. live (on_login ops db u) = live db))"

record refresh_call =
  call_now :: int
  call_random :: session_random
  call_jar :: "(string, string) hash_map"

fun refresh_run ::
    "'key jwt_api \<Rightarrow> digests \<Rightarrow> auth_conf \<Rightarrow> 'db auth_store \<Rightarrow> 'db \<Rightarrow> refresh_call list \<Rightarrow> (refresh_call \<times> response) list" where
  "refresh_run api dg conf ops db [] = []"
| "refresh_run api dg conf ops db (x # xs) =
     (let (r, db') = refresh api dg conf ops (call_now x) (call_random x) (call_jar x) db
      in (x, r) # refresh_run api dg conf ops db' xs)"

definition renews :: "digests \<Rightarrow> auth_conf \<Rightarrow> string \<Rightarrow> refresh_call \<times> response \<Rightarrow> bool" where
  "renews dg conf h xr =
     (map_option (hash_refresh_token (sha256 dg)) (extract_refresh_token (call_jar (fst xr)) (session_config conf)) = Some h \<and> status (snd xr) = 200)"

definition new_hash :: "digests \<Rightarrow> refresh_call \<Rightarrow> string" where
  "new_hash dg x = hash_refresh_token (sha256 dg) (generate_refresh_token (refresh_bytes (call_random x)))"

lemma issue_keeps_dead:
  assumes "refresh_laws ops live" "issue_session_response api dg conf ops now rnd u db = (r, db')" "live db h = None"
    "hash_refresh_token (sha256 dg) (generate_refresh_token (refresh_bytes rnd)) \<noteq> h"
  shows "live db' h = None"
proof -
  let ?h = "hash_refresh_token (sha256 dg) (generate_refresh_token (refresh_bytes rnd))"
  let ?t = "now + refresh_token_ttl (token_config conf)"
  obtain s1 db1 where st: "store_refresh_token ops db (user_id u) ?h ?t = (s1, db1)" by (cases "store_refresh_token ops db (user_id u) ?h ?t")
  have l: "live db1 h = None"
  proof (cases s1)
    case (Inl e)
    then show ?thesis using st assms(1,3) unfolding refresh_laws_def by metis
  next
    case (Inr x)
    then have "live db1 = (live db)(?h \<mapsto> user_id u)" using st assms(1) unfolding refresh_laws_def by simp
    then show ?thesis using assms(3,4) by simp
  qed
  have o: "live (on_login ops db1 (user_id u)) h = None" using l assms(1) by (simp add: refresh_laws_def)
  show ?thesis
    using assms(2,3) st l o by (auto simp: issue_session_response_def new_session_def Let_def split: sum.splits prod.splits)
qed

lemma refresh_effect:
  assumes laws: "refresh_laws ops live" and r: "refresh api dg conf ops (call_now x) (call_random x) (call_jar x) db = (r, db')" and new: "new_hash dg x \<noteq> h"
  shows "(live db h = None \<longrightarrow> live db' h = None \<and> \<not> renews dg conf h (x, r)) \<and> (renews dg conf h (x, r) \<longrightarrow> live db' h = None)"
proof (cases "extract_refresh_token (call_jar x) (session_config conf)")
  case None
  then show ?thesis using r by (auto simp: refresh_def renews_def reply_def)
next
  case (Some t)
  let ?h = "hash_refresh_token (sha256 dg) t"
  obtain c db1 where c: "consume_refresh_token ops db (call_now x) ?h = (c, db1)" by (cases "consume_refresh_token ops db (call_now x) ?h")
  show ?thesis
  proof (cases c)
    case (Inl e)
    then have "live db1 \<subseteq>\<^sub>m live db" using c laws unfolding refresh_laws_def by blast
    then have "live db h = None \<longrightarrow> live db1 h = None" by (auto simp: map_le_def dom_def)
    then show ?thesis using r Some Inl by (auto simp: refresh_def c renews_def reply_def)
  next
    case (Inr i)
    have l1: "live db ?h = Some i" "live db1 = (live db)(?h := None)" using c [unfolded Inr] conjunct1 [OF laws [unfolded refresh_laws_def]] by blast+
    have d: "live db1 h = None \<Longrightarrow> live db' h = None"
      using r Some issue_keeps_dead [OF laws, of api dg conf "call_now x" "call_random x" _ db1 r db' h] new
      by (auto simp: refresh_def c Inr new_hash_def split: sum.splits)
    show ?thesis using l1 d Some by (auto simp: renews_def)
  qed
qed

lemma dead_never_renews:
  assumes "refresh_laws ops live" "\<forall>x \<in> set xs. new_hash dg x \<noteq> h" "live db h = None"
  shows "filter (renews dg conf h) (refresh_run api dg conf ops db xs) = []"
  using assms(2,3)
proof (induction xs arbitrary: db)
  case (Cons x xs)
  obtain r db' where r: "refresh api dg conf ops (call_now x) (call_random x) (call_jar x) db = (r, db')"
    by (cases "refresh api dg conf ops (call_now x) (call_random x) (call_jar x) db")
  have "live db' h = None" "\<not> renews dg conf h (x, r)" using refresh_effect [OF assms(1) r, of h] Cons.prems by auto
  then show ?case using Cons.IH Cons.prems(1) by (simp add: r)
qed simp

text \<open>
  C17. A refresh token is good for one new session: over every sequence of refresh requests at most one that shows it succeeds,
  provided that the application deletes what it consumes and that the server does not draw the same token again.
\<close>

theorem refresh_at_most_once:
  assumes "refresh_laws ops live" "\<forall>x \<in> set xs. new_hash dg x \<noteq> h"
  shows "length (filter (renews dg conf h) (refresh_run api dg conf ops db xs)) \<le> 1"
  using assms(2)
proof (induction xs arbitrary: db)
  case (Cons x xs)
  obtain r db' where r: "refresh api dg conf ops (call_now x) (call_random x) (call_jar x) db = (r, db')"
    by (cases "refresh api dg conf ops (call_now x) (call_random x) (call_jar x) db")
  show ?case
  proof (cases "renews dg conf h (x, r)")
    case True
    then have "live db' h = None" using refresh_effect [OF assms(1) r, of h] Cons.prems by auto
    then have "filter (renews dg conf h) (refresh_run api dg conf ops db' xs) = []"
      using dead_never_renews [OF assms(1)] Cons.prems by (metis list.set_intros(2))
    then show ?thesis using True by (simp add: r)
  next
    case False
    then show ?thesis using Cons.IH Cons.prems by (simp add: r)
  qed
qed simp

definition demo_call :: refresh_call where
  "demo_call = \<lparr>call_now = 0, call_random = demo_random, call_jar = [(''__Host-refresh'', ''ab'')]\<rparr>"

theorem refresh_at_most_once_witness:
  "new_hash demo_digests demo_call \<noteq> ''6162'' \<and> renews demo_digests demo_conf ''6162'' (demo_call, reply 200 EmptyBody) \<and>
   length (filter (renews demo_digests demo_conf ''6162'') (refresh_run token_api demo_digests demo_conf demo_store [(''6162'', ''u'')] [demo_call, demo_call])) \<le> 1"
proof -
  have n: "new_hash demo_digests demo_call \<noteq> ''6162''" by code_simp
  have r: "renews demo_digests demo_conf ''6162'' (demo_call, reply 200 EmptyBody)"
    by code_simp
  have "refresh_laws demo_store hm_get"
    by (auto simp: refresh_laws_def demo_store_def map_le_def fun_eq_iff hm_simps split: option.splits if_splits)
  from refresh_at_most_once [OF this, of "[demo_call, demo_call]" demo_digests "''6162''" demo_conf token_api "[(''6162'', ''u'')]"] n r
  show ?thesis by simp
qed

section \<open>Limits of the login\<close>

text \<open>
  An exchange whose answer has no usable id token, at a provider without an endpoint for user data, succeeds
  with the empty subject: all such users are the same user of the application.
\<close>

theorem exchange_empty_subject:
  assumes "token_answer net (token_endpoint p) (exchange_form p code ver) = Inr r" "id_token_of api net p r = None"
    "userinfo_endpoint p = [] \<or> info_answer net (userinfo_endpoint p) (tr_access_token r) = None"
  shows "\<exists>info. exchange_code api net p code ver = Inr (r, info) \<and> info_sub info = []"
  using assms by (auto simp: exchange_code_def merge_info_def or_else_def unwrap_default_def Let_def)

text \<open>A logout with an access token that has expired clears the cookies and revokes nothing.\<close>

theorem expired_logout_keeps_tokens:
  assumes "extract_access_token jar (session_config conf) = Some t" "validate_access_token api t (secret (token_config conf)) = Inl e"
  shows "snd (logout api conf ops jar db) = db \<and> status (fst (logout api conf ops jar db)) = 204"
  using assms by (simp add: logout_def Let_def)

end
