(* ===== verification/Spec2Isabelle.thy ===== *)
theory Spec2Isabelle
  imports Coord Relay_Server Mesh_Ipam Mesh_Peer Ipam_Store Stun Flow Dns Proxy Monitor Remote_Fs Mesh_Join
    Audit_Log Jobs Core_Limits Core_Broadcast Core_Upload Vfs_Overlay Vfs_Cache Backup_Store Baseline_System Auth_Flow
begin

text \<open>
  \<^bold>\<open>Verification of the RUNESH crates.\<close>

  The program is a collection of Rust crates. This library models the access-control crate:
  \<^item> \<open>Acl_Hujson\<close>: \<open>crates/runesh-acl/src/hujson.rs\<close>;
  \<^item> \<open>Acl_Model\<close>: \<open>crates/runesh-acl/src/model.rs\<close>;
  \<^item> \<open>Acl_Eval\<close>: \<open>crates/runesh-acl/src/eval.rs\<close> and \<open>diff.rs\<close>.
\<close>

end
